(* ===== verification/Prelude.thy ===== *)
theory Prelude
  imports Main "HOL-Library.Word"
begin

text \<open>
  The prelude of the development: the machine integer types of \<^verbatim>\<open>kernel/types.h\<close>, the result type
  of kernel code that may panic, the table scan that many kernel loops are, and the generic lemmas
  that the component theories share.

  Kernel code has outcomes beyond returning: it may call \<^verbatim>\<open>panic\<close> and stop the machine, it may
  execute something C leaves undefined (an index outside an array), and it may spin forever (a lock
  that the same interleaving never releases). Each is a constructor of \<open>result\<close>, so that every panic
  and every early return of the source is a branch of the model. A function that waits in a loop
  around \<^verbatim>\<open>sleep\<close> and has done nothing yet when it first has to wait ends in \<open>Sleep\<close>: after a wakeup
  the loop starts again.
\<close>

unbundle bit_operations_syntax

subsection \<open>Machine integers (kernel/types.h)\<close>

type_synonym uchar = "8 word"
type_synonym ushort = "16 word"
type_synonym uint = "32 word"
type_synonym uint64 = "64 word"

subsection \<open>Wait channels\<close>

text \<open>
  \<^verbatim>\<open>sleep\<close> and \<^verbatim>\<open>wakeup\<close> identify a wait channel by the address of a kernel object. A channel of the
  model names that object: an entry of a table by its index, and the single objects by themselves.
\<close>

datatype chan =
    ProcChan nat          \<comment> \<open>\<^verbatim>\<open>&proc[i]\<close>\<close>
  | ThreadChan nat nat    \<comment> \<open>\<^verbatim>\<open>&proc[i].threads[j]\<close>\<close>
  | BsemChan nat          \<comment> \<open>\<^verbatim>\<open>&bsems[i]\<close>\<close>
  | TicksChan             \<comment> \<open>\<^verbatim>\<open>&ticks\<close>\<close>
  | LogChan               \<comment> \<open>\<^verbatim>\<open>&log\<close>\<close>
  | BufLockChan nat       \<comment> \<open>the sleep lock of \<^verbatim>\<open>bcache.buf[i]\<close>\<close>
  | InodeLockChan nat     \<comment> \<open>the sleep lock of \<^verbatim>\<open>itable.inode[i]\<close>\<close>
  | PipeReadChan nat      \<comment> \<open>\<^verbatim>\<open>&pi->nread\<close>\<close>
  | PipeWriteChan nat     \<comment> \<open>\<^verbatim>\<open>&pi->nwrite\<close>\<close>
  | ConsReadChan          \<comment> \<open>\<^verbatim>\<open>&cons.r\<close>\<close>
  | UartTxChan            \<comment> \<open>\<^verbatim>\<open>&uart_tx_r\<close>\<close>
  | DiskFreeChan          \<comment> \<open>\<^verbatim>\<open>&disk.free[0]\<close>\<close>
  | DiskBufChan nat       \<comment> \<open>a \<^verbatim>\<open>struct buf\<close> with a transfer in flight\<close>

subsection \<open>Results of kernel code\<close>

datatype 'a result =
    Ok 'a            \<comment> \<open>the function returned\<close>
  | Panic string     \<comment> \<open>the kernel called \<^verbatim>\<open>panic\<close> with this message\<close>
  | Undef string     \<comment> \<open>C leaves the behaviour undefined\<close>
  | Hang             \<comment> \<open>the code spins and never gets further\<close>
  | Sleep chan       \<comment> \<open>the thread went to sleep in the loop it is in\<close>

primrec bindR :: "'a result \<Rightarrow> ('a \<Rightarrow> 'b result) \<Rightarrow> 'b result" where
  "bindR (Ok x) f = f x"
| "bindR (Panic m) f = Panic m"
| "bindR (Undef m) f = Undef m"
| "bindR Hang f = Hang"
| "bindR (Sleep c) f = Sleep c"

primrec returns :: "'a result \<Rightarrow> bool" where
  "returns (Ok x) = True"
| "returns (Panic m) = False"
| "returns (Undef m) = False"
| "returns Hang = False"
| "returns (Sleep c) = False"

named_theorems kdefs \<open>definitions a component unfolds when it is evaluated on a concrete state\<close>
named_theorems frame \<open>fields that an operation leaves alone\<close>

lemma bindR_Ok_iff: "bindR m f = Ok y \<longleftrightarrow> (\<exists>x. m = Ok x \<and> f x = Ok y)"
  by (cases m) auto

lemma bindR_OkE [elim!]:
  assumes "bindR m f = Ok y"
  obtains x where "m = Ok x" and "f x = Ok y"
  using assms by (auto simp: bindR_Ok_iff)

lemma bindR_cong [fundef_cong]:
  assumes "m = n" and "\<And>x. n = Ok x \<Longrightarrow> f x = g x"
  shows "bindR m f = bindR n g"
  using assms by (cases n) auto

lemma bindR_Ok [simp]: "bindR m Ok = m"
  by (cases m) auto

lemma bindR_assoc: "bindR (bindR m f) g = bindR m (\<lambda>x. bindR (f x) g)"
  by (cases m) auto

lemma returns_iff: "returns m \<longleftrightarrow> (\<exists>x. m = Ok x)"
  by (cases m) auto

lemma returns_bindR: "returns (bindR m f) \<longleftrightarrow> (\<exists>x. m = Ok x \<and> returns (f x))"
  by (cases m) auto

text \<open>A \<^verbatim>\<open>for\<close> loop whose body may panic: the body runs for each index in order.\<close>

fun foldR :: "('i \<Rightarrow> 's \<Rightarrow> 's result) \<Rightarrow> 'i list \<Rightarrow> 's \<Rightarrow> 's result" where
  "foldR f [] s = Ok s"
| "foldR f (i # is) s = bindR (f i s) (foldR f is)"

lemma foldR_append: "foldR f (is @ js) s = bindR (foldR f is s) (foldR f js)"
  by (induction "is" arbitrary: s) (auto simp: bindR_assoc intro!: bindR_cong)

lemma foldR_inv:
  assumes "P s" and "\<And>i s t. i \<in> set is \<Longrightarrow> P s \<Longrightarrow> f i s = Ok t \<Longrightarrow> P t" and "foldR f is s = Ok t"
  shows "P t"
  using assms by (induction "is" arbitrary: s) auto

lemma foldR_returns:
  assumes "P s" and "\<And>i s. i \<in> set is \<Longrightarrow> P s \<Longrightarrow> \<exists>t. f i s = Ok t \<and> P t"
  shows "\<exists>t. foldR f is s = Ok t \<and> P t"
  using assms
proof (induction "is" arbitrary: s)
  case Nil
  then show ?case by simp
next
  case (Cons i "is")
  from Cons.prems(2) [of i s] Cons.prems(1) obtain u where u: "f i s = Ok u" "P u" by auto
  moreover from u(2) have "\<exists>t. foldR f is u = Ok t \<and> P t"
    by (rule Cons.IH) (use Cons.prems(2) in auto)
  ultimately show ?case by auto
qed

subsection \<open>Machine words as bytes\<close>

text \<open>RISC-V is little-endian; structures that cross into user memory are lists of bytes.\<close>

fun le_word :: "uchar list \<Rightarrow> 'a::len word" where
  "le_word [] = 0"
| "le_word (b # bs) = ucast b OR push_bit 8 (le_word bs)"

definition le_bytes :: "nat \<Rightarrow> 'a::len word \<Rightarrow> uchar list" where
  "le_bytes n w = map (\<lambda>i. ucast (drop_bit (8 * i) w)) [0..<n]"

lemma length_le_bytes [simp]: "length (le_bytes n w) = n"
  by (simp add: le_bytes_def)

lemma bit_le_word:
  "bit (le_word bs :: 'a::len word) n \<longleftrightarrow>
     n < LENGTH('a) \<and> n div 8 < length bs \<and> bit (bs ! (n div 8)) (n mod 8)"
proof (induction bs arbitrary: n)
  case Nil
  then show ?case by simp
next
  case (Cons b bs)
  show ?case
  proof (cases "n < 8")
    case True
    then show ?thesis by (auto simp: bit_simps)
  next
    case False
    then obtain m where m: "n = 8 + m" using le_Suc_ex not_less by blast
    have b: "\<not> bit b n" using m by (simp add: bit_word.rep_eq)
    have "(8 + m) div 8 = Suc (m div 8)" by simp
    with b Cons.IH [of m] m show ?thesis by (auto simp: bit_simps)
  qed
qed

lemma le_word_le_bytes:
  assumes "LENGTH('a) \<le> 8 * n"
  shows "le_word (le_bytes n w) = (w :: 'a::len word)"
proof (rule bit_eqI)
  fix k
  assume "possible_bit TYPE('a word) k"
  then have "k < LENGTH('a)" by simp
  with assms have "k div 8 < n" by auto
  with \<open>k < LENGTH('a)\<close> show "bit (le_word (le_bytes n w) :: 'a word) k = bit w k"
    by (simp add: bit_le_word le_bytes_def bit_simps)
qed

subsection \<open>Table scans\<close>

text \<open>
  Most tables of the kernel are searched by a loop that visits the entries in order and leaves it at
  the first one that satisfies a test. \<open>scan n P\<close> is that loop over the indices below \<open>n\<close>.
\<close>

definition scan :: "nat \<Rightarrow> (nat \<Rightarrow> bool) \<Rightarrow> nat option" where
  "scan n P = find P [0..<n]"

lemma scan_Some_iff:
  "scan n P = Some i \<longleftrightarrow> i < n \<and> P i \<and> (\<forall>j<i. \<not> P j)"
  unfolding scan_def find_Some_iff by (auto simp: nth_append)

lemma scan_None_iff: "scan n P = None \<longleftrightarrow> (\<forall>i<n. \<not> P i)"
  unfolding scan_def find_None_iff by auto

lemma scan_SomeD:
  assumes "scan n P = Some i"
  shows "i < n" and "P i" and "\<And>j. j < i \<Longrightarrow> \<not> P j"
  using assms by (auto simp: scan_Some_iff)

lemma scan_cong: "(\<And>i. i < n \<Longrightarrow> P i = Q i) \<Longrightarrow> scan n P = scan n Q"
  unfolding scan_def by (rule find_cong) auto

lemma scan_exists: "i < n \<Longrightarrow> P i \<Longrightarrow> \<exists>j. scan n P = Some j"
  using scan_None_iff [of n P] by (cases "scan n P") auto

end
