(* ===== verification/Spinlock.thy ===== *)
theory Spinlock
  imports Riscv
begin

text \<open>
  \<^verbatim>\<open>kernel/spinlock.c\<close> and the per-CPU state of \<^verbatim>\<open>kernel/proc.h\<close> it works on. A hart is a number;
  \<open>tp\<close> is the hart whose code runs, and \<open>cpus\<close> the array of \<^verbatim>\<open>struct cpu\<close>, to which we add the one
  control register the lock code uses, the hart's \<^verbatim>\<open>sstatus\<close>, and the registers of the code it runs
  that \<^verbatim>\<open>swtch\<close> exchanges.

  First the operations as one hart executes them, then the steps of several harts that contend for
  one lock: the atomic swap of \<^verbatim>\<open>__sync_lock_test_and_set\<close> and each store of \<^verbatim>\<open>acquire\<close> and
  \<^verbatim>\<open>release\<close> is a step, and an invariant of the reachable states gives mutual exclusion and that
  neither panic of the lock code can be reached.
\<close>

subsection \<open>State\<close>

record kcontext =
  ctx_ra :: uint64
  ctx_sp :: uint64
  ctx_s :: "uint64 list"   \<comment> \<open>the callee-saved registers s0 to s11\<close>

record cpu =
  c_regs :: kcontext                \<comment> \<open>the registers \<^verbatim>\<open>swtch\<close> saves and loads\<close>
  c_proc :: "nat option"            \<comment> \<open>index into \<^verbatim>\<open>proc[]\<close> of the running process\<close>
  c_thread :: "(nat \<times> nat) option"  \<comment> \<open>process and thread index of the running thread\<close>
  c_context :: kcontext
  noff :: int                       \<comment> \<open>an int in C; the model counts without a bound\<close>
  intena :: bool
  sstatus :: uint64                 \<comment> \<open>the hart's supervisor status register\<close>

record spinlock =
  locked :: uint
  lname :: string
  lcpu :: "nat option"

record machine =
  tp :: nat
  cpus :: "nat \<Rightarrow> cpu"

definition SSTATUS_SIE :: uint64 where "SSTATUS_SIE = 2"

definition mycpu :: "'a machine_scheme \<Rightarrow> cpu" where
  "mycpu s = cpus s (tp s)"

definition upd_cpu :: "(cpu \<Rightarrow> cpu) \<Rightarrow> 'a machine_scheme \<Rightarrow> 'a machine_scheme" where
  "upd_cpu f s = s\<lparr>cpus := (cpus s)(tp s := f (cpus s (tp s)))\<rparr>"

subsection \<open>Interrupt enable bit (kernel/riscv.h)\<close>

definition intr_on :: "'a machine_scheme \<Rightarrow> 'a machine_scheme" where
  "intr_on s = upd_cpu (\<lambda>c. c\<lparr>sstatus := sstatus c OR SSTATUS_SIE\<rparr>) s"

definition intr_off :: "'a machine_scheme \<Rightarrow> 'a machine_scheme" where
  "intr_off s = upd_cpu (\<lambda>c. c\<lparr>sstatus := sstatus c AND NOT SSTATUS_SIE\<rparr>) s"

definition intr_get :: "'a machine_scheme \<Rightarrow> bool" where
  "intr_get s \<longleftrightarrow> sstatus (mycpu s) AND SSTATUS_SIE \<noteq> 0"

subsection \<open>kernel/spinlock.c\<close>

definition initlock :: "string \<Rightarrow> spinlock \<Rightarrow> spinlock" where
  "initlock name lk = lk\<lparr>lname := name, locked := 0, lcpu := None\<rparr>"

definition holding :: "spinlock \<Rightarrow> 'a machine_scheme \<Rightarrow> bool" where
  "holding lk s \<longleftrightarrow> locked lk \<noteq> 0 \<and> lcpu lk = Some (tp s)"

definition push_off :: "'a machine_scheme \<Rightarrow> 'a machine_scheme" where
  "push_off s =
     (let old = intr_get s;
          s = intr_off s;
          s = (if noff (mycpu s) = 0 then upd_cpu (\<lambda>c. c\<lparr>intena := old\<rparr>) s else s)
      in upd_cpu (\<lambda>c. c\<lparr>noff := noff c + 1\<rparr>) s)"

definition pop_off :: "'a machine_scheme \<Rightarrow> 'a machine_scheme result" where
  "pop_off s =
     (if intr_get s then Panic ''pop_off - interruptible''
      else if noff (mycpu s) < 1 then Panic ''pop_off''
      else let s = upd_cpu (\<lambda>c. c\<lparr>noff := noff c - 1\<rparr>) s
           in Ok (if noff (mycpu s) = 0 \<and> intena (mycpu s) then intr_on s else s))"

text \<open>
  The loop around the atomic swap ends only when another hart releases the lock. For the one hart
  that runs here nobody does, so a lock that is taken makes \<open>acquire\<close> hang; the steps of several
  harts are in the next part.
\<close>

definition acquire :: "spinlock \<Rightarrow> 'a machine_scheme \<Rightarrow> (spinlock \<times> 'a machine_scheme) result" where
  "acquire lk s =
     (let s = push_off s
      in if holding lk s then Panic ''acquire''
         else if locked lk \<noteq> 0 then Hang
         else Ok (lk\<lparr>locked := 1, lcpu := Some (tp s)\<rparr>, s))"

definition release :: "spinlock \<Rightarrow> 'a machine_scheme \<Rightarrow> (spinlock \<times> 'a machine_scheme) result" where
  "release lk s =
     (if \<not> holding lk s then Panic ''release''
      else bindR (pop_off s) (\<lambda>s. Ok (lk\<lparr>lcpu := None, locked := 0\<rparr>, s)))"

lemmas spin_defs = mycpu_def upd_cpu_def intr_on_def intr_off_def intr_get_def initlock_def
  holding_def push_off_def pop_off_def acquire_def release_def SSTATUS_SIE_def

declare spin_defs [kdefs]

subsection \<open>Nested push_off and pop_off\<close>

text \<open>
  The lock code keeps interrupts off while any lock is held. \<open>off_inv\<close> says so for the running hart:
  a positive nesting depth means that the interrupt bit is clear.
\<close>

definition off_inv :: "'a machine_scheme \<Rightarrow> bool" where
  "off_inv s \<longleftrightarrow> 0 \<le> noff (mycpu s) \<and> (0 < noff (mycpu s) \<longrightarrow> \<not> intr_get s)"

lemma mycpu_upd_cpu [simp]: "mycpu (upd_cpu f s) = f (mycpu s)"
  by (simp add: mycpu_def upd_cpu_def)

lemma tp_upd_cpu [simp]: "tp (upd_cpu f s) = tp s"
  by (simp add: upd_cpu_def)

lemma upd_cpu_upd_cpu [simp]: "upd_cpu f (upd_cpu g s) = upd_cpu (f \<circ> g) s"
  by (simp add: upd_cpu_def)

lemma upd_cpu_id: "f (mycpu s) = mycpu s \<Longrightarrow> upd_cpu f s = s"
  by (simp add: upd_cpu_def mycpu_def)

lemma upd_cpu_cong: "f (mycpu s) = g (mycpu s) \<Longrightarrow> upd_cpu f s = upd_cpu g s"
  by (simp add: upd_cpu_def mycpu_def)

lemma SIE_bit: "x AND SSTATUS_SIE \<noteq> 0 \<longleftrightarrow> bit x 1" for x :: uint64
proof -
  have two: "SSTATUS_SIE = push_bit 1 1" by (simp add: SSTATUS_SIE_def)
  have "x AND SSTATUS_SIE = (if bit x 1 then push_bit 1 1 else 0)"
    unfolding two by (rule bit_eqI) (auto simp: bit_simps bit_1_iff)
  then show ?thesis by auto
qed

lemma bit_SIE [simp]: "bit SSTATUS_SIE n \<longleftrightarrow> n = 1"
proof -
  have two: "SSTATUS_SIE = push_bit 1 1" by (simp add: SSTATUS_SIE_def)
  show ?thesis unfolding two bit_push_bit_iff bit_1_iff by auto
qed

lemma set_clear_SIE: "bit x 1 \<Longrightarrow> (x AND NOT SSTATUS_SIE) OR SSTATUS_SIE = x"
  for x :: uint64
  by (rule bit_eqI) (auto simp: bit_simps)

lemma clear_SIE: "\<not> bit x 1 \<Longrightarrow> x AND NOT SSTATUS_SIE = x" for x :: uint64
  by (rule bit_eqI) (auto simp: bit_simps)

lemma intr_get_iff: "intr_get s \<longleftrightarrow> bit (sstatus (mycpu s)) 1"
  by (simp add: intr_get_def SIE_bit)

lemma push_off_eq:
  "push_off s = upd_cpu (\<lambda>c. c\<lparr>sstatus := sstatus c AND NOT SSTATUS_SIE,
      intena := (if noff c = 0 then bit (sstatus c) 1 else intena c), noff := noff c + 1\<rparr>) s"
  by (auto simp: push_off_def intr_off_def intr_get_iff Let_def intro!: upd_cpu_cong)

lemma intr_get_push_off [simp]: "\<not> intr_get (push_off s)"
  by (simp add: push_off_eq intr_get_iff bit_simps)

lemma noff_push_off [simp]: "noff (mycpu (push_off s)) = noff (mycpu s) + 1"
  by (simp add: push_off_eq)

lemma tp_push_off [simp]: "tp (push_off s) = tp s"
  by (simp add: push_off_eq)

lemma off_inv_push_off: "off_inv s \<Longrightarrow> off_inv (push_off s)"
  by (simp add: off_inv_def)

primrec pops :: "nat \<Rightarrow> 'a machine_scheme \<Rightarrow> 'a machine_scheme result" where
  "pops 0 s = Ok s"
| "pops (Suc n) s = bindR (pop_off s) (pops n)"

lemma pop_off_above_zero:
  assumes "\<not> intr_get s" and "1 < noff (mycpu s)"
  shows "pop_off s = Ok (upd_cpu (\<lambda>c. c\<lparr>noff := noff c - 1\<rparr>) s)"
  using assms by (simp add: pop_off_def Let_def)

lemma pop_off_to_zero:
  assumes "\<not> intr_get s" and "noff (mycpu s) = 1"
  shows "pop_off s = Ok (upd_cpu (\<lambda>c. c\<lparr>noff := 0,
           sstatus := (if intena c then sstatus c OR SSTATUS_SIE else sstatus c)\<rparr>) s)"
  using assms by (auto simp: pop_off_def intr_on_def Let_def intro!: upd_cpu_cong)

lemma push_pop_off:
  assumes "off_inv s"
  shows "pop_off (push_off s)
       = Ok (upd_cpu (\<lambda>c. c\<lparr>intena := (if noff c = 0 then bit (sstatus c) 1 else intena c)\<rparr>) s)"
proof (cases "noff (mycpu s) = 0")
  case True
  then have "noff (mycpu (push_off s)) = 1" by simp
  from pop_off_to_zero [OF intr_get_push_off this] show ?thesis
    using True by (auto simp: push_off_eq clear_SIE set_clear_SIE intro!: upd_cpu_cong)
next
  case False
  with assms have gt: "1 < noff (mycpu (push_off s))" and clr: "\<not> bit (sstatus (mycpu s)) 1"
    by (auto simp: off_inv_def intr_get_iff)
  from pop_off_above_zero [OF intr_get_push_off gt] show ?thesis
    using False clr by (auto simp: push_off_eq clear_SIE intro!: upd_cpu_cong)
qed

text \<open>
  Between two kernel calls a hart is settled: its depth is 0 or it has interrupts off, and the value it
  would restore is the one it has. A \<^verbatim>\<open>push_off\<close> with its \<^verbatim>\<open>pop_off\<close> then changes nothing at all, also
  when the code between them changed other parts of the state.
\<close>

definition settled :: "'a machine_scheme \<Rightarrow> bool" where
  "settled s \<longleftrightarrow> off_inv s \<and> (noff (mycpu s) = 0 \<longrightarrow> intena (mycpu s) = intr_get s)"

lemma push_pop_settled: "settled s \<Longrightarrow> pop_off (push_off s) = Ok s"
  by (simp add: settled_def push_pop_off intr_get_iff upd_cpu_id)

lemma settled_push_off: "settled s \<Longrightarrow> settled (push_off s)"
  by (auto simp: settled_def off_inv_def)

lemma pop_off_frame:
  assumes "pop_off s = Ok t" and "cpus u = cpus s" and "tp u = tp s"
  shows "pop_off u = Ok (u\<lparr>cpus := cpus t\<rparr>)"
  using assms by (auto simp: pop_off_def intr_on_def intr_get_def mycpu_def upd_cpu_def Let_def split: if_splits)

lemma pop_settled:
  assumes "settled s" and "cpus u = cpus (push_off s)" and "tp u = tp s"
  shows "pop_off u = Ok (u\<lparr>cpus := cpus s\<rparr>)"
  using pop_off_frame [OF push_pop_settled] assms by simp

lemma noff_pushes: "noff (mycpu ((push_off ^^ n) s)) = noff (mycpu s) + int n"
  by (induction n) auto

lemma pops_pushes:
  assumes "off_inv s"
  shows "\<exists>t. pops n ((push_off ^^ n) s) = Ok t \<and> sstatus (mycpu t) = sstatus (mycpu s)
           \<and> noff (mycpu t) = noff (mycpu s) \<and> off_inv t \<and> intr_get t = intr_get s"
  using assms
proof (induction n arbitrary: s)
  case 0
  then show ?case by simp
next
  case (Suc n)
  let ?u = "(push_off ^^ n) s"
  have inv: "off_inv ?u"
    using Suc.prems by (induction n) (simp_all add: off_inv_push_off)
  let ?v = "upd_cpu (\<lambda>c. c\<lparr>intena := (if noff c = 0 then bit (sstatus c) 1 else intena c)\<rparr>) ?u"
  have step: "pops (Suc n) ((push_off ^^ Suc n) s) = pops n ?v"
    using push_pop_off [OF inv] by simp
  show ?case
  proof (cases n)
    case 0
    with step Suc.prems show ?thesis by (auto simp: off_inv_def intr_get_iff)
  next
    case (Suc m)
    have "0 < noff (mycpu ?u)"
      using Suc.prems Suc by (simp add: noff_pushes off_inv_def del: funpow.simps)
    then have "?v = ?u" by (intro upd_cpu_id) simp
    with step Suc.IH [OF Suc.prems] show ?thesis by simp
  qed
qed

text \<open>
  C22. \<^verbatim>\<open>push_off\<close> and \<^verbatim>\<open>pop_off\<close> are matched: \<open>n\<close> calls of \<^verbatim>\<open>push_off\<close> followed by as many of \<^verbatim>\<open>pop_off\<close> return
  without a panic, give back the interrupt state the hart started with, on or off, and the nesting
  depth it started with; while at least one \<^verbatim>\<open>pop_off\<close> is outstanding interrupts are off. This is for depths
  that a C int can count, and then \<^verbatim>\<open>noff\<close> does not overflow on the way.
\<close>

theorem push_pop_matched:
  assumes "off_inv s" and "noff (mycpu s) + int (Suc n) \<le> 2 ^ 31 - 1"
  shows "(\<exists>t. pops n ((push_off ^^ n) s) = Ok t \<and> intr_get t = intr_get s
           \<and> noff (mycpu t) = noff (mycpu s) \<and> off_inv t)
         \<and> \<not> intr_get ((push_off ^^ Suc n) s)
         \<and> (\<forall>k\<le>Suc n. 0 \<le> noff (mycpu ((push_off ^^ k) s)) \<and> noff (mycpu ((push_off ^^ k) s)) \<le> 2 ^ 31 - 1)"
proof -
  have "0 \<le> noff (mycpu s)" using assms(1) by (simp add: off_inv_def)
  with assms(2) have "\<forall>k\<le>Suc n. 0 \<le> noff (mycpu ((push_off ^^ k) s)) \<and> noff (mycpu ((push_off ^^ k) s)) \<le> 2 ^ 31 - 1"
    unfolding noff_pushes by auto
  then show ?thesis using pops_pushes [OF assms(1), of n] by auto
qed

definition cpu0 :: cpu where
  "cpu0 = \<lparr>c_regs = \<lparr>ctx_ra = 0, ctx_sp = 0, ctx_s = []\<rparr>, c_proc = None, c_thread = None, c_context = \<lparr>ctx_ra = 0, ctx_sp = 0, ctx_s = []\<rparr>,
     noff = 0, intena = False, sstatus = SSTATUS_SIE\<rparr>"

theorem push_pop_matched_witness:
  "(\<exists>t. pops 3 ((push_off ^^ 3) \<lparr>tp = 0, cpus = (\<lambda>_. cpu0)\<rparr>) = Ok t
      \<and> intr_get t = intr_get \<lparr>tp = 0, cpus = (\<lambda>_. cpu0)\<rparr>
      \<and> noff (mycpu t) = noff (mycpu \<lparr>tp = 0, cpus = (\<lambda>_. cpu0)\<rparr>) \<and> off_inv t)
   \<and> \<not> intr_get ((push_off ^^ Suc 3) \<lparr>tp = 0, cpus = (\<lambda>_. cpu0)\<rparr>)"
  using push_pop_matched [of "\<lparr>tp = 0, cpus = (\<lambda>_. cpu0)\<rparr>" 3] by (simp add: off_inv_def mycpu_def cpu0_def)

subsection \<open>One hart: acquire and release\<close>

lemma acquire_free:
  assumes "locked lk = 0"
  shows "acquire lk s = Ok (lk\<lparr>locked := 1, lcpu := Some (tp s)\<rparr>, push_off s)"
  using assms by (simp add: acquire_def holding_def Let_def)

lemma acquire_Ok_iff:
  "acquire lk s = Ok (lk', s') \<longleftrightarrow>
     locked lk = 0 \<and> lk' = lk\<lparr>locked := 1, lcpu := Some (tp s)\<rparr> \<and> s' = push_off s"
  by (auto simp: acquire_def holding_def Let_def)

lemma acquire_held: "holding lk s \<Longrightarrow> acquire lk s = Panic ''acquire''"
  by (simp add: acquire_def holding_def Let_def)

lemma release_not_held: "\<not> holding lk s \<Longrightarrow> release lk s = Panic ''release''"
  by (simp add: release_def)

lemma acquire_holding: "acquire lk s = Ok (lk', s') \<Longrightarrow> holding lk' s'"
  by (auto simp: acquire_Ok_iff holding_def)

lemma acquire_release:
  assumes "off_inv s" and "locked lk = 0"
  shows "bindR (acquire lk s) (\<lambda>(lk, s). release lk s)
       = Ok (lk\<lparr>locked := 0, lcpu := None\<rparr>,
             upd_cpu (\<lambda>c. c\<lparr>intena := (if noff c = 0 then bit (sstatus c) 1 else intena c)\<rparr>) s)"
  using assms by (simp add: acquire_free release_def holding_def push_pop_off)

subsection \<open>Several harts and one lock\<close>

text \<open>
  Where each hart is in \<^verbatim>\<open>acquire\<close> or \<^verbatim>\<open>release\<close> of the lock. A step is one hart moving on; which
  one moves is not determined.
\<close>

datatype lockpc = Outside | Spinning | Swapped | Critical | Leaving

record lockstate =
  s_lk :: spinlock
  s_pc :: "nat \<Rightarrow> lockpc"
  s_mach :: machine

definition on_hart :: "nat \<Rightarrow> machine \<Rightarrow> machine" where
  "on_hart h m = m\<lparr>tp := h\<rparr>"

inductive lock_step :: "lockstate \<Rightarrow> lockstate \<Rightarrow> bool" where
  enter: "s_pc s h = Outside \<Longrightarrow> m = push_off (on_hart h (s_mach s)) \<Longrightarrow> \<not> holding (s_lk s) m \<Longrightarrow>
     lock_step s (s\<lparr>s_pc := (s_pc s)(h := Spinning), s_mach := m\<rparr>)"
| swap_taken: "s_pc s h = Spinning \<Longrightarrow> locked (s_lk s) \<noteq> 0 \<Longrightarrow>
     lock_step s (s\<lparr>s_lk := (s_lk s)\<lparr>locked := 1\<rparr>\<rparr>)"
| swap_free: "s_pc s h = Spinning \<Longrightarrow> locked (s_lk s) = 0 \<Longrightarrow>
     lock_step s (s\<lparr>s_lk := (s_lk s)\<lparr>locked := 1\<rparr>, s_pc := (s_pc s)(h := Swapped)\<rparr>)"
| own: "s_pc s h = Swapped \<Longrightarrow>
     lock_step s (s\<lparr>s_lk := (s_lk s)\<lparr>lcpu := Some h\<rparr>, s_pc := (s_pc s)(h := Critical)\<rparr>)"
| leave: "s_pc s h = Critical \<Longrightarrow> holding (s_lk s) (on_hart h (s_mach s)) \<Longrightarrow>
     lock_step s (s\<lparr>s_lk := (s_lk s)\<lparr>lcpu := None\<rparr>, s_pc := (s_pc s)(h := Leaving)\<rparr>)"
| unlock: "s_pc s h = Leaving \<Longrightarrow> pop_off (on_hart h (s_mach s)) = Ok m \<Longrightarrow>
     lock_step s (s\<lparr>s_lk := (s_lk s)\<lparr>locked := 0\<rparr>, s_pc := (s_pc s)(h := Outside), s_mach := m\<rparr>)"

definition lock_start :: "lockstate \<Rightarrow> bool" where
  "lock_start s \<longleftrightarrow> locked (s_lk s) = 0 \<and> lcpu (s_lk s) = None \<and> (\<forall>h. s_pc s h = Outside)
     \<and> (\<forall>h. off_inv (on_hart h (s_mach s)))"

inductive lock_reachable :: "lockstate \<Rightarrow> bool" where
  init: "lock_start s \<Longrightarrow> lock_reachable s"
| step: "lock_reachable s \<Longrightarrow> lock_step s t \<Longrightarrow> lock_reachable t"

definition inside :: "lockpc \<Rightarrow> bool" where
  "inside c \<longleftrightarrow> c = Swapped \<or> c = Critical \<or> c = Leaving"

definition hart_ok :: "machine \<Rightarrow> nat \<Rightarrow> lockpc \<Rightarrow> bool" where
  "hart_ok m h c \<longleftrightarrow> off_inv (on_hart h m) \<and> (c \<noteq> Outside \<longrightarrow> 0 < noff (cpus m h))"

definition lock_inv :: "lockstate \<Rightarrow> bool" where
  "lock_inv s \<longleftrightarrow> (\<forall>h. inside (s_pc s h) \<longrightarrow> locked (s_lk s) \<noteq> 0)
     \<and> (\<forall>h g. inside (s_pc s h) \<longrightarrow> inside (s_pc s g) \<longrightarrow> h = g)
     \<and> (\<forall>h. lcpu (s_lk s) = Some h \<longleftrightarrow> s_pc s h = Critical)
     \<and> (\<forall>h. hart_ok (s_mach s) h (s_pc s h))"

lemma on_hart_simps [simp]: "tp (on_hart h m) = h" "cpus (on_hart h m) = cpus m"
    "on_hart g (on_hart h m) = on_hart g m" "mycpu (on_hart h m) = cpus m h"
  by (simp_all add: on_hart_def mycpu_def)

lemma cpus_upd_cpu: "cpus (upd_cpu f s) = (cpus s)(tp s := f (cpus s (tp s)))"
  by (simp add: upd_cpu_def)

lemma off_inv_on_hart:
  "off_inv (on_hart h m) \<longleftrightarrow>
     0 \<le> noff (cpus m h) \<and> (0 < noff (cpus m h) \<longrightarrow> \<not> bit (sstatus (cpus m h)) 1)"
  by (simp add: off_inv_def intr_get_iff)

lemma hart_ok_push_off:
  assumes "hart_ok m g c" and "hart_ok m h Outside"
  shows "hart_ok (push_off (on_hart h m)) g (if g = h then Spinning else c)"
  using assms by (auto simp: hart_ok_def off_inv_on_hart push_off_eq cpus_upd_cpu bit_simps)

lemma pop_off_on_hart:
  assumes "hart_ok m h c" and "c \<noteq> Outside"
  obtains m' where "pop_off (on_hart h m) = Ok m'" and "off_inv m'" and "tp m' = h"
    and "\<And>g. g \<noteq> h \<Longrightarrow> cpus m' g = cpus m g"
proof (cases "noff (cpus m h) = 1")
  case True
  with assms have "\<not> intr_get (on_hart h m)"
    by (simp add: hart_ok_def off_inv_on_hart intr_get_iff)
  from that [OF pop_off_to_zero [OF this]] True show ?thesis
    by (simp add: off_inv_def cpus_upd_cpu)
next
  case False
  with assms have "\<not> intr_get (on_hart h m)" and "1 < noff (mycpu (on_hart h m))"
    by (auto simp: hart_ok_def off_inv_on_hart intr_get_iff)
  from that [OF pop_off_above_zero [OF this]] this show ?thesis
    by (simp add: off_inv_def cpus_upd_cpu intr_get_iff)
qed

lemma lock_inv_start: "lock_start s \<Longrightarrow> lock_inv s"
  by (auto simp: lock_start_def lock_inv_def inside_def hart_ok_def)

lemma lock_step_inv:
  assumes "lock_step s t" and "lock_inv s"
  shows "lock_inv t"
  using assms
proof (induction rule: lock_step.induct)
  case (enter s h m)
  then have "hart_ok (s_mach s) g (s_pc s g)" and "hart_ok (s_mach s) h Outside" for g
    unfolding lock_inv_def by metis+
  then have "hart_ok m g (if g = h then Spinning else s_pc s g)" for g
    unfolding enter.hyps(2) by (rule hart_ok_push_off)
  with enter show ?case by (auto simp: lock_inv_def inside_def split: if_splits)
next
  case (swap_taken s h)
  then show ?case by (auto simp: lock_inv_def)
next
  case (swap_free s h)
  then show ?case by (auto simp: lock_inv_def inside_def hart_ok_def)
next
  case (own s h)
  then show ?case by (auto simp: lock_inv_def inside_def hart_ok_def)
next
  case (leave s h)
  then show ?case by (auto simp: lock_inv_def inside_def hart_ok_def)
next
  case (unlock s h m)
  then have "hart_ok (s_mach s) h Leaving" unfolding lock_inv_def by metis
  then obtain m' where m': "pop_off (on_hart h (s_mach s)) = Ok m'" "off_inv m'" "tp m' = h"
    and others: "\<And>g. g \<noteq> h \<Longrightarrow> cpus m' g = cpus (s_mach s) g"
    by (rule pop_off_on_hart) auto
  with unlock.hyps(2) have "m' = m" by simp
  with m' others have "hart_ok m g (if g = h then Outside else s_pc s g)" for g
    using unlock.prems by (auto simp: lock_inv_def hart_ok_def off_inv_on_hart off_inv_def mycpu_def
        intr_get_iff)
  with unlock show ?case
    by (auto simp: lock_inv_def inside_def split: if_splits)
qed

lemma reachable_lock_inv: "lock_reachable s \<Longrightarrow> lock_inv s"
  by (induction rule: lock_reachable.induct) (auto intro: lock_inv_start lock_step_inv)

text \<open>
  C20. Mutual exclusion: in every state that harts contending for a spinlock can reach, at most one
  hart is between the successful swap of \<^verbatim>\<open>acquire\<close> and the store that frees the lock in
  \<^verbatim>\<open>release\<close>, and no hart can reach a panic of the lock code: a hart outside never holds the lock
  when it enters \<^verbatim>\<open>acquire\<close>, and the hart in the critical section can always release it.
\<close>

theorem spinlock_mutual_exclusion:
  assumes "lock_reachable s"
  shows "(\<forall>h g. inside (s_pc s h) \<longrightarrow> inside (s_pc s g) \<longrightarrow> h = g)
       \<and> (\<forall>h. s_pc s h = Outside \<longrightarrow> acquire (s_lk s) (on_hart h (s_mach s)) \<noteq> Panic ''acquire'')
       \<and> (\<forall>h. s_pc s h = Critical \<longrightarrow> returns (release (s_lk s) (on_hart h (s_mach s))))"
proof (intro conjI allI impI)
  from assms have inv: "lock_inv s" by (rule reachable_lock_inv)
  fix h
  show "h = g" if "inside (s_pc s h)" "inside (s_pc s g)" for g
    using inv that by (auto simp: lock_inv_def)
  show "acquire (s_lk s) (on_hart h (s_mach s)) \<noteq> Panic ''acquire''" if "s_pc s h = Outside"
    using inv that by (auto simp: lock_inv_def acquire_def holding_def Let_def)
  show "returns (release (s_lk s) (on_hart h (s_mach s)))" if c: "s_pc s h = Critical"
  proof -
    from inv have "hart_ok (s_mach s) h Critical"
      unfolding lock_inv_def using c by metis
    then obtain m where "pop_off (on_hart h (s_mach s)) = Ok m"
      by (rule pop_off_on_hart) auto
    moreover have "holding (s_lk s) (on_hart h (s_mach s))"
      using inv c by (auto simp: lock_inv_def holding_def inside_def)
    ultimately show ?thesis by (simp add: release_def)
  qed
qed

definition lock_idle :: lockstate where
  "lock_idle = \<lparr>s_lk = \<lparr>locked = 0, lname = ''proc'', lcpu = None\<rparr>, s_pc = (\<lambda>_. Outside),
     s_mach = \<lparr>tp = 0, cpus = (\<lambda>_. cpu0)\<rparr>\<rparr>"

definition lock_example :: lockstate where
  "lock_example = \<lparr>s_lk = \<lparr>locked = 1, lname = ''proc'', lcpu = Some 1\<rparr>,
     s_pc = (\<lambda>_. Outside)(1 := Critical), s_mach = push_off (on_hart 1 (s_mach lock_idle))\<rparr>"

lemma lock_idle_reachable: "lock_reachable lock_idle"
  by (rule lock_reachable.init)
     (simp add: lock_start_def lock_idle_def off_inv_def mycpu_def cpu0_def on_hart_def)

lemma lock_example_reachable: "lock_reachable lock_example"
proof -
  let ?m = "push_off (on_hart 1 (s_mach lock_idle))"
  let ?s1 = "lock_idle\<lparr>s_pc := (s_pc lock_idle)(1 := Spinning), s_mach := ?m\<rparr>"
  let ?s2 = "?s1\<lparr>s_lk := (s_lk ?s1)\<lparr>locked := 1\<rparr>, s_pc := (s_pc ?s1)(1 := Swapped)\<rparr>"
  let ?s3 = "?s2\<lparr>s_lk := (s_lk ?s2)\<lparr>lcpu := Some 1\<rparr>, s_pc := (s_pc ?s2)(1 := Critical)\<rparr>"
  have "lock_step lock_idle ?s1"
    by (rule lock_step.enter [OF _ refl]) (simp_all add: lock_idle_def holding_def)
  then have "lock_reachable ?s1" by (rule lock_reachable.step [OF lock_idle_reachable])
  moreover have "lock_step ?s1 ?s2" by (rule lock_step.swap_free) (simp_all add: lock_idle_def)
  ultimately have "lock_reachable ?s2" by (rule lock_reachable.step)
  moreover have "lock_step ?s2 ?s3" by (rule lock_step.own) simp
  ultimately have "lock_reachable ?s3" by (rule lock_reachable.step)
  moreover have "?s3 = lock_example" by (simp add: lock_example_def lock_idle_def)
  ultimately show ?thesis by simp
qed

theorem spinlock_mutual_exclusion_witness:
  "s_pc lock_example 1 = Critical
   \<and> returns (release (s_lk lock_example) (on_hart 1 (s_mach lock_example)))
   \<and> acquire (s_lk lock_example) (on_hart 0 (s_mach lock_example)) \<noteq> Panic ''acquire''"
proof -
  have "s_pc lock_example 1 = Critical" "s_pc lock_example 0 = Outside"
    by (simp_all add: lock_example_def)
  with spinlock_mutual_exclusion [OF lock_example_reachable] show ?thesis by blast
qed

end
