(* ===== verification/KString.thy ===== *)
theory KString
  imports Riscv
begin

text \<open>
  Byte-addressed memory with 64-bit little-endian loads and stores, and \<^verbatim>\<open>kernel/string.c\<close> on it.
  The memory functions \<^verbatim>\<open>memset\<close>, \<^verbatim>\<open>memcmp\<close>, \<^verbatim>\<open>memmove\<close> and \<^verbatim>\<open>memcpy\<close> are the loops of the source over
  the memory; the string functions work on the bytes from a pointer to the end of its object, and
  reading past that end is undefined.

  The lemmas give each loop its closed form; \<open>memmove_correct\<close> says that \<^verbatim>\<open>memmove\<close> copies correctly
  also when the two ranges overlap.
\<close>

type_synonym memory = "uint64 \<Rightarrow> uchar"

subsection \<open>64-bit loads and stores\<close>

definition load64 :: "memory \<Rightarrow> uint64 \<Rightarrow> uint64" where
  "load64 m a = foldr (\<lambda>i v. push_bit 8 v OR ucast (m (a + of_nat i))) [0..<8] 0"

definition store64 :: "uint64 \<Rightarrow> uint64 \<Rightarrow> memory \<Rightarrow> memory" where
  "store64 a v m = (\<lambda>x. let d = unat (x - a) in if d < 8 then ucast (drop_bit (8 * d) v) else m x)"

subsection \<open>kernel/string.c: memory\<close>

definition memset :: "uint64 \<Rightarrow> uchar \<Rightarrow> nat \<Rightarrow> memory \<Rightarrow> memory" where
  "memset dst c n m = fold (\<lambda>i m. m(dst + of_nat i := c)) [0..<n] m"

fun memcmp :: "uint64 \<Rightarrow> uint64 \<Rightarrow> nat \<Rightarrow> memory \<Rightarrow> int" where
  "memcmp s1 s2 0 m = 0"
| "memcmp s1 s2 (Suc n) m =
     (if m s1 \<noteq> m s2 then uint (m s1) - uint (m s2) else memcmp (s1 + 1) (s2 + 1) n m)"

fun move_up :: "uint64 \<Rightarrow> uint64 \<Rightarrow> nat \<Rightarrow> memory \<Rightarrow> memory" where
  "move_up d s 0 m = m"
| "move_up d s (Suc n) m = move_up (d + 1) (s + 1) n (m(d := m s))"

fun move_down :: "uint64 \<Rightarrow> uint64 \<Rightarrow> nat \<Rightarrow> memory \<Rightarrow> memory" where
  "move_down d s 0 m = m"
| "move_down d s (Suc n) m = move_down (d - 1) (s - 1) n (m(d - 1 := m (s - 1)))"

definition memmove :: "uint64 \<Rightarrow> uint64 \<Rightarrow> nat \<Rightarrow> memory \<Rightarrow> memory" where
  "memmove d s n m =
     (if s < d \<and> s + of_nat n > d then move_down (d + of_nat n) (s + of_nat n) n m
      else move_up d s n m)"

definition memcpy :: "uint64 \<Rightarrow> uint64 \<Rightarrow> nat \<Rightarrow> memory \<Rightarrow> memory" where
  "memcpy d s n m = memmove d s n m"

subsection \<open>kernel/string.c: strings\<close>

fun strncmp :: "uchar list \<Rightarrow> uchar list \<Rightarrow> nat \<Rightarrow> int result" where
  "strncmp p q 0 = Ok 0"
| "strncmp (x # p) (y # q) (Suc n) =
     (if x \<noteq> 0 \<and> x = y then strncmp p q n else Ok (uint x - uint y))"
| "strncmp _ _ (Suc n) = Undef ''strncmp: out of bounds''"

text \<open>The bytes that \<^verbatim>\<open>strncpy\<close> stores at \<^verbatim>\<open>s[0]\<close> onwards.\<close>

fun strncpy :: "uchar list \<Rightarrow> nat \<Rightarrow> uchar list result" where
  "strncpy t 0 = Ok []"
| "strncpy (x # t) (Suc n) =
     (if x \<noteq> 0 then bindR (strncpy t n) (\<lambda>r. Ok (x # r)) else Ok (x # replicate n 0))"
| "strncpy [] (Suc n) = Undef ''strncpy: out of bounds''"

fun safestrcpy_loop :: "uchar list \<Rightarrow> nat \<Rightarrow> uchar list result" where
  "safestrcpy_loop t 0 = Ok [0]"
| "safestrcpy_loop (x # t) (Suc n) =
     (if x \<noteq> 0 then bindR (safestrcpy_loop t n) (\<lambda>r. Ok (x # r)) else Ok [x, 0])"
| "safestrcpy_loop [] (Suc n) = Undef ''safestrcpy: out of bounds''"

definition safestrcpy :: "uchar list \<Rightarrow> int \<Rightarrow> uchar list result" where
  "safestrcpy t n = (if n \<le> 0 then Ok [] else safestrcpy_loop t (nat (n - 1)))"

fun strlen :: "uchar list \<Rightarrow> nat result" where
  "strlen [] = Undef ''strlen: out of bounds''"
| "strlen (x # s) = (if x = 0 then Ok 0 else bindR (strlen s) (\<lambda>n. Ok (Suc n)))"

subsection \<open>Closed forms of the memory loops\<close>

lemma unat_of_nat64: "n < 2 ^ 64 \<Longrightarrow> unat (of_nat n :: uint64) = n"
  by (simp add: unat_of_nat)

lemma addr_eq_iff: "n < 2 ^ 64 \<Longrightarrow> a = d + of_nat n \<longleftrightarrow> unat (a - d) = n" for a d :: uint64
proof -
  assume "n < 2 ^ 64"
  moreover have "a = d + of_nat n \<longleftrightarrow> a - d = of_nat n" by (auto simp: algebra_simps)
  ultimately show ?thesis by (simp add: word_unat_eq_iff [of "a - d"] unat_of_nat64)
qed

lemma memset_apply:
  assumes "n \<le> 2 ^ 64"
  shows "memset dst c n m a = (if unat (a - dst) < n then c else m a)"
  using assms
proof (induction n)
  case 0
  then show ?case by (simp add: memset_def)
next
  case (Suc n)
  then have "memset dst c (Suc n) m a = (if a = dst + of_nat n then c else memset dst c n m a)"
    by (simp add: memset_def)
  with Suc show ?case by (auto simp: addr_eq_iff less_Suc_eq)
qed

lemma move_up_apply:
  assumes "n < 2 ^ 64" and "\<And>k. 1 \<le> k \<Longrightarrow> k < n \<Longrightarrow> d \<noteq> s + of_nat k"
  shows "move_up d s n m a = (if unat (a - d) < n then m (s + (a - d)) else m a)"
  using assms
proof (induction n arbitrary: d s m)
  case 0
  then show ?case by simp
next
  case (Suc n)
  let ?m = "m(d := m s)"
  have ih: "move_up (d + 1) (s + 1) n ?m a
      = (if unat (a - (d + 1)) < n then ?m (s + 1 + (a - (d + 1))) else ?m a)"
    using Suc.prems by (intro Suc.IH) auto
  show ?case
  proof (cases "a = d")
    case True
    have "unat (- 1 :: uint64) = 2 ^ 64 - 1"
      by (simp add: unsigned_minus_1_eq_mask mask_eq_exp_minus_1)
    with True ih Suc.prems(1) show ?thesis by simp
  next
    case False
    have u: "unat (a - (d + 1)) = unat (a - d) - 1"
    proof -
      from False have "a - d \<noteq> 0" by simp
      then have "unat (a - d - 1) = unat (a - d) - 1" by (simp add: unat_minus_one)
      then show ?thesis by (simp add: algebra_simps)
    qed
    have pos: "0 < unat (a - d)" using False by (simp add: unat_gt_0)
    have "s + (a - d) \<noteq> d" if lt: "unat (a - d) < Suc n"
    proof
      assume "s + (a - d) = d"
      then have "d = s + of_nat (unat (a - d))" by simp
      with Suc.prems(2) [of "unat (a - d)"] pos lt show False by simp
    qed
    moreover have "s + 1 + (a - (d + 1)) = s + (a - d)" by simp
    ultimately show ?thesis using ih u pos False by auto
  qed
qed

lemma move_down_apply:
  assumes "n < 2 ^ 64" and "\<And>k. 1 \<le> k \<Longrightarrow> k < n \<Longrightarrow> s \<noteq> d + of_nat k"
  shows "move_down (d + of_nat n) (s + of_nat n) n m a
       = (if unat (a - d) < n then m (s + (a - d)) else m a)"
  using assms
proof (induction n arbitrary: m)
  case 0
  then show ?case by simp
next
  case (Suc n)
  let ?m = "m(d + of_nat n := m (s + of_nat n))"
  have "move_down (d + of_nat (Suc n)) (s + of_nat (Suc n)) (Suc n) m a
      = move_down (d + of_nat n) (s + of_nat n) n ?m a"
    by (simp add: algebra_simps)
  also have "\<dots> = (if unat (a - d) < n then ?m (s + (a - d)) else ?m a)"
    using Suc.prems by (intro Suc.IH) auto
  also have "\<dots> = (if unat (a - d) < Suc n then m (s + (a - d)) else m a)"
  proof (cases "unat (a - d) < n")
    case True
    have "s + (a - d) \<noteq> d + of_nat n"
    proof
      assume "s + (a - d) = d + of_nat n"
      then have "s = d + of_nat n - of_nat (unat (a - d))" by (simp add: algebra_simps)
      also have "\<dots> = d + of_nat (n - unat (a - d))" using True by (simp add: of_nat_diff)
      finally have "s = d + of_nat (n - unat (a - d))" .
      moreover have "s \<noteq> d + of_nat (n - unat (a - d))"
        using True by (intro Suc.prems(2)) auto
      ultimately show False by contradiction
    qed
    with True show ?thesis by simp
  next
    case False
    then show ?thesis using Suc.prems(1) addr_eq_iff [of n a d] by (auto simp: less_Suc_eq)
  qed
  finally show ?case .
qed

text \<open>
  C37. \<^verbatim>\<open>memmove\<close> copies correctly whether or not the ranges overlap: after it every destination byte is
  the source byte as it was before the call, and no other byte of memory changes. The only requirement
  is that neither range runs over the end of the address space.
\<close>

theorem memmove_correct:
  assumes "unat src + n < 2 ^ 64" and "unat dst + n < 2 ^ 64"
  shows "memmove dst src n m a = (if unat (a - dst) < n then m (src + (a - dst)) else m a)"
proof -
  have n: "n < 2 ^ 64" using assms by simp
  have plus: "unat (x + of_nat k) = unat x + k" if "unat x + n < 2 ^ 64" "k \<le> n" for x :: uint64 and k
    using that by (simp add: unat_word_ariths unat_of_nat)
  show ?thesis
  proof (cases "src < dst \<and> src + of_nat n > dst")
    case True
    have "src \<noteq> dst + of_nat k" if "1 \<le> k" "k < n" for k
      using True plus [OF assms(2), of k] that by (auto simp: word_less_nat_alt)
    with True n show ?thesis by (simp add: memmove_def move_down_apply)
  next
    case False
    have "dst \<noteq> src + of_nat k" if "1 \<le> k" "k < n" for k
      using False plus [OF assms(1), of k] plus [OF assms(1), of n] that
      by (auto simp: word_less_nat_alt)
    with n show ?thesis unfolding memmove_def if_not_P [OF False] by (rule move_up_apply)
  qed
qed

theorem memmove_correct_witness:
  "memmove 0x1001 0x1000 3 (\<lambda>a. ucast a) 0x1003 =
     (if unat ((0x1003 :: uint64) - 0x1001) < 3 then ucast (0x1000 + ((0x1003 :: uint64) - 0x1001))
      else ucast (0x1003 :: uint64))"
  by (rule memmove_correct) simp_all

subsection \<open>Loads after stores\<close>

lemma bit_load_from:
  fixes m :: memory
  assumes "k \<le> 8"
  shows "bit (foldr (\<lambda>i v. push_bit 8 v OR ucast (m (a + of_nat i))) [k..<8] (0 :: uint64)) n
     \<longleftrightarrow> k + n div 8 < 8 \<and> bit (m (a + of_nat (k + n div 8))) (n mod 8)"
  using assms
proof (induction k arbitrary: n rule: inc_induct)
  case base
  then show ?case by simp
next
  case (step k)
  let ?L = "foldr (\<lambda>i v. push_bit 8 v OR ucast (m (a + of_nat i))) [Suc k..<8] (0 :: uint64)"
  have "foldr (\<lambda>i v. push_bit 8 v OR ucast (m (a + of_nat i))) [k..<8] (0 :: uint64)
      = push_bit 8 ?L OR ucast (m (a + of_nat k))"
    using step.hyps by (simp add: upt_conv_Cons)
  moreover have "bit (push_bit 8 ?L OR ucast (m (a + of_nat k))) n
      \<longleftrightarrow> k + n div 8 < 8 \<and> bit (m (a + of_nat (k + n div 8))) (n mod 8)"
  proof (cases "n < 8")
    case True
    then show ?thesis using step.hyps by (auto simp: bit_simps)
  next
    case False
    then obtain j where j: "n = j + 8" by (metis add.commute le_add_diff_inverse not_less)
    have jd: "(j + 8) div 8 = Suc (j div 8)" by simp
    have "\<not> bit (ucast (m (a + of_nat k)) :: uint64) n"
      using False by (auto simp: bit_simps dest: bit_imp_le_length)
    then show ?thesis
      using step.IH [of j] step.hyps j
      by (auto simp: bit_simps jd simp del: of_nat_add of_nat_Suc)
  qed
  ultimately show ?case by simp
qed

lemma bit_load64:
  "bit (load64 m a) n \<longleftrightarrow> n < 64 \<and> bit (m (a + of_nat (n div 8))) (n mod 8)"
  unfolding load64_def by (subst bit_load_from) auto

lemma load64_cong: "(\<And>i. i < 8 \<Longrightarrow> m (a + of_nat i) = m' (a + of_nat i)) \<Longrightarrow> load64 m a = load64 m' a"
  by (rule bit_eqI) (simp add: bit_load64)

lemma load64_store64 [simp]: "load64 (store64 a v m) a = v"
proof (rule bit_eqI)
  fix n
  assume "possible_bit TYPE(64 word) n"
  then have n: "n < 64" by simp
  have d: "unat (of_nat (n div 8) :: uint64) = n div 8" using n by (simp add: unat_of_nat)
  show "bit (load64 (store64 a v m) a) n = bit v n"
    using n less_mult_imp_div_less [of n 8 8]
    by (simp add: bit_load64 store64_def d Let_def bit_simps)
qed

lemma load64_store64_other:
  assumes "8 \<le> unat (b - a)" and "unat (b - a) \<le> 2 ^ 64 - 8"
  shows "load64 (store64 a v m) b = load64 m b"
proof (rule load64_cong)
  fix i :: nat
  assume i: "i < 8"
  have "unat (b + of_nat i - a) = unat (b - a) + i"
  proof -
    have "unat (d + of_nat i) = unat d + i" if "unat d \<le> 2 ^ 64 - 8" for d :: uint64
      using that i by (simp add: unat_word_ariths unat_of_nat)
    from this [of "b - a"] assms(2) show ?thesis by (simp add: algebra_simps)
  qed
  then show "store64 a v m (b + of_nat i) = m (b + of_nat i)"
    using assms by (simp add: store64_def Let_def)
qed

subsection \<open>Bounded string copies\<close>

text \<open>The C string at the start of a byte list.\<close>

abbreviation cstr :: "uchar list \<Rightarrow> uchar list" where
  "cstr bs \<equiv> takeWhile (\<lambda>x. x \<noteq> 0) bs"

lemma strncpy_Ok: "strncpy t n = Ok r \<Longrightarrow> length r = n \<and> cstr r = take n (cstr t)"
  by (induction t n arbitrary: r rule: strncpy.induct) (auto split: if_splits)

lemma strncpy_returns: "0 \<in> set t \<or> n \<le> length t \<Longrightarrow> returns (strncpy t n)"
  by (induction t n rule: strncpy.induct) (auto simp: returns_iff)

lemma safestrcpy_loop_Ok:
  "safestrcpy_loop t n = Ok r \<Longrightarrow> length r \<le> Suc n \<and> 0 \<in> set r \<and> cstr r = take n (cstr t)"
  by (induction t n arbitrary: r rule: safestrcpy_loop.induct) (auto split: if_splits)

lemma safestrcpy_loop_returns: "0 \<in> set t \<or> n \<le> length t \<Longrightarrow> returns (safestrcpy_loop t n)"
  by (induction t n rule: safestrcpy_loop.induct) (auto simp: returns_iff)

lemma strlen_Ok: "strlen s = Ok n \<longleftrightarrow> 0 \<in> set s \<and> n = length (cstr s)"
  by (induction s arbitrary: n) (auto simp: bindR_Ok_iff)

lemma uint_inj: "uint x = uint y \<longleftrightarrow> x = y" for x y :: uchar
  by (auto simp: word_uint_eq_iff)

lemma uint_zero: "uint x = 0 \<longleftrightarrow> x = 0" for x :: uchar
  using uint_inj [of x 0] by simp

lemma strncmp_eq_0:
  "strncmp p q n = Ok r \<Longrightarrow> r = 0 \<longleftrightarrow> take n (cstr p) = take n (cstr q)"
  by (induction p q n arbitrary: r rule: strncmp.induct)
     (auto simp: uint_inj uint_zero split: if_splits)

text \<open>
  C38. \<^verbatim>\<open>safestrcpy\<close> is a bounded copy that terminates its result: given a C string and a positive size
  it returns, it stores at most that many bytes, a NUL is among them, and the string it leaves is the
  source string cut to one byte less than the size.
\<close>

theorem safestrcpy_bounded:
  assumes "0 \<in> set t" and "0 < n"
  shows "\<exists>r. safestrcpy t n = Ok r \<and> int (length r) \<le> n \<and> 0 \<in> set r
           \<and> cstr r = take (nat n - 1) (cstr t)"
proof -
  from assms(1) obtain r where r: "safestrcpy_loop t (nat (n - 1)) = Ok r"
    using safestrcpy_loop_returns [of t "nat (n - 1)"] by (auto simp: returns_iff)
  with safestrcpy_loop_Ok [OF r] assms(2) show ?thesis
    by (auto simp: safestrcpy_def nat_diff_distrib)
qed

theorem safestrcpy_bounded_witness:
  "\<exists>r. safestrcpy [104, 105, 0] 16 = Ok r \<and> int (length r) \<le> 16 \<and> 0 \<in> set r
     \<and> cstr r = take (nat 16 - 1) (cstr [104, 105, 0])"
  by (rule safestrcpy_bounded) simp_all

end
