(* ===== verification/Kalloc.thy ===== *)
theory Kalloc
  imports Spinlock KString
begin

text \<open>
  \<^verbatim>\<open>kernel/kalloc.c\<close>: the physical page allocator. The free list is threaded through the free pages
  themselves: \<^verbatim>\<open>struct run\<close> is the first eight bytes of a free page and holds the address of the next
  one. The model keeps it there, in the byte memory, and \<open>flist\<close> relates the chain of addresses to
  the list of free pages.

  The interface other components use is the locale \<open>page_allocator\<close>: a page that is handed out was
  free and is free no longer, a freed page is handed out next, and memory outside the page is not
  touched. It is interpreted on \<open>kalloc\<close> and \<open>kfree\<close>.

  The critical sections under \<^verbatim>\<open>kmem.lock\<close> contain no other lock operation; each is one step here.
\<close>

subsection \<open>State and operations\<close>

record kmem = machine +
  mem :: memory
  freelist :: uint64   \<comment> \<open>\<^verbatim>\<open>kmem.freelist\<close>, 0 when it is empty\<close>
  kend :: uint64       \<comment> \<open>the linker's symbol \<^verbatim>\<open>end\<close>, the first address after the kernel\<close>

definition kfree :: "uint64 \<Rightarrow> 'a kmem_scheme \<Rightarrow> 'a kmem_scheme result" where
  "kfree pa s =
     (if unat pa mod 4096 \<noteq> 0 \<or> pa < kend s \<or> PHYSTOP \<le> pa then Panic ''kfree''
      else let m = memset pa 1 4096 (mem s)
           in Ok (s\<lparr>mem := store64 pa (freelist s) m, freelist := pa\<rparr>))"

definition kalloc :: "'a kmem_scheme \<Rightarrow> uint64 \<times> 'a kmem_scheme" where
  "kalloc s =
     (let r = freelist s;
          s = (if r \<noteq> 0 then s\<lparr>freelist := load64 (mem s) r\<rparr> else s);
          s = (if r \<noteq> 0 then s\<lparr>mem := memset r 5 4096 (mem s)\<rparr> else s)
      in (r, s))"

lemma kfree_Ok_below: "kfree p s = Ok t \<Longrightarrow> p < PHYSTOP"
  by (auto simp: kfree_def split: if_splits)

function free_pages :: "uint64 \<Rightarrow> uint64 \<Rightarrow> 'a kmem_scheme \<Rightarrow> 'a kmem_scheme result" where
  "free_pages p pa_end s =
     (if p + PGSIZE \<le> pa_end then bindR (kfree p s) (free_pages (p + PGSIZE) pa_end) else Ok s)"
  by pat_completeness auto
termination
proof (relation "measure (\<lambda>(p, pa_end, s). 2 ^ 64 - unat p)", simp)
  fix p pa_end :: uint64 and s t :: "'a kmem_scheme"
  assume "kfree p s = Ok t"
  then have "unat p < unat PHYSTOP" by (simp add: kfree_Ok_below flip: word_less_nat_alt)
  then have "unat (p + PGSIZE) = unat p + 4096"
    by (simp add: unat_word_ariths PGSIZE_def PHYSTOP_def KERNBASE_def)
  then show "((p + PGSIZE, pa_end, t), (p, pa_end, s)) \<in> measure (\<lambda>(p, pa_end, s). 2 ^ 64 - unat p)"
    using unat_less64 [of p] by simp
qed

declare free_pages.simps [simp del]

definition freerange :: "uint64 \<Rightarrow> uint64 \<Rightarrow> 'a kmem_scheme \<Rightarrow> 'a kmem_scheme result" where
  "freerange pa_start pa_end s = free_pages (PGROUNDUP pa_start) pa_end s"

definition kinit :: "'a kmem_scheme \<Rightarrow> 'a kmem_scheme result" where
  "kinit s = freerange (kend s) PHYSTOP s"

subsection \<open>Pages\<close>

definition page_ok :: "'a kmem_scheme \<Rightarrow> uint64 \<Rightarrow> bool" where
  "page_ok s pa \<longleftrightarrow> unat pa mod 4096 = 0 \<and> kend s \<le> pa \<and> pa < PHYSTOP"

definition in_page :: "uint64 \<Rightarrow> uint64 \<Rightarrow> bool" where
  "in_page pa a \<longleftrightarrow> unat (a - pa) < 4096"

lemma page_nowrap:
  fixes z :: uint64
  assumes "unat z mod 4096 = 0" and "k < 4096"
  shows "unat (z + of_nat k) = unat z + k"
proof -
  from assms(1) obtain q where q: "unat z = 4096 * q" by (auto elim!: dvdE)
  with unat_less64 [of z] have "q < 2 ^ 52" by simp
  with q assms(2) show ?thesis by (simp add: unat_word_ariths unat_of_nat)
qed

lemma in_page_offset: "in_page pa a \<Longrightarrow> \<exists>k<4096. a = pa + of_nat k"
  unfolding in_page_def by (intro exI [of _ "unat (a - pa)"]) simp

lemma pages_disjoint:
  assumes "unat x mod 4096 = 0" and "unat y mod 4096 = 0" and "in_page x a" and "in_page y a"
  shows "x = y"
proof -
  obtain i j where i: "i < 4096" "a = x + of_nat i" and j: "j < 4096" "a = y + of_nat j"
    using assms(3,4) in_page_offset by blast
  from assms(1,2) obtain p q where pq: "unat x = 4096 * p" "unat y = 4096 * q" 
    by (auto elim!: dvdE)
  have "unat x + i = unat y + j"
    using page_nowrap [OF assms(1) i(1)] page_nowrap [OF assms(2) j(1)] i(2) j(2) by simp
  then have "(4096 * p + i) div 4096 = (4096 * q + j) div 4096" using pq by simp
  then have "p = q" using i(1) j(1) by simp
  with pq show ?thesis by (simp add: word_unat_eq_iff)
qed

lemma load64_page:
  assumes "unat x mod 4096 = 0" and "unat y mod 4096 = 0" and "x \<noteq> y"
    and "\<And>a. \<not> in_page x a \<Longrightarrow> m' a = m a"
  shows "load64 m' y = load64 m y"
proof (rule load64_cong)
  fix i :: nat
  assume "i < 8"
  then have "in_page y (y + of_nat i)" by (simp add: in_page_def unat_of_nat)
  with assms(3) have "\<not> in_page x (y + of_nat i)"
    using pages_disjoint [OF assms(1,2)] by metis
  then show "m' (y + of_nat i) = m (y + of_nat i)" by (rule assms(4))
qed

lemma memset_page: "memset pa c 4096 m a = (if in_page pa a then c else m a)"
  by (simp add: memset_apply in_page_def)

lemma store64_page: "\<not> in_page pa a \<Longrightarrow> store64 pa v m a = m a"
  by (auto simp: store64_def in_page_def Let_def)

subsection \<open>The free list\<close>

fun flist :: "memory \<Rightarrow> uint64 \<Rightarrow> uint64 list \<Rightarrow> bool" where
  "flist m p [] \<longleftrightarrow> p = 0"
| "flist m p (x # xs) \<longleftrightarrow> p = x \<and> x \<noteq> 0 \<and> flist m (load64 m x) xs"

lemma flist_unique: "flist m p xs \<Longrightarrow> flist m p ys \<Longrightarrow> xs = ys"
proof (induction xs arbitrary: p ys)
  case Nil
  then show ?case by (cases ys) auto
next
  case (Cons x xs)
  then show ?case by (cases ys) auto
qed

lemma flist_cong: "(\<And>x. x \<in> set xs \<Longrightarrow> load64 m' x = load64 m x) \<Longrightarrow> flist m' p xs = flist m p xs"
  by (induction xs arbitrary: p) auto

definition kmem_inv :: "'a kmem_scheme \<Rightarrow> uint64 list \<Rightarrow> bool" where
  "kmem_inv s xs \<longleftrightarrow> 0 < kend s \<and> flist (mem s) (freelist s) xs \<and> distinct xs
     \<and> (\<forall>x\<in>set xs. page_ok s x)"

lemma kmem_inv_unique: "kmem_inv s xs \<Longrightarrow> kmem_inv s ys \<Longrightarrow> xs = ys"
  by (auto simp: kmem_inv_def dest: flist_unique)

lemma page_ok_cong [simp]:
  "page_ok (s\<lparr>mem := m\<rparr>) = page_ok s" "page_ok (s\<lparr>freelist := f\<rparr>) = page_ok s"
  by (auto simp: page_ok_def fun_eq_iff)

lemma kalloc_empty: "kmem_inv s [] \<Longrightarrow> kalloc s = (0, s)"
  by (simp add: kmem_inv_def kalloc_def Let_def)

lemma kalloc_page:
  assumes "kmem_inv s (x # xs)"
  shows "kalloc s = (x, s\<lparr>freelist := load64 (mem s) x, mem := memset x 5 4096 (mem s)\<rparr>)"
    and "kmem_inv (snd (kalloc s)) xs"
proof -
  from assms have x: "freelist s = x" "x \<noteq> 0" "flist (mem s) (load64 (mem s) x) xs" "x \<notin> set xs"
    "page_ok s x" "\<And>y. y \<in> set xs \<Longrightarrow> page_ok s y"
    by (auto simp: kmem_inv_def)
  show k: "kalloc s = (x, s\<lparr>freelist := load64 (mem s) x, mem := memset x 5 4096 (mem s)\<rparr>)"
    using x(1,2) by (simp add: kalloc_def Let_def)
  have "load64 (memset x 5 4096 (mem s)) y = load64 (mem s) y" if "y \<in> set xs" for y
    using x(4-6) that by (intro load64_page [of x]) (auto simp: page_ok_def memset_page)
  then have "flist (memset x 5 4096 (mem s)) (load64 (mem s) x) xs"
    using x(3) flist_cong by blast
  then show "kmem_inv (snd (kalloc s)) xs"
    using assms k by (auto simp: kmem_inv_def page_ok_def)
qed

lemma kfree_page:
  assumes "kmem_inv s xs" and "page_ok s pa" and "pa \<notin> set xs"
  shows "\<exists>t. kfree pa s = Ok t \<and> kmem_inv t (pa # xs) \<and> kend t = kend s
           \<and> (\<forall>a. \<not> in_page pa a \<longrightarrow> mem t a = mem s a)"
proof -
  let ?m = "store64 pa (freelist s) (memset pa 1 4096 (mem s))"
  let ?t = "s\<lparr>mem := ?m, freelist := pa\<rparr>"
  have k: "kfree pa s = Ok ?t"
    using assms(2) by (auto simp: kfree_def page_ok_def not_le not_less Let_def)
  have out: "?m a = mem s a" if "\<not> in_page pa a" for a
    using that by (simp add: store64_page memset_page)
  have "load64 ?m y = load64 (mem s) y" if "y \<in> set xs" for y
    using assms that by (intro load64_page [of pa]) (auto simp: kmem_inv_def page_ok_def out)
  then have "flist ?m (freelist s) xs"
    using assms(1) flist_cong unfolding kmem_inv_def by blast
  moreover have "pa \<noteq> 0" using assms(1,2) by (auto simp: kmem_inv_def page_ok_def)
  ultimately have "kmem_inv ?t (pa # xs)"
    using assms by (auto simp: kmem_inv_def page_ok_def)
  with k out show ?thesis by auto
qed

subsection \<open>The interface of the allocator\<close>

locale page_allocator =
  fixes alloc :: "'s \<Rightarrow> uint64 \<times> 's"
    and free :: "uint64 \<Rightarrow> 's \<Rightarrow> 's result"
    and pages :: "'s \<Rightarrow> uint64 list \<Rightarrow> bool"
    and valid :: "'s \<Rightarrow> uint64 \<Rightarrow> bool"
    and bytes :: "'s \<Rightarrow> memory"
  assumes alloc_empty: "pages s [] \<Longrightarrow> alloc s = (0, s)"
    and alloc_page: "pages s (x # xs) \<Longrightarrow> \<exists>t. alloc s = (x, t) \<and> pages t xs \<and> valid t = valid s
          \<and> (\<forall>a. \<not> in_page x a \<longrightarrow> bytes t a = bytes s a)"
    and free_page: "pages s xs \<Longrightarrow> valid s pa \<Longrightarrow> pa \<notin> set xs \<Longrightarrow>
          \<exists>t. free pa s = Ok t \<and> pages t (pa # xs) \<and> valid t = valid s
            \<and> (\<forall>a. \<not> in_page pa a \<longrightarrow> bytes t a = bytes s a)"
    and free_invalid: "\<not> valid s pa \<Longrightarrow> \<not> returns (free pa s)"
    and pages_valid: "pages s xs \<Longrightarrow> distinct xs \<and> 0 \<notin> set xs \<and> (\<forall>x\<in>set xs. valid s x)"
begin

primrec alloc_many :: "nat \<Rightarrow> 's \<Rightarrow> uint64 list \<times> 's" where
  "alloc_many 0 s = ([], s)"
| "alloc_many (Suc n) s = (let (p, s) = alloc s; (ps, s) = alloc_many n s in (p # ps, s))"

lemma alloc_many_pages:
  "pages s xs \<Longrightarrow> n \<le> length xs \<Longrightarrow>
     \<exists>t. alloc_many n s = (take n xs, t) \<and> pages t (drop n xs) \<and> valid t = valid s"
proof (induction n arbitrary: s xs)
  case 0
  then show ?case by simp
next
  case (Suc n)
  then obtain x ys where xs: "xs = x # ys" by (cases xs) auto
  with Suc.prems alloc_page [of s x ys] obtain u where u: "alloc s = (x, u)" "pages u ys" "valid u = valid s"
    by auto
  from Suc.IH [OF u(2)] Suc.prems xs obtain t where
    "alloc_many n u = (take n ys, t)" "pages t (drop n ys)" "valid t = valid u"
    by auto
  with u xs show ?case by simp
qed

lemma alloc_many_distinct:
  assumes "pages s xs" and "n \<le> length xs"
  shows "distinct (fst (alloc_many n s)) \<and> 0 \<notin> set (fst (alloc_many n s))
       \<and> (\<forall>p \<in> set (fst (alloc_many n s)). valid s p)"
  using alloc_many_pages [OF assms] pages_valid [OF assms(1)]
  by (auto dest: in_set_takeD) (meson in_set_takeD)

lemma free_then_alloc:
  assumes "pages s xs" and "valid s pa" and "pa \<notin> set xs"
  shows "\<exists>t u. free pa s = Ok t \<and> alloc t = (pa, u) \<and> pages u xs"
  using free_page [OF assms] alloc_page by blast

end

interpretation km: page_allocator kalloc kfree kmem_inv page_ok mem
proof
  fix s :: "'a kmem_scheme" and x pa xs
  show "kmem_inv s [] \<Longrightarrow> kalloc s = (0, s)" by (rule kalloc_empty)
  show "\<exists>t. kalloc s = (x, t) \<and> kmem_inv t xs \<and> page_ok t = page_ok s
          \<and> (\<forall>a. \<not> in_page x a \<longrightarrow> mem t a = mem s a)" if "kmem_inv s (x # xs)"
    using kalloc_page [OF that] by (simp add: memset_page)
  show "\<exists>t. kfree pa s = Ok t \<and> kmem_inv t (pa # xs) \<and> page_ok t = page_ok s
          \<and> (\<forall>a. \<not> in_page pa a \<longrightarrow> mem t a = mem s a)"
    if "kmem_inv s xs" "page_ok s pa" "pa \<notin> set xs"
    using kfree_page [OF that] by (force simp: page_ok_def fun_eq_iff)
  show "\<not> returns (kfree pa s)" if "\<not> page_ok s pa"
    using that by (auto simp: page_ok_def kfree_def not_le not_less)
  show "distinct xs \<and> 0 \<notin> set xs \<and> (\<forall>x\<in>set xs. page_ok s x)" if "kmem_inv s xs"
    using that by (auto simp: kmem_inv_def page_ok_def)
qed

subsection \<open>Booting the allocator\<close>

lemma unat_PHYSTOP: "unat PHYSTOP = 0x88000000"
  by (simp add: PHYSTOP_def KERNBASE_def)

lemma free_pages_all:
  assumes "kmem_inv s xs" and "unat p mod 4096 = 0" and "kend s \<le> p" and "p \<le> PHYSTOP"
    and "\<And>x. x \<in> set xs \<Longrightarrow> x < p"
  shows "\<exists>t ys. free_pages p PHYSTOP s = Ok t \<and> kmem_inv t ys
           \<and> set ys = set xs \<union> {q. page_ok s q \<and> p \<le> q}"
  using assms
proof (induction p PHYSTOP s arbitrary: xs rule: free_pages.induct)
  case (1 p s)
  from "1.prems"(2) obtain k where k: "unat p = 4096 * k" by (auto elim!: dvdE)
  have le: "4096 * k \<le> 0x88000000" using "1.prems"(4) k by (simp add: word_le_nat_alt unat_PHYSTOP)
  have next_p: "unat (p + PGSIZE) = 4096 * (k + 1)"
    using k le by (simp add: unat_word_ariths PGSIZE_def)
  have above: "q = p \<or> p + PGSIZE \<le> q" if "page_ok s q" "p \<le> q" for q
  proof -
    from that(1) obtain j where j: "unat q = 4096 * j" by (auto simp: page_ok_def elim!: dvdE)
    with that(2) k have "k \<le> j" by (simp add: word_le_nat_alt)
    then show ?thesis
      using k j next_p by (cases "j = k") (simp_all add: word_le_nat_alt word_unat_eq_iff)
  qed
  show ?case
  proof (cases "p + PGSIZE \<le> PHYSTOP")
    case True
    then have "p < PHYSTOP" using next_p k by (simp add: word_le_nat_alt word_less_nat_alt)
    with "1.prems" have ok: "page_ok s p" "p \<notin> set xs" by (auto simp: page_ok_def)
    from kfree_page [OF "1.prems"(1) this] obtain u where
      u: "kfree p s = Ok u" "kmem_inv u (p # xs)" "kend u = kend s" by auto
    have lt: "p < p + PGSIZE" using next_p k by (simp add: word_less_nat_alt)
    have mod: "unat (p + PGSIZE) mod 4096 = 0" using next_p by simp
    have below: "x < p + PGSIZE" if "x \<in> set (p # xs)" for x
      using that lt "1.prems"(5) less_trans by auto
    have "kend u \<le> p + PGSIZE" using u(3) "1.prems"(3) lt by (simp add: order.trans less_imp_le)
    from "1.hyps" [OF True u(1) u(2) mod this True below] obtain t ys where
      t: "free_pages (p + PGSIZE) PHYSTOP u = Ok t" "kmem_inv t ys"
         "set ys = set (p # xs) \<union> {q. page_ok u q \<and> p + PGSIZE \<le> q}" by blast
    have "page_ok u = page_ok s" using u(3) by (auto simp: page_ok_def fun_eq_iff)
    then have "set ys = set xs \<union> {q. page_ok s q \<and> p \<le> q}"
      using t(3) ok(1) lt above by (auto intro: order.trans less_imp_le)
    moreover have "free_pages p PHYSTOP s = Ok t"
      using True u(1) t(1) by (subst free_pages.simps) simp
    ultimately show ?thesis using t(2) by blast
  next
    case False
    have "{q. page_ok s q \<and> p \<le> q} = {}"
    proof -
      have "\<not> 4096 * (k + 1) \<le> 0x88000000"
        using False next_p by (simp add: word_le_nat_alt unat_PHYSTOP)
      then have "PHYSTOP \<le> p" using k by (simp add: word_le_nat_alt unat_PHYSTOP)
      then show ?thesis by (auto simp: page_ok_def)
    qed
    with False "1.prems"(1) show ?thesis by (subst free_pages.simps) auto
  qed
qed

text \<open>
  C15. Booting the allocator: with \<^verbatim>\<open>end\<close> inside RAM and an empty free list, \<^verbatim>\<open>kinit\<close> returns, and the
  free list then holds every page-aligned page from \<^verbatim>\<open>end\<close> to \<^verbatim>\<open>PHYSTOP\<close>, each exactly once, and no
  other address.
\<close>

theorem kinit_frees_all_pages:
  assumes "0 < kend s" and "kend s \<le> PHYSTOP" and "freelist s = 0"
  shows "\<exists>t ys. kinit s = Ok t \<and> kmem_inv t ys \<and> set ys = {q. page_ok s q}"
proof -
  let ?p = "PGROUNDUP (kend s)"
  have bound: "unat (kend s) \<le> 0x88000000"
    using assms(2) by (simp add: word_le_nat_alt unat_PHYSTOP)
  then have p: "kend s \<le> ?p" "4096 dvd unat ?p" "unat ?p < unat (kend s) + 4096"
    by (auto intro: PGROUNDUP_least)
  then obtain k where k: "unat ?p = 4096 * k" by auto
  have "unat ?p \<le> 0x88000000" using k p(3) bound by simp
  then have "?p \<le> PHYSTOP" by (simp add: word_le_nat_alt unat_PHYSTOP)
  moreover have "kmem_inv s []" using assms by (simp add: kmem_inv_def)
  ultimately obtain t ys where
    t: "free_pages ?p PHYSTOP s = Ok t" "kmem_inv t ys" "set ys = {q. page_ok s q \<and> ?p \<le> q}"
    using free_pages_all [of s "[]" ?p] p by auto
  have "?p \<le> q" if "page_ok s q" for q
  proof -
    from that obtain j where j: "unat q = 4096 * j" by (auto simp: page_ok_def elim!: dvdE)
    have "unat (kend s) \<le> unat q" using that by (simp add: page_ok_def word_le_nat_alt)
    then have "k \<le> j" using k j p(3) by simp
    then show ?thesis using k j by (simp add: word_le_nat_alt)
  qed
  with t show ?thesis by (auto simp: kinit_def freerange_def)
qed

definition boot_kmem :: "uint64 \<Rightarrow> kmem" where
  "boot_kmem free = \<lparr>tp = 0, cpus = (\<lambda>_. cpu0), mem = (\<lambda>_. 0), freelist = free, kend = 0x87FFE800\<rparr>"

theorem kinit_frees_all_pages_witness:
  "\<exists>t ys. kinit (boot_kmem 0) = Ok t \<and> kmem_inv t ys \<and> set ys = {q. page_ok (boot_kmem 0) q}"
  by (rule kinit_frees_all_pages) (simp_all add: boot_kmem_def PHYSTOP_def KERNBASE_def)

text \<open>
  C16. Allocation: while pages are free, \<^verbatim>\<open>kalloc\<close> returns the first one and takes exactly it off the
  free list, fills it with the byte 5 and changes no byte outside it; with no free page it returns 0 and
  changes nothing.
\<close>

theorem kalloc_spec:
  assumes "kmem_inv s xs"
  shows "case xs of
      [] \<Rightarrow> kalloc s = (0, s)
    | x # ys \<Rightarrow> (\<exists>t. kalloc s = (x, t) \<and> kmem_inv t ys \<and> page_ok s x
                  \<and> (\<forall>a. mem t a = (if in_page x a then 5 else mem s a)))"
proof (cases xs)
  case Nil
  with assms show ?thesis by (simp add: km.alloc_empty)
next
  case (Cons x ys)
  with assms have inv: "kmem_inv s (x # ys)" by simp
  then have "page_ok s x" using km.pages_valid [OF inv] by simp
  with kalloc_page [OF inv] Cons show ?thesis by (simp add: memset_page)
qed

lemma load64_zero: "load64 (\<lambda>_. 0) a = 0"
  by (rule bit_eqI) (simp add: bit_load64)

lemma boot_kmem_inv: "kmem_inv (boot_kmem 0x87FFF000) [0x87FFF000]"
  by (simp add: kmem_inv_def boot_kmem_def load64_zero page_ok_def PHYSTOP_def KERNBASE_def)

theorem kalloc_spec_witness:
  "case [0x87FFF000] of
      [] \<Rightarrow> kalloc (boot_kmem 0x87FFF000) = (0, boot_kmem 0x87FFF000)
    | x # ys \<Rightarrow> (\<exists>t. kalloc (boot_kmem 0x87FFF000) = (x, t) \<and> kmem_inv t ys
          \<and> page_ok (boot_kmem 0x87FFF000) x
          \<and> (\<forall>a. mem t a = (if in_page x a then 5 else mem (boot_kmem 0x87FFF000) a)))"
  by (rule kalloc_spec [OF boot_kmem_inv])

text \<open>
  C18. Freeing: \<^verbatim>\<open>kfree\<close> of a page that the kernel owns and that is not free puts it at the head of the
  free list, from where the next \<^verbatim>\<open>kalloc\<close> takes it, and changes no byte outside it; an address that
  is not page-aligned, lies before \<^verbatim>\<open>end\<close> or is not below \<^verbatim>\<open>PHYSTOP\<close> makes it panic.
\<close>

theorem kfree_spec:
  assumes "kmem_inv s xs" and "pa \<notin> set xs"
  shows "if page_ok s pa
         then \<exists>t. kfree pa s = Ok t \<and> kmem_inv t (pa # xs) \<and> fst (kalloc t) = pa
                \<and> (\<forall>a. \<not> in_page pa a \<longrightarrow> mem t a = mem s a)
         else kfree pa s = Panic ''kfree''"
proof (cases "page_ok s pa")
  case True
  from kfree_page [OF assms(1) True assms(2)] obtain t where
    "kfree pa s = Ok t" "kmem_inv t (pa # xs)" "\<forall>a. \<not> in_page pa a \<longrightarrow> mem t a = mem s a" by blast
  moreover from this(2) have "fst (kalloc t) = pa" by (simp add: kalloc_page)
  ultimately show ?thesis using True by auto
next
  case False
  then show ?thesis by (auto simp: page_ok_def kfree_def not_le not_less)
qed

theorem kfree_spec_witness:
  "if page_ok (boot_kmem 0x87FFF000) 0x87FFF001
   then \<exists>t. kfree 0x87FFF001 (boot_kmem 0x87FFF000) = Ok t \<and> kmem_inv t (0x87FFF001 # [0x87FFF000])
          \<and> fst (kalloc t) = 0x87FFF001
          \<and> (\<forall>a. \<not> in_page 0x87FFF001 a \<longrightarrow> mem t a = mem (boot_kmem 0x87FFF000) a)
   else kfree 0x87FFF001 (boot_kmem 0x87FFF000) = Panic ''kfree''"
  by (rule kfree_spec [OF boot_kmem_inv]) simp

end
