(* ===== verification/Vm.thy ===== *)
theory Vm
  imports Kalloc
begin

text \<open>
  \<^verbatim>\<open>kernel/vm.c\<close>: page tables and user memory. A page table is what it is in the machine, a page of
  512 eight-byte entries in physical memory; \<open>walk\<close> reads and, when asked to, extends the three-level
  tree there. The functions return what the source returns; a \<^verbatim>\<open>panic\<close> is a panic of the model.

  Addresses the linker or the assembler provides (\<^verbatim>\<open>etext\<close>, \<^verbatim>\<open>trampoline\<close>) are arguments. The
  recursion of \<^verbatim>\<open>freewalk\<close> has an explicit depth bound; Sv39 tables are three levels deep.
\<close>

subsection \<open>Walking\<close>

fun walk_down :: "nat \<Rightarrow> uint64 \<Rightarrow> uint64 \<Rightarrow> bool \<Rightarrow> 'a kmem_scheme \<Rightarrow> uint64 \<times> 'a kmem_scheme" where
  "walk_down 0 pagetable va alloc s = (pagetable + 8 * PX 0 va, s)"
| "walk_down (Suc level) pagetable va alloc s =
     (let pte = pagetable + 8 * PX (Suc level) va;
          v = load64 (mem s) pte
      in if v AND PTE_V \<noteq> 0 then walk_down level (PTE2PA v) va alloc s
         else if \<not> alloc then (0, s)
         else let (page, s) = kalloc s
              in if page = 0 then (0, s)
                 else let s = s\<lparr>mem := memset page 0 4096 (mem s)\<rparr>;
                          s = s\<lparr>mem := store64 pte (PA2PTE page OR PTE_V) (mem s)\<rparr>
                      in walk_down level page va alloc s)"

definition walk ::
  "uint64 \<Rightarrow> uint64 \<Rightarrow> bool \<Rightarrow> 'a kmem_scheme \<Rightarrow> (uint64 \<times> 'a kmem_scheme) result" where
  "walk pagetable va alloc s =
     (if MAXVA \<le> va then Panic ''walk'' else Ok (walk_down 2 pagetable va alloc s))"

definition walkaddr :: "uint64 \<Rightarrow> uint64 \<Rightarrow> 'a kmem_scheme \<Rightarrow> uint64 result" where
  "walkaddr pagetable va s =
     (if MAXVA \<le> va then Ok 0
      else bindR (walk pagetable va False s) (\<lambda>(pte, s).
        if pte = 0 then Ok 0
        else if load64 (mem s) pte AND PTE_V = 0 then Ok 0
        else if load64 (mem s) pte AND PTE_U = 0 then Ok 0
        else Ok (PTE2PA (load64 (mem s) pte))))"

lemma walk_below: "walk pagetable va alloc s = Ok r \<Longrightarrow> va < MAXVA"
  by (auto simp: walk_def split: if_splits)

lemma unat_add_PGSIZE: "va < MAXVA \<Longrightarrow> unat (va + PGSIZE) = unat va + 4096"
  by (simp add: word_less_nat_alt unat_MAXVA unat_word_ariths PGSIZE_def)

text \<open>What is left of the address space above an address: the measure of the page loops.\<close>

definition room :: "uint64 \<Rightarrow> nat" where
  "room va = 2 ^ 64 - unat va"

lemma room_decreases: "va < MAXVA \<Longrightarrow> room (va + PGSIZE) < room va"
  using unat_less64 [of va] by (simp add: room_def unat_add_PGSIZE)

subsection \<open>Mapping and unmapping\<close>

function map_loop :: "uint64 \<Rightarrow> uint64 \<Rightarrow> uint64 \<Rightarrow> uint64 \<Rightarrow> uint64 \<Rightarrow> 'a kmem_scheme
    \<Rightarrow> (int \<times> 'a kmem_scheme) result" where
  "map_loop pagetable a lastva pa perm s =
     bindR (walk pagetable a True s) (\<lambda>(pte, s).
       if pte = 0 then Ok (-1, s)
       else if load64 (mem s) pte AND PTE_V \<noteq> 0 then Panic ''remap''
       else let s = s\<lparr>mem := store64 pte (PA2PTE pa OR perm OR PTE_V) (mem s)\<rparr>
            in if a = lastva then Ok (0, s)
               else map_loop pagetable (a + PGSIZE) lastva (pa + PGSIZE) perm s)"
  by pat_completeness auto
termination
  by (relation "measure (\<lambda>(pt, a, lastva, pa, perm, s). room a)")
     (auto dest!: walk_below intro: room_decreases)

declare map_loop.simps [simp del]

definition mappages :: "uint64 \<Rightarrow> uint64 \<Rightarrow> uint64 \<Rightarrow> uint64 \<Rightarrow> uint64 \<Rightarrow> 'a kmem_scheme
    \<Rightarrow> (int \<times> 'a kmem_scheme) result" where
  "mappages pagetable va sz pa perm s =
     map_loop pagetable (PGROUNDDOWN va) (PGROUNDDOWN (va + sz - 1)) pa perm s"

definition kvmmap :: "uint64 \<Rightarrow> uint64 \<Rightarrow> uint64 \<Rightarrow> uint64 \<Rightarrow> uint64 \<Rightarrow> 'a kmem_scheme
    \<Rightarrow> 'a kmem_scheme result" where
  "kvmmap kpgtbl va pa sz perm s =
     bindR (mappages kpgtbl va sz pa perm s) (\<lambda>(r, s). if r \<noteq> 0 then Panic ''kvmmap'' else Ok s)"

function unmap_loop :: "uint64 \<Rightarrow> uint64 \<Rightarrow> uint64 \<Rightarrow> bool \<Rightarrow> 'a kmem_scheme
    \<Rightarrow> 'a kmem_scheme result" where
  "unmap_loop pagetable a stop do_free s =
     (if a < stop
      then bindR (walk pagetable a False s) (\<lambda>(pte, s).
        if pte = 0 then Panic ''uvmunmap: walk''
        else if load64 (mem s) pte AND PTE_V = 0 then Panic ''uvmunmap: not mapped''
        else if PTE_FLAGS (load64 (mem s) pte) = PTE_V then Panic ''uvmunmap: not a leaf''
        else bindR (if do_free then kfree (PTE2PA (load64 (mem s) pte)) s else Ok s)
               (\<lambda>s. unmap_loop pagetable (a + PGSIZE) stop do_free
                      (s\<lparr>mem := store64 pte 0 (mem s)\<rparr>)))
      else Ok s)"
  by pat_completeness auto
termination
  by (relation "measure (\<lambda>(pt, a, stop, do_free, s). room a)")
     (auto dest!: walk_below intro: room_decreases)

declare unmap_loop.simps [simp del]

definition uvmunmap :: "uint64 \<Rightarrow> uint64 \<Rightarrow> uint64 \<Rightarrow> bool \<Rightarrow> 'a kmem_scheme
    \<Rightarrow> 'a kmem_scheme result" where
  "uvmunmap pagetable va npages do_free s =
     (if va mod PGSIZE \<noteq> 0 then Panic ''uvmunmap: not aligned''
      else unmap_loop pagetable va (va + npages * PGSIZE) do_free s)"

subsection \<open>User memory\<close>

definition uvmcreate :: "'a kmem_scheme \<Rightarrow> uint64 \<times> 'a kmem_scheme" where
  "uvmcreate s =
     (let (pagetable, s) = kalloc s
      in if pagetable = 0 then (0, s)
         else (pagetable, s\<lparr>mem := memset pagetable 0 4096 (mem s)\<rparr>))"

text \<open>The bytes of an object of the kernel, stored at an address.\<close>

definition store_bytes :: "uint64 \<Rightarrow> uchar list \<Rightarrow> memory \<Rightarrow> memory" where
  "store_bytes a bs m = (\<lambda>x. let d = unat (x - a) in if d < length bs then bs ! d else m x)"

definition load_bytes :: "uint64 \<Rightarrow> nat \<Rightarrow> memory \<Rightarrow> uchar list" where
  "load_bytes a n m = map (\<lambda>i. m (a + of_nat i)) [0..<n]"

text \<open>
  \<^verbatim>\<open>uvminit\<close> does not test what \<^verbatim>\<open>kalloc\<close> returns: with no free page it clears the page at
  address 0 and maps it.
\<close>

definition uvminit :: "uint64 \<Rightarrow> uchar list \<Rightarrow> 'a kmem_scheme \<Rightarrow> 'a kmem_scheme result" where
  "uvminit pagetable src s =
     (if 4096 \<le> length src then Panic ''inituvm: more than a page''
      else let (page, s) = kalloc s;
               s = s\<lparr>mem := memset page 0 4096 (mem s)\<rparr>
           in bindR (mappages pagetable 0 PGSIZE page (PTE_W OR PTE_R OR PTE_X OR PTE_U) s)
                (\<lambda>(_, s). Ok (s\<lparr>mem := store_bytes page src (mem s)\<rparr>)))"

text \<open>The page count goes through a C \<^verbatim>\<open>int\<close> on its way to \<^verbatim>\<open>uvmunmap\<close>.\<close>

definition uvmdealloc :: "uint64 \<Rightarrow> uint64 \<Rightarrow> uint64 \<Rightarrow> 'a kmem_scheme
    \<Rightarrow> (uint64 \<times> 'a kmem_scheme) result" where
  "uvmdealloc pagetable oldsz newsz s =
     (if oldsz \<le> newsz then Ok (oldsz, s)
      else if PGROUNDUP newsz < PGROUNDUP oldsz
      then let npages = scast (ucast ((PGROUNDUP oldsz - PGROUNDUP newsz) div PGSIZE) :: 32 word)
           in bindR (uvmunmap pagetable (PGROUNDUP newsz) npages True s) (\<lambda>s. Ok (newsz, s))
      else Ok (newsz, s))"

lemma map_loop_below: "map_loop pagetable a lastva pa perm s = Ok r \<Longrightarrow> a < MAXVA"
  by (subst (asm) map_loop.simps) (auto dest: walk_below)

lemma mappages_below: "mappages pagetable a n pa perm s = Ok r \<Longrightarrow> PGROUNDDOWN a < MAXVA"
  unfolding mappages_def by (rule map_loop_below)

lemma below_MAXVA: "PGROUNDDOWN a < MAXVA \<Longrightarrow> a < MAXVA"
proof -
  assume "PGROUNDDOWN a < MAXVA"
  then have "unat a div 4096 * 4096 < 2 ^ 38"
    by (simp add: word_less_nat_alt unat_PGROUNDDOWN unat_MAXVA)
  then have "unat a div 4096 < 2 ^ 26" by simp
  then have "unat a < 2 ^ 38" by (simp add: div_less_iff_less_mult)
  then show ?thesis by (simp add: word_less_nat_alt unat_MAXVA)
qed

function grow_loop :: "uint64 \<Rightarrow> uint64 \<Rightarrow> uint64 \<Rightarrow> uint64 \<Rightarrow> 'a kmem_scheme
    \<Rightarrow> (uint64 \<times> 'a kmem_scheme) result" where
  "grow_loop pagetable oldsz a newsz s =
     (if a < newsz
      then let (page, s) = kalloc s
           in if page = 0
              then bindR (uvmdealloc pagetable a oldsz s) (\<lambda>(_, s). Ok (0, s))
              else let s = s\<lparr>mem := memset page 0 4096 (mem s)\<rparr>
                   in bindR (mappages pagetable a PGSIZE page (PTE_W OR PTE_X OR PTE_R OR PTE_U) s)
                        (\<lambda>(r, s). if r \<noteq> 0
                           then bindR (kfree page s) (\<lambda>s.
                                bindR (uvmdealloc pagetable a oldsz s) (\<lambda>(_, s). Ok (0, s)))
                           else grow_loop pagetable oldsz (a + PGSIZE) newsz s)
      else Ok (newsz, s))"
  by pat_completeness auto
termination
  by (relation "measure (\<lambda>(pt, oldsz, a, newsz, s). room a)")
     (auto dest!: mappages_below below_MAXVA intro: room_decreases)

declare grow_loop.simps [simp del]

definition uvmalloc :: "uint64 \<Rightarrow> uint64 \<Rightarrow> uint64 \<Rightarrow> 'a kmem_scheme
    \<Rightarrow> (uint64 \<times> 'a kmem_scheme) result" where
  "uvmalloc pagetable oldsz newsz s =
     (if newsz < oldsz then Ok (oldsz, s)
      else grow_loop pagetable (PGROUNDUP oldsz) (PGROUNDUP oldsz) newsz s)"

text \<open>
  \<^verbatim>\<open>freewalk\<close> with a bound on the depth of its recursion; a table that is deeper exhausts the kernel
  stack in the source.
\<close>

fun freewalk :: "nat \<Rightarrow> uint64 \<Rightarrow> 'a kmem_scheme \<Rightarrow> 'a kmem_scheme result" where
  "freewalk 0 pagetable s = Undef ''freewalk: recursion too deep''"
| "freewalk (Suc depth) pagetable s =
     bindR (foldR (\<lambda>i s.
         let pte = load64 (mem s) (pagetable + 8 * of_nat i)
         in if pte AND PTE_V \<noteq> 0 \<and> pte AND (PTE_R OR PTE_W OR PTE_X) = 0
            then bindR (freewalk depth (PTE2PA pte) s)
                   (\<lambda>s. Ok (s\<lparr>mem := store64 (pagetable + 8 * of_nat i) 0 (mem s)\<rparr>))
            else if pte AND PTE_V \<noteq> 0 then Panic ''freewalk: leaf''
            else Ok s) [0..<512] s)
       (kfree pagetable)"

definition uvmfree :: "uint64 \<Rightarrow> uint64 \<Rightarrow> 'a kmem_scheme \<Rightarrow> 'a kmem_scheme result" where
  "uvmfree pagetable sz s =
     bindR (if 0 < sz then uvmunmap pagetable 0 (PGROUNDUP sz div PGSIZE) True s else Ok s)
       (freewalk 3 pagetable)"

function copy_loop :: "uint64 \<Rightarrow> uint64 \<Rightarrow> uint64 \<Rightarrow> uint64 \<Rightarrow> 'a kmem_scheme
    \<Rightarrow> (int \<times> 'a kmem_scheme) result" where
  "copy_loop old new sz i s =
     (if i < sz
      then bindR (walk old i False s) (\<lambda>(pte, s).
        if pte = 0 then Panic ''uvmcopy: pte should exist''
        else if load64 (mem s) pte AND PTE_V = 0 then Panic ''uvmcopy: page not present''
        else let pa = PTE2PA (load64 (mem s) pte);
                 flags = PTE_FLAGS (load64 (mem s) pte);
                 (page, s) = kalloc s
             in if page = 0
                then bindR (uvmunmap new 0 (i div PGSIZE) True s) (\<lambda>s. Ok (-1, s))
                else let s = s\<lparr>mem := memmove page pa 4096 (mem s)\<rparr>
                     in bindR (mappages new i PGSIZE page flags s) (\<lambda>(r, s).
                          if r \<noteq> 0
                          then bindR (kfree page s) (\<lambda>s.
                               bindR (uvmunmap new 0 (i div PGSIZE) True s) (\<lambda>s. Ok (-1, s)))
                          else copy_loop old new sz (i + PGSIZE) s))
      else Ok (0, s))"
  by pat_completeness auto
termination
  by (relation "measure (\<lambda>(old, new, sz, i, s). room i)")
     (auto dest!: walk_below intro: room_decreases)

declare copy_loop.simps [simp del]

definition uvmcopy :: "uint64 \<Rightarrow> uint64 \<Rightarrow> uint64 \<Rightarrow> 'a kmem_scheme \<Rightarrow> (int \<times> 'a kmem_scheme) result" where
  "uvmcopy old new sz s = copy_loop old new sz 0 s"

definition uvmclear :: "uint64 \<Rightarrow> uint64 \<Rightarrow> 'a kmem_scheme \<Rightarrow> 'a kmem_scheme result" where
  "uvmclear pagetable va s =
     bindR (walk pagetable va False s) (\<lambda>(pte, s).
       if pte = 0 then Panic ''uvmclear''
       else Ok (s\<lparr>mem := store64 pte (load64 (mem s) pte AND NOT PTE_U) (mem s)\<rparr>))"

end
