(* ===== verification/UserCopy.thy ===== *)
theory UserCopy
  imports Vm
begin

text \<open>
  The copies between kernel and user memory of \<^verbatim>\<open>kernel/vm.c\<close>: \<^verbatim>\<open>copyout\<close>, \<^verbatim>\<open>copyin\<close> and
  \<^verbatim>\<open>copyinstr\<close>, and what they read and write in terms of user addresses. The loops go page by page;
  the reference definitions \<open>uaddr\<close> and \<open>ubyte\<close> go byte by byte.
\<close>

subsection \<open>The copy loops\<close>

text \<open>
  The kernel side of a copy is an object of the kernel, given by its bytes. \<^verbatim>\<open>copyin\<close> and
  \<^verbatim>\<open>copyinstr\<close> return the bytes they stored there, also when they fail half way.
\<close>

lemma chunk_positive: "0 < 4096 - unat (va - PGROUNDDOWN va)"
  using PGROUNDDOWN_offset [of va] by simp

function copyout :: "uint64 \<Rightarrow> uint64 \<Rightarrow> uchar list \<Rightarrow> 'a kmem_scheme
    \<Rightarrow> (int \<times> 'a kmem_scheme) result" where
  "copyout pagetable dstva src s =
     (if src = [] then Ok (0, s)
      else let va0 = PGROUNDDOWN dstva
           in bindR (walkaddr pagetable va0 s) (\<lambda>pa0.
             if pa0 = 0 then Ok (-1, s)
             else let n = min (4096 - unat (dstva - va0)) (length src)
                  in copyout pagetable (va0 + PGSIZE) (drop n src)
                       (s\<lparr>mem := store_bytes (pa0 + (dstva - va0)) (take n src) (mem s)\<rparr>)))"
  by pat_completeness auto
termination
  by (relation "measure (\<lambda>(pt, dstva, src, s). length src)") (use chunk_positive in auto)

declare copyout.simps [simp del]

function copyin :: "uint64 \<Rightarrow> uint64 \<Rightarrow> nat \<Rightarrow> 'a kmem_scheme \<Rightarrow> (int \<times> uchar list) result" where
  "copyin pagetable srcva len s =
     (if len = 0 then Ok (0, [])
      else let va0 = PGROUNDDOWN srcva
           in bindR (walkaddr pagetable va0 s) (\<lambda>pa0.
             if pa0 = 0 then Ok (-1, [])
             else let n = min (4096 - unat (srcva - va0)) len
                  in bindR (copyin pagetable (va0 + PGSIZE) (len - n) s) (\<lambda>(r, bs).
                       Ok (r, load_bytes (pa0 + (srcva - va0)) n (mem s) @ bs))))"
  by pat_completeness auto
termination
  by (relation "measure (\<lambda>(pt, srcva, len, s). len)") (use chunk_positive in auto)

declare copyin.simps [simp del]

text \<open>The inner loop of \<^verbatim>\<open>copyinstr\<close>: the bytes up to and with the first NUL, and whether there is one.\<close>

fun upto_nul :: "uchar list \<Rightarrow> uchar list \<times> bool" where
  "upto_nul [] = ([], False)"
| "upto_nul (x # xs) = (if x = 0 then ([0], True) else let (r, b) = upto_nul xs in (x # r, b))"

function copyinstr :: "uint64 \<Rightarrow> uint64 \<Rightarrow> nat \<Rightarrow> 'a kmem_scheme \<Rightarrow> (int \<times> uchar list) result" where
  "copyinstr pagetable srcva mx s =
     (if mx = 0 then Ok (-1, [])
      else let va0 = PGROUNDDOWN srcva
           in bindR (walkaddr pagetable va0 s) (\<lambda>pa0.
             if pa0 = 0 then Ok (-1, [])
             else let n = min (4096 - unat (srcva - va0)) mx;
                      (bs, got_null) = upto_nul (load_bytes (pa0 + (srcva - va0)) n (mem s))
                  in if got_null then Ok (0, bs)
                     else bindR (copyinstr pagetable (va0 + PGSIZE) (mx - n) s) (\<lambda>(r, cs).
                            Ok (r, bs @ cs))))"
  by pat_completeness auto
termination
  by (relation "measure (\<lambda>(pt, srcva, mx, s). mx)") (use chunk_positive in auto)

declare copyinstr.simps [simp del]

subsection \<open>What the copies read\<close>

text \<open>
  The reference for the copies: a user address is translated by the page it lies in, and a copy is the
  bytes at the translations of consecutive user addresses.
\<close>

definition upage :: "uint64 \<Rightarrow> 'a kmem_scheme \<Rightarrow> uint64 \<Rightarrow> uint64" where
  "upage pagetable s va =
     (case walkaddr pagetable (PGROUNDDOWN va) s of Ok pa \<Rightarrow> pa | _ \<Rightarrow> 0)"

definition uaddr :: "uint64 \<Rightarrow> 'a kmem_scheme \<Rightarrow> uint64 \<Rightarrow> uint64" where
  "uaddr pagetable s va = upage pagetable s va + (va - PGROUNDDOWN va)"

definition ubyte :: "uint64 \<Rightarrow> 'a kmem_scheme \<Rightarrow> uint64 \<Rightarrow> uchar" where
  "ubyte pagetable s va = mem s (uaddr pagetable s va)"

lemma walkaddr_returns: "walkaddr pagetable va s = Ok (upage pagetable s va)" if "PGROUNDDOWN va = va"
  using that by (auto simp: upage_def walkaddr_def walk_def split: prod.splits)

lemma PGROUNDDOWN_within:
  assumes "k < 4096 - unat (va - PGROUNDDOWN va)"
  shows "PGROUNDDOWN (va + of_nat k) = PGROUNDDOWN va"
    and "va + of_nat k - PGROUNDDOWN va = va - PGROUNDDOWN va + of_nat k"
proof -
  show "va + of_nat k - PGROUNDDOWN va = va - PGROUNDDOWN va + of_nat k" by simp
  have off: "unat (va - PGROUNDDOWN va) = unat va mod 4096"
    using PGROUNDDOWN_offset [of va] by simp
  have le: "unat va mod 4096 + k < 4096" using assms off by simp
  define q r where "q = unat va div 4096" and "r = unat va mod 4096"
  then have va: "unat va = 4096 * q + r" and r: "r + k < 4096" using le by simp_all
  have "q < 0x10000000000000"
    using unat_less64 [of va] by (simp add: q_def div_less_iff_less_mult)
  then have u: "unat (va + of_nat k) = unat va + k"
    using r va by (simp add: unat_word_ariths unat_of_nat)
  have "(unat va + k) div 4096 = unat va div 4096"
    using r va by simp
  then show "PGROUNDDOWN (va + of_nat k) = PGROUNDDOWN va"
    by (simp add: word_unat_eq_iff unat_PGROUNDDOWN u)
qed

lemma uaddr_within:
  assumes "k < 4096 - unat (va - PGROUNDDOWN va)"
  shows "upage pagetable s (va + of_nat k) = upage pagetable s va"
    and "uaddr pagetable s (va + of_nat k) = uaddr pagetable s va + of_nat k"
  using PGROUNDDOWN_within [OF assms] by (simp_all add: upage_def uaddr_def)

lemma umap_chunks:
  fixes va :: uint64
  assumes "n \<le> 4096 - unat (va - PGROUNDDOWN va)" and "n \<le> len"
    and "n < len \<Longrightarrow> n = 4096 - unat (va - PGROUNDDOWN va)"
  shows "map (\<lambda>i. f (va + of_nat i)) [0..<len] =
           map (\<lambda>i. f (va + of_nat i)) [0..<n]
           @ map (\<lambda>i. f (PGROUNDDOWN va + PGSIZE + of_nat i)) [0..<len - n]"
proof (cases "n < len")
  case True
  have "unat (va - PGROUNDDOWN va) < 4096" by (simp add: PGROUNDDOWN_offset)
  with True assms(3) have "of_nat n = PGSIZE - (va - PGROUNDDOWN va)"
    by (simp add: word_unat_eq_iff unat_sub word_le_nat_alt PGSIZE_def unat_of_nat)
  then have shift: "va + of_nat (n + i) = PGROUNDDOWN va + PGSIZE + of_nat i" for i by simp
  have "[0..<len] = [0..<n] @ map (\<lambda>i. n + i) [0..<len - n]"
    using assms(2) upt_add_eq_append [of 0 n "len - n"] map_add_upt [of n "len - n"] by (simp add: add.commute)
  then show ?thesis by (simp only: map_append map_map comp_def shift)
next
  case False
  with assms(2) show ?thesis by simp
qed

lemma load_bytes_ubytes:
  assumes "n \<le> 4096 - unat (va - PGROUNDDOWN va)"
  shows "load_bytes (upage pagetable s va + (va - PGROUNDDOWN va)) n (mem s) =
           map (\<lambda>i. ubyte pagetable s (va + of_nat i)) [0..<n]"
  unfolding load_bytes_def
proof (rule map_cong [OF refl])
  fix i
  assume "i \<in> set [0..<n]"
  with assms have "i < 4096 - unat (va - PGROUNDDOWN va)" by simp
  then show "mem s (upage pagetable s va + (va - PGROUNDDOWN va) + of_nat i) =
               ubyte pagetable s (va + of_nat i)"
    by (simp add: ubyte_def uaddr_within uaddr_def [of pagetable s va])
qed

lemma mapped_chunks:
  assumes "n \<le> 4096 - unat (va - PGROUNDDOWN va)" and "n \<le> len" and "0 < n"
    and "n < len \<Longrightarrow> n = 4096 - unat (va - PGROUNDDOWN va)"
  shows "(\<forall>i<len. upage pagetable s (va + of_nat i) \<noteq> 0) \<longleftrightarrow>
           upage pagetable s va \<noteq> 0
           \<and> (\<forall>i<len - n. upage pagetable s (PGROUNDDOWN va + PGSIZE + of_nat i) \<noteq> 0)"
proof -
  let ?f = "\<lambda>va. upage pagetable s va \<noteq> 0"
  have "(\<forall>i<len. ?f (va + of_nat i)) \<longleftrightarrow> list_all id (map (\<lambda>i. ?f (va + of_nat i)) [0..<len])"
    by (auto simp: list_all_iff)
  also have "\<dots> \<longleftrightarrow> (\<forall>i<n. ?f (va + of_nat i))
      \<and> (\<forall>i<len - n. ?f (PGROUNDDOWN va + PGSIZE + of_nat i))"
    using umap_chunks [OF assms(1,2,4), where f = ?f] by (auto simp: list_all_iff)
  also have "(\<forall>i<n. ?f (va + of_nat i)) \<longleftrightarrow> ?f va"
    using assms(1,3) uaddr_within(1) [of _ va pagetable s] by auto
  finally show ?thesis .
qed

lemma upage_PGROUNDDOWN [simp]: "upage pagetable s (PGROUNDDOWN va) = upage pagetable s va"
  by (simp add: upage_def PGROUNDDOWN_idem)

lemma copyin_step:
  assumes "0 < len" and "n = min (4096 - unat (srcva - PGROUNDDOWN srcva)) len"
  shows "copyin pagetable srcva len s =
     (if upage pagetable s srcva = 0 then Ok (-1, [])
      else bindR (copyin pagetable (PGROUNDDOWN srcva + PGSIZE) (len - n) s) (\<lambda>(r, bs).
             Ok (r, map (\<lambda>i. ubyte pagetable s (srcva + of_nat i)) [0..<n] @ bs)))"
  using assms walkaddr_returns [of "PGROUNDDOWN srcva" pagetable s]
  by (subst copyin.simps) (simp add: PGROUNDDOWN_idem load_bytes_ubytes Let_def)

lemma copyin_bytes:
  "if \<forall>i<len. upage pagetable s (srcva + of_nat i) \<noteq> 0
   then copyin pagetable srcva len s =
          Ok (0, map (\<lambda>i. ubyte pagetable s (srcva + of_nat i)) [0..<len])
   else \<exists>bs. copyin pagetable srcva len s = Ok (-1, bs)"
proof (induction pagetable srcva len s rule: copyin.induct)
  case (1 pagetable srcva len s)
  define n where "n = min (4096 - unat (srcva - PGROUNDDOWN srcva)) len"
  let ?next = "PGROUNDDOWN srcva + PGSIZE"
  let ?bytes = "\<lambda>va k. map (\<lambda>i. ubyte pagetable s (va + of_nat i)) [0..<k]"
  let ?mapped = "\<lambda>va k. \<forall>i<k. upage pagetable s (va + of_nat i) \<noteq> 0"
  show ?case
  proof (cases "len = 0")
    case True
    then show ?thesis by (subst copyin.simps) simp
  next
    case False
    have n: "n \<le> 4096 - unat (srcva - PGROUNDDOWN srcva)" "n \<le> len" "0 < n"
      "n < len \<Longrightarrow> n = 4096 - unat (srcva - PGROUNDDOWN srcva)"
      using False chunk_positive [of srcva] by (auto simp: n_def)
    from False have step: "copyin pagetable srcva len s =
      (if upage pagetable s srcva = 0 then Ok (-1, [])
       else bindR (copyin pagetable ?next (len - n) s) (\<lambda>(r, bs). Ok (r, ?bytes srcva n @ bs)))"
      by (intro copyin_step) (simp_all add: n_def)
    have mapped: "?mapped srcva len \<longleftrightarrow> upage pagetable s srcva \<noteq> 0 \<and> ?mapped ?next (len - n)"
      by (rule mapped_chunks [OF n])
    have bytes: "?bytes srcva len = ?bytes srcva n @ ?bytes ?next (len - n)"
      by (rule umap_chunks [OF n(1,2,4)])
    show ?thesis
    proof (cases "upage pagetable s srcva = 0")
      case True
      with mapped step show ?thesis by simp
    next
      case nz: False
      from 1 [OF False refl, of "upage pagetable s srcva" n]
      have "if ?mapped ?next (len - n)
        then copyin pagetable ?next (len - n) s = Ok (0, ?bytes ?next (len - n))
        else \<exists>bs. copyin pagetable ?next (len - n) s = Ok (-1, bs)"
        using nz walkaddr_returns [of "PGROUNDDOWN srcva" pagetable s]
        by (simp add: PGROUNDDOWN_idem n_def)
      with nz show ?thesis unfolding mapped bytes step by (auto split: if_splits)
    qed
  qed
qed

text \<open>
  C17. \<^verbatim>\<open>copyin\<close> always returns. It returns 0 exactly when every one of the \<open>len\<close> user addresses is
  mapped for the user, and then the kernel has received exactly the bytes at those addresses, also
  across page boundaries; otherwise it returns -1.
\<close>

theorem copyin_spec:
  "if \<forall>i<len. upage pagetable s (srcva + of_nat i) \<noteq> 0
   then copyin pagetable srcva len s =
          Ok (0, map (\<lambda>i. ubyte pagetable s (srcva + of_nat i)) [0..<len])
   else \<exists>bs. copyin pagetable srcva len s = Ok (-1, bs)"
  by (rule copyin_bytes)

subsection \<open>What copyout changes\<close>

lemma walk_down_False: "walk_down n pagetable va False s = (fst (walk_down n pagetable va False s), s)"
  by (induction n pagetable va False s rule: walk_down.induct) (auto simp: Let_def)

lemma walk_down_mem:
  "mem s = mem u \<Longrightarrow> fst (walk_down n pagetable va False s) = fst (walk_down n pagetable va False u)"
  by (induction n arbitrary: pagetable) (auto simp: Let_def)

lemma upage_eq:
  "upage pagetable s va =
     (let a = PGROUNDDOWN va; pte = fst (walk_down 2 pagetable a False s)
      in if MAXVA \<le> a \<or> pte = 0 then 0
         else if load64 (mem s) pte AND PTE_V = 0 \<or> load64 (mem s) pte AND PTE_U = 0 then 0
         else PTE2PA (load64 (mem s) pte))"
  using walk_down_False [of 2 pagetable "PGROUNDDOWN va" s]
  by (auto simp: upage_def walkaddr_def walk_def Let_def split: prod.splits)

lemma upage_mem: "mem s = mem u \<Longrightarrow> upage pagetable s va = upage pagetable u va"
  unfolding upage_eq using walk_down_mem [of s u 2 pagetable "PGROUNDDOWN va"] by (simp add: Let_def)

lemma copyout_step:
  assumes "src \<noteq> []" and "n = min (4096 - unat (dstva - PGROUNDDOWN dstva)) (length src)"
  shows "copyout pagetable dstva src s =
     (if upage pagetable s dstva = 0 then Ok (-1, s)
      else copyout pagetable (PGROUNDDOWN dstva + PGSIZE) (drop n src)
             (s\<lparr>mem := store_bytes (uaddr pagetable s dstva) (take n src) (mem s)\<rparr>))"
  using assms walkaddr_returns [of "PGROUNDDOWN dstva" pagetable s]
  by (subst copyout.simps) (simp add: PGROUNDDOWN_idem uaddr_def Let_def)

text \<open>\<^verbatim>\<open>copyout\<close> always returns, changes memory only, and what it does depends on memory only.\<close>

lemma copyout_mem:
  "\<exists>r m. \<forall>s :: 'a kmem_scheme. mem s = m0 \<longrightarrow> copyout pagetable dstva src s = Ok (r, s\<lparr>mem := m\<rparr>)"
proof (induction src arbitrary: dstva m0 rule: length_induct)
  case (1 src)
  show ?case
  proof (cases "src = []")
    case True
    have "copyout pagetable dstva src s = Ok (0, s\<lparr>mem := m0\<rparr>)" if "mem s = m0" for s :: "'a kmem_scheme"
      using True that by (subst copyout.simps) auto
    then show ?thesis by blast
  next
    case False
    define n where "n = min (4096 - unat (dstva - PGROUNDDOWN dstva)) (length src)"
    note step = copyout_step [OF False n_def, of pagetable]
    define s0 :: "'a kmem_scheme" where "s0 = undefined\<lparr>mem := m0\<rparr>"
    have s0: "upage pagetable s va = upage pagetable s0 va" if "mem s = m0" for s :: "'a kmem_scheme" and va
      using that by (intro upage_mem) (simp add: s0_def)
    show ?thesis
    proof (cases "upage pagetable s0 dstva = 0")
      case True
      then have "copyout pagetable dstva src s = Ok (-1, s\<lparr>mem := m0\<rparr>)" if "mem s = m0" for s :: "'a kmem_scheme"
        using that step [of s] s0 [OF that] by auto
      then show ?thesis by blast
    next
      case nz: False
      let ?m1 = "store_bytes (uaddr pagetable s0 dstva) (take n src) m0"
      have "length (drop n src) < length src"
        using False chunk_positive [of dstva] by (auto simp: n_def)
      with 1 obtain r m where rm: "\<And>s :: 'a kmem_scheme. mem s = ?m1 \<Longrightarrow>
          copyout pagetable (PGROUNDDOWN dstva + PGSIZE) (drop n src) s = Ok (r, s\<lparr>mem := m\<rparr>)"
        by metis
      have "copyout pagetable dstva src s = Ok (r, s\<lparr>mem := m\<rparr>)" if "mem s = m0" for s :: "'a kmem_scheme"
        using step [of s] s0 [OF that] nz that rm [of "s\<lparr>mem := ?m1\<rparr>"] by (simp add: uaddr_def)
      then show ?thesis by blast
    qed
  qed
qed

lemma copyout_returns: "\<exists>r m. copyout pagetable dstva src s = Ok (r, s\<lparr>mem := m\<rparr>)"
  using copyout_mem [of "mem s" pagetable dstva src] by blast

text \<open>
  \<open>user_mem\<close>: the user's pages lie in \<open>U\<close>, and the page table does not, so that whatever is stored in \<open>U\<close>
  the translation stays the same. \<open>no_alias\<close>: no physical page is mapped at two user addresses.
\<close>

definition user_mem :: "uint64 \<Rightarrow> 'a kmem_scheme \<Rightarrow> uint64 set \<Rightarrow> bool" where
  "user_mem pagetable s U \<longleftrightarrow>
     (\<forall>m. (\<forall>a. a \<notin> U \<longrightarrow> m a = mem s a) \<longrightarrow>
       (\<forall>va. upage pagetable (s\<lparr>mem := m\<rparr>) va = upage pagetable s va))
     \<and> (\<forall>va. upage pagetable s va \<noteq> 0 \<longrightarrow> uaddr pagetable s va \<in> U)"

definition no_alias :: "uint64 \<Rightarrow> 'a kmem_scheme \<Rightarrow> bool" where
  "no_alias pagetable s \<longleftrightarrow>
     (\<forall>va vb. upage pagetable s va \<noteq> 0 \<longrightarrow> upage pagetable s va = upage pagetable s vb \<longrightarrow>
        PGROUNDDOWN va = PGROUNDDOWN vb)"

lemma PTE2PA_aligned: "unat (PTE2PA v) mod 4096 = 0"
proof -
  have "PTE2PA v AND mask 12 = 0"
    unfolding PTE2PA_def by (rule bit_eqI) (auto simp: bit_simps)
  then have "take_bit 12 (PTE2PA v) = 0" by (simp add: take_bit_eq_mask)
  then have "take_bit 12 (unat (PTE2PA v)) = 0"
    using unsigned_take_bit_eq [of 12 "PTE2PA v", where ?'a = nat] by simp
  then show ?thesis by (simp add: take_bit_eq_mod)
qed

lemma upage_aligned: "unat (upage pagetable s va) mod 4096 = 0"
  by (simp add: upage_eq Let_def PTE2PA_aligned)

lemma uaddr_inj:
  assumes "no_alias pagetable s" and "upage pagetable s va \<noteq> 0"
    and "uaddr pagetable s va = uaddr pagetable s vb"
  shows "va = vb"
proof -
  have in_p: "in_page (upage pagetable s v) (uaddr pagetable s v)" for v
    by (simp add: in_page_def uaddr_def PGROUNDDOWN_offset)
  have same: "upage pagetable s va = upage pagetable s vb"
    using pages_disjoint [OF upage_aligned upage_aligned in_p [of va]] in_p [of vb] assms(3) by simp
  moreover from this assms(1,2) have "PGROUNDDOWN va = PGROUNDDOWN vb"
    unfolding no_alias_def by blast
  ultimately show ?thesis using assms(3) by (simp add: uaddr_def)
qed

lemma user_mem_store:
  assumes "user_mem pagetable s U" and "\<And>a. a \<notin> U \<Longrightarrow> m a = mem s a"
  shows "upage pagetable (s\<lparr>mem := m\<rparr>) va = upage pagetable s va"
    and "uaddr pagetable (s\<lparr>mem := m\<rparr>) va = uaddr pagetable s va"
    and "user_mem pagetable (s\<lparr>mem := m\<rparr>) U"
    and "no_alias pagetable (s\<lparr>mem := m\<rparr>) = no_alias pagetable s"
proof -
  have eq: "upage pagetable (s\<lparr>mem := m\<rparr>) va = upage pagetable s va" for va
    using assms by (simp add: user_mem_def)
  then show "upage pagetable (s\<lparr>mem := m\<rparr>) va = upage pagetable s va" .
  show "uaddr pagetable (s\<lparr>mem := m\<rparr>) va = uaddr pagetable s va" by (simp add: uaddr_def eq)
  show "no_alias pagetable (s\<lparr>mem := m\<rparr>) = no_alias pagetable s" by (simp add: no_alias_def eq)
  show "user_mem pagetable (s\<lparr>mem := m\<rparr>) U"
    unfolding user_mem_def
  proof (intro conjI allI impI)
    fix m' va
    assume "\<forall>a. a \<notin> U \<longrightarrow> m' a = mem (s\<lparr>mem := m\<rparr>) a"
    with assms(2) have "\<forall>a. a \<notin> U \<longrightarrow> m' a = mem s a" by simp
    with assms(1) have "upage pagetable (s\<lparr>mem := m'\<rparr>) va = upage pagetable s va"
      unfolding user_mem_def by blast
    then show "upage pagetable (s\<lparr>mem := m, mem := m'\<rparr>) va = upage pagetable (s\<lparr>mem := m\<rparr>) va"
      by (simp add: eq)
  next
    fix va
    assume "upage pagetable (s\<lparr>mem := m\<rparr>) va \<noteq> 0"
    with assms(1) show "uaddr pagetable (s\<lparr>mem := m\<rparr>) va \<in> U"
      unfolding user_mem_def by (simp add: uaddr_def eq)
  qed
qed

lemma store_bytes_chunk:
  assumes "n \<le> 4096 - unat (va - PGROUNDDOWN va)" and "length bs = n"
  shows "i < n \<Longrightarrow> store_bytes (uaddr pagetable s va) bs m (uaddr pagetable s (va + of_nat i)) = bs ! i"
    and "(\<And>i. i < n \<Longrightarrow> a \<noteq> uaddr pagetable s (va + of_nat i)) \<Longrightarrow>
           store_bytes (uaddr pagetable s va) bs m a = m a"
proof -
  show "store_bytes (uaddr pagetable s va) bs m (uaddr pagetable s (va + of_nat i)) = bs ! i" if "i < n"
  proof -
    have "i < 4096 - unat (va - PGROUNDDOWN va)" using that assms(1) by simp
    then show ?thesis
      using that assms by (simp add: uaddr_within store_bytes_def unat_of_nat)
  qed
  show "store_bytes (uaddr pagetable s va) bs m a = m a"
    if "\<And>i. i < n \<Longrightarrow> a \<noteq> uaddr pagetable s (va + of_nat i)"
  proof (rule ccontr)
    define d where "d = unat (a - uaddr pagetable s va)"
    assume "\<not> ?thesis"
    then have "d < n" using assms(2) by (auto simp: store_bytes_def d_def Let_def split: if_splits)
    then have "uaddr pagetable s (va + of_nat d) = uaddr pagetable s va + of_nat d"
      using assms(1) by (intro uaddr_within) simp
    also have "\<dots> = a" by (simp add: d_def)
    finally show False using that [OF \<open>d < n\<close>] by simp
  qed
qed

definition user_bytes :: "uint64 \<Rightarrow> 'a kmem_scheme \<Rightarrow> uint64 set" where
  "user_bytes pagetable s = {uaddr pagetable s va |va. upage pagetable s va \<noteq> 0}"

lemma user_bytes_subset: "user_mem pagetable s U \<Longrightarrow> user_bytes pagetable s \<subseteq> U"
  by (auto simp: user_bytes_def user_mem_def)

lemma copyout_frame:
  assumes "user_mem pagetable s U"
  shows "\<exists>r m. copyout pagetable dstva src s = Ok (r, s\<lparr>mem := m\<rparr>)
           \<and> (\<forall>a. a \<notin> user_bytes pagetable s \<longrightarrow> m a = mem s a)"
  using assms
proof (induction src arbitrary: dstva s rule: length_induct)
  case (1 src)
  show ?case
  proof (cases "src = []")
    case True
    then have "copyout pagetable dstva src s = Ok (0, s\<lparr>mem := mem s\<rparr>)" by (subst copyout.simps) simp
    then show ?thesis by blast
  next
    case False
    define n where "n = min (4096 - unat (dstva - PGROUNDDOWN dstva)) (length src)"
    note step = copyout_step [OF False n_def, of pagetable s]
    show ?thesis
    proof (cases "upage pagetable s dstva = 0")
      case True
      then have "copyout pagetable dstva src s = Ok (-1, s\<lparr>mem := mem s\<rparr>)" using step by simp
      then show ?thesis by blast
    next
      case nz: False
      let ?m = "store_bytes (uaddr pagetable s dstva) (take n src) (mem s)"
      have n: "n \<le> 4096 - unat (dstva - PGROUNDDOWN dstva)" "length (take n src) = n" by (auto simp: n_def)
      have out: "?m a = mem s a" if "a \<notin> user_bytes pagetable s" for a
      proof (rule store_bytes_chunk(2) [OF n])
        fix i
        assume "i < n"
        then have "upage pagetable s (dstva + of_nat i) = upage pagetable s dstva"
          using n(1) by (intro uaddr_within) simp
        then show "a \<noteq> uaddr pagetable s (dstva + of_nat i)"
          using nz that by (auto simp: user_bytes_def)
      qed
      then have outU: "?m a = mem s a" if "a \<notin> U" for a
        using that user_bytes_subset [OF "1.prems"] by blast
      note keep = user_mem_store [OF "1.prems" outU]
      have ub: "user_bytes pagetable (s\<lparr>mem := ?m\<rparr>) = user_bytes pagetable s"
        by (simp add: user_bytes_def keep(1,2))
      have "length (drop n src) < length src"
        using False chunk_positive [of dstva] by (auto simp: n_def)
      with "1.IH" keep(3) ub obtain r m where
        "copyout pagetable (PGROUNDDOWN dstva + PGSIZE) (drop n src) (s\<lparr>mem := ?m\<rparr>) = Ok (r, s\<lparr>mem := ?m\<rparr>\<lparr>mem := m\<rparr>)"
        "\<forall>a. a \<notin> user_bytes pagetable s \<longrightarrow> m a = mem (s\<lparr>mem := ?m\<rparr>) a" by metis
      then have "copyout pagetable dstva src s = Ok (r, s\<lparr>mem := m\<rparr>)"
        "\<forall>a. a \<notin> user_bytes pagetable s \<longrightarrow> m a = mem s a"
        using step nz out by simp_all
      then show ?thesis by blast
    qed
  qed
qed

lemma nth_chunks:
  assumes "n \<le> 4096 - unat (va - PGROUNDDOWN va)" and "n \<le> len"
    and "n < len \<Longrightarrow> n = 4096 - unat (va - PGROUNDDOWN va)" and "i < len"
  shows "va + of_nat i = (if i < n then va + of_nat i else PGROUNDDOWN va + PGSIZE + of_nat (i - n))"
proof (cases "i < n")
  case False
  from umap_chunks [OF assms(1-3), of "\<lambda>x. x"]
  have "map (\<lambda>i. va + of_nat i) [0..<len] ! i =
      (map (\<lambda>i. va + of_nat i) [0..<n] @ map (\<lambda>i. PGROUNDDOWN va + PGSIZE + of_nat i) [0..<len - n]) ! i"
    by simp
  with False assms(2,4) show ?thesis by (simp add: nth_append)
qed simp

lemma copyout_writes:
  assumes "user_mem pagetable s U" and "no_alias pagetable s" and "length src < 2 ^ 64"
    and "\<And>i. i < length src \<Longrightarrow> upage pagetable s (dstva + of_nat i) \<noteq> 0"
  shows "\<exists>m. copyout pagetable dstva src s = Ok (0, s\<lparr>mem := m\<rparr>)
     \<and> (\<forall>i<length src. m (uaddr pagetable s (dstva + of_nat i)) = src ! i)
     \<and> (\<forall>a. (\<forall>i<length src. a \<noteq> uaddr pagetable s (dstva + of_nat i)) \<longrightarrow> m a = mem s a)"
  using assms
proof (induction src arbitrary: dstva s rule: length_induct)
  case (1 src)
  show ?case
  proof (cases "src = []")
    case True
    then have "copyout pagetable dstva src s = Ok (0, s\<lparr>mem := mem s\<rparr>)" by (subst copyout.simps) simp
    with True show ?thesis by (intro exI [of _ "mem s"]) simp
  next
    case False
    define n where "n = min (4096 - unat (dstva - PGROUNDDOWN dstva)) (length src)"
    let ?next = "PGROUNDDOWN dstva + PGSIZE"
    let ?m = "store_bytes (uaddr pagetable s dstva) (take n src) (mem s)"
    let ?u = "s\<lparr>mem := ?m\<rparr>"
    note mapped = "1.prems"(4)
    have n: "n \<le> 4096 - unat (dstva - PGROUNDDOWN dstva)" "n \<le> length src" "0 < n"
      "n < length src \<Longrightarrow> n = 4096 - unat (dstva - PGROUNDDOWN dstva)" "length (take n src) = n"
      using False chunk_positive [of dstva] by (auto simp: n_def)
    have later: "dstva + of_nat i = ?next + of_nat (i - n)" if "n \<le> i" "i < length src" for i
      using nth_chunks [OF n(1,2,4) that(2)] that(1) by simp
    have nz: "upage pagetable s dstva \<noteq> 0" using mapped [of 0] False by simp
    have out: "?m a = mem s a" if "\<And>i. i < n \<Longrightarrow> a \<noteq> uaddr pagetable s (dstva + of_nat i)" for a
      by (rule store_bytes_chunk(2) [OF n(1,5)]) (rule that)
    have outU: "?m a = mem s a" if "a \<notin> U" for a
      using "1.prems"(1) mapped n(2) that by (intro out) (auto simp: user_mem_def)
    note keep = user_mem_store [OF "1.prems"(1) outU]
    have "\<exists>m. copyout pagetable ?next (drop n src) ?u = Ok (0, ?u\<lparr>mem := m\<rparr>)
      \<and> (\<forall>i<length (drop n src). m (uaddr pagetable ?u (?next + of_nat i)) = drop n src ! i)
      \<and> (\<forall>a. (\<forall>i<length (drop n src). a \<noteq> uaddr pagetable ?u (?next + of_nat i)) \<longrightarrow> m a = mem ?u a)"
    proof (rule "1.IH" [rule_format])
      show "length (drop n src) < length src" using n(3) False by simp
      show "user_mem pagetable ?u U" by (rule keep(3))
      show "no_alias pagetable ?u" using keep(4) "1.prems"(2) by simp
      show "length (drop n src) < 2 ^ 64" using "1.prems"(3) by simp
      fix i
      assume i: "i < length (drop n src)"
      then have eq: "dstva + of_nat (n + i) = ?next + of_nat i" using later [of "n + i"] by simp
      have "upage pagetable s (dstva + of_nat (n + i)) \<noteq> 0" by (rule mapped) (use i in simp)
      then show "upage pagetable ?u (?next + of_nat i) \<noteq> 0" unfolding eq by (simp add: keep(1))
    qed
    then obtain m where m: "copyout pagetable ?next (drop n src) ?u = Ok (0, ?u\<lparr>mem := m\<rparr>)"
      and mr: "\<And>i. i < length src - n \<Longrightarrow> m (uaddr pagetable s (?next + of_nat i)) = src ! (n + i)"
      and mo: "\<And>a. (\<And>i. i < length src - n \<Longrightarrow> a \<noteq> uaddr pagetable s (?next + of_nat i)) \<Longrightarrow> m a = ?m a"
      by (auto simp: keep(2))
    have inj: "uaddr pagetable s (dstva + of_nat i) \<noteq> uaddr pagetable s (dstva + of_nat j)"
      if "i < length src" "j < length src" "i \<noteq> j" for i j
    proof
      assume "uaddr pagetable s (dstva + of_nat i) = uaddr pagetable s (dstva + of_nat j)"
      from uaddr_inj [OF "1.prems"(2) mapped [OF that(1)] this] have "(of_nat i :: uint64) = of_nat j" by simp
      then have "unat (of_nat i :: uint64) = unat (of_nat j :: uint64)" by simp
      with that "1.prems"(3) show False by (simp add: unat_of_nat)
    qed
    have r1: "m (uaddr pagetable s (dstva + of_nat i)) = src ! i" if i: "i < length src" for i
    proof (cases "i < n")
      case True
      have "m (uaddr pagetable s (dstva + of_nat i)) = ?m (uaddr pagetable s (dstva + of_nat i))"
      proof (rule mo)
        fix j
        assume "j < length src - n"
        then have "?next + of_nat j = dstva + of_nat (n + j)" using later [of "n + j"] by simp
        moreover have "uaddr pagetable s (dstva + of_nat i) \<noteq> uaddr pagetable s (dstva + of_nat (n + j))"
          by (rule inj) (use True i \<open>j < length src - n\<close> in simp_all)
        ultimately show "uaddr pagetable s (dstva + of_nat i) \<noteq> uaddr pagetable s (?next + of_nat j)"
          by (simp only:) simp
      qed
      also have "\<dots> = take n src ! i" by (rule store_bytes_chunk(1) [OF n(1,5) True])
      finally show ?thesis using True by simp
    next
      case False
      then have "dstva + of_nat i = ?next + of_nat (i - n)" using i by (intro later) simp_all
      moreover have "m (uaddr pagetable s (?next + of_nat (i - n))) = src ! (n + (i - n))"
        by (rule mr) (use False i in simp)
      ultimately show ?thesis using False by (simp only:) simp
    qed
    have r2: "m a = mem s a" if a: "\<And>i. i < length src \<Longrightarrow> a \<noteq> uaddr pagetable s (dstva + of_nat i)" for a
    proof -
      have "m a = ?m a"
      proof (rule mo)
        fix j
        assume "j < length src - n"
        then have "?next + of_nat j = dstva + of_nat (n + j)" using later [of "n + j"] by simp
        moreover have "a \<noteq> uaddr pagetable s (dstva + of_nat (n + j))"
          by (rule a) (use \<open>j < length src - n\<close> in simp)
        ultimately show "a \<noteq> uaddr pagetable s (?next + of_nat j)" by (simp only:) simp
      qed
      also have "\<dots> = mem s a" using a n(2) by (intro out) auto
      finally show ?thesis .
    qed
    have "copyout pagetable dstva src s = Ok (0, s\<lparr>mem := m\<rparr>)"
      using copyout_step [OF False n_def, of pagetable s] nz m by simp
    with r1 r2 show ?thesis by blast
  qed
qed

text \<open>
  C19. \<^verbatim>\<open>copyout\<close> then \<^verbatim>\<open>copyin\<close>: when every destination address is mapped for the user, the page table
  lies outside the user's memory and no page is mapped twice, \<^verbatim>\<open>copyout\<close> returns 0, \<^verbatim>\<open>copyin\<close> of the same
  range then returns 0 and exactly the bytes that were copied out, across any number of pages, and no
  byte of memory outside the translations of the range has changed.
\<close>

theorem copyout_copyin:
  assumes "user_mem pagetable s U" and "no_alias pagetable s" and "length src < 2 ^ 64"
    and "\<And>i. i < length src \<Longrightarrow> upage pagetable s (dstva + of_nat i) \<noteq> 0"
  shows "\<exists>t. copyout pagetable dstva src s = Ok (0, t)
     \<and> copyin pagetable dstva (length src) t = Ok (0, src)
     \<and> (\<forall>a. a \<notin> (\<lambda>i. uaddr pagetable s (dstva + of_nat i)) ` {..<length src} \<longrightarrow> mem t a = mem s a)"
proof -
  from copyout_writes [OF assms] obtain m where
    m: "copyout pagetable dstva src s = Ok (0, s\<lparr>mem := m\<rparr>)"
    and wr: "\<And>i. i < length src \<Longrightarrow> m (uaddr pagetable s (dstva + of_nat i)) = src ! i"
    and out: "\<And>a. (\<And>i. i < length src \<Longrightarrow> a \<noteq> uaddr pagetable s (dstva + of_nat i)) \<Longrightarrow> m a = mem s a"
    by metis
  have "m a = mem s a" if "a \<notin> U" for a
    using assms(1,4) that by (intro out) (auto simp: user_mem_def)
  note keep = user_mem_store [OF assms(1) this]
  have "map (\<lambda>i. ubyte pagetable (s\<lparr>mem := m\<rparr>) (dstva + of_nat i)) [0..<length src] = src"
    by (rule nth_equalityI) (simp_all add: ubyte_def keep(2) wr)
  with copyin_bytes [of "length src" pagetable "s\<lparr>mem := m\<rparr>" dstva] assms(4)
  have "copyin pagetable dstva (length src) (s\<lparr>mem := m\<rparr>) = Ok (0, src)" by (simp add: keep(1))
  with m out show ?thesis by auto
qed

text \<open>A user page table that maps the page at 0, in memory that is zero elsewhere.\<close>

definition user_example :: kmem where
  "user_example = (boot_kmem 0)\<lparr>mem :=
     store64 0x87FFC000 (PA2PTE 0x87FFD000 OR PTE_V)
      (store64 0x87FFD000 (PA2PTE 0x87FFE000 OR PTE_V)
        (store64 0x87FFE000 (PA2PTE 0x87FFF000 OR PTE_W OR PTE_R OR PTE_U OR PTE_V)
          (store_bytes 0x87FFF000 [104, 105, 0] (\<lambda>_. 0))))\<rparr>"

lemma user_example_mem:
  "load64 (mem user_example) 0x87FFC000 = PA2PTE 0x87FFD000 OR PTE_V"
  "load64 (mem user_example) 0x87FFD000 = PA2PTE 0x87FFE000 OR PTE_V"
  "load64 (mem user_example) 0x87FFE000 = PA2PTE 0x87FFF000 OR PTE_W OR PTE_R OR PTE_U OR PTE_V"
  by (simp_all add: user_example_def load64_store64_other)

lemma walk_down_lookup:
  "walk_down 2 pagetable va False s =
     (let v2 = load64 (mem s) (pagetable + 8 * PX 2 va); v1 = load64 (mem s) (PTE2PA v2 + 8 * PX 1 va)
      in if v2 AND PTE_V \<noteq> 0 \<and> v1 AND PTE_V \<noteq> 0 then (PTE2PA v1 + 8 * PX 0 va, s) else (0, s))"
  by (simp add: numeral_2_eq_2 Let_def)

lemma user_example_upage: "upage 0x87FFC000 user_example 0 = 0x87FFF000"
  by (simp add: upage_def walkaddr_def walk_def walk_down_lookup Let_def user_example_mem
      PX_def PXSHIFT_def MAXVA_def PGROUNDDOWN_def PTE2PA_def PA2PTE_def PTE_V_def PTE_W_def PTE_R_def PTE_U_def)

lemma user_example_bytes: "mem user_example (0x87FFF000 + a) = (if unat a < 3 then [104, 105, 0] ! unat a else 0)"
  if "unat a < 4096"
  using that by (simp add: user_example_def store64_def store_bytes_def Let_def unat_word_ariths)

theorem copyin_spec_witness: "copyin 0x87FFC000 0 3 user_example = Ok (0, [104, 105, 0])"
proof -
  have page: "upage 0x87FFC000 user_example (0 + of_nat i) = 0x87FFF000" if "i < 3" for i
    using that by (subst uaddr_within(1)) (simp_all add: user_example_upage PGROUNDDOWN_def)
  have byte: "ubyte 0x87FFC000 user_example (0 + of_nat i) = [104, 105, 0] ! i" if "i < 3" for i
  proof -
    have "PGROUNDDOWN (of_nat i) = 0"
      using that by (simp add: word_unat_eq_iff unat_PGROUNDDOWN unat_of_nat)
    with page [OF that] that user_example_bytes [of "of_nat i"] show ?thesis
      by (simp add: ubyte_def uaddr_def unat_of_nat)
  qed
  with copyin_spec [of 3 "0x87FFC000" user_example 0] page byte [of 0] byte [of 1] byte [of 2]
  show ?thesis by (simp add: upt_conv_Cons)
qed

lemma before_page:
  fixes a :: uint64
  assumes "unat a < 4096"
  shows "4096 \<le> unat (a - 4096)" and "4096 \<le> unat (a - 8192)" and "4096 \<le> unat (a - 12288)"
    and "4096 \<le> unat (4096 + a)" and "4096 \<le> unat (8192 + a)"
  using assms by (simp_all add: unat_sub_if_size word_size unat_word_ariths)

lemma user_example_zero:
  assumes "8 \<le> unat a" and "unat a < 4096" and "b \<in> {0x87FFC000, 0x87FFD000, 0x87FFE000}"
  shows "mem user_example (b + a) = 0"
  using assms(1,3) before_page [OF assms(2)]
  by (auto simp: user_example_def store64_def store_bytes_def Let_def boot_kmem_def)

lemma user_example_load:
  assumes "0 < unat x" and "unat x < 512" and "b \<in> {0x87FFC000, 0x87FFD000, 0x87FFE000}"
    and "\<And>a. in_page b a \<Longrightarrow> m a = mem user_example a"
  shows "load64 m (b + 8 * x) = 0"
proof -
  have "load64 m (b + 8 * x) = load64 (\<lambda>_. 0) (b + 8 * x)"
  proof (rule load64_cong)
    fix i :: nat
    assume i: "i < 8"
    let ?a = "8 * x + of_nat i"
    have a: "unat ?a = 8 * unat x + i" using assms(2) i by (simp add: unat_word_ariths unat_of_nat)
    with assms(1,2) i have "8 \<le> unat ?a" "unat ?a < 4096" by simp_all
    moreover from this(2) have "in_page b (b + ?a)" by (simp add: in_page_def)
    ultimately show "m (b + 8 * x + of_nat i) = 0"
      using assms(3,4) user_example_zero [of ?a b] by (simp add: add.assoc)
  qed
  then show ?thesis by (simp add: load64_zero)
qed

text \<open>What the three pages of the page table hold determines the translation.\<close>

definition example_tables :: "memory \<Rightarrow> bool" where
  "example_tables m \<longleftrightarrow> (\<forall>b\<in>{0x87FFC000, 0x87FFD000, 0x87FFE000}. \<forall>a. in_page b a \<longrightarrow> m a = mem user_example a)"

lemma user_example_tables:
  assumes "example_tables m"
  shows "load64 m 0x87FFC000 = PA2PTE 0x87FFD000 OR PTE_V"
    and "load64 m 0x87FFD000 = PA2PTE 0x87FFE000 OR PTE_V"
    and "load64 m 0x87FFE000 = PA2PTE 0x87FFF000 OR PTE_W OR PTE_R OR PTE_U OR PTE_V"
proof -
  have "load64 m b = load64 (mem user_example) b" if "b \<in> {0x87FFC000, 0x87FFD000, 0x87FFE000}" for b
  proof (rule load64_cong)
    fix i :: nat
    assume "i < 8"
    then have "in_page b (b + of_nat i)" by (simp add: in_page_def unat_of_nat)
    with assms that show "m (b + of_nat i) = mem user_example (b + of_nat i)"
      unfolding example_tables_def by blast
  qed
  then show "load64 m 0x87FFC000 = PA2PTE 0x87FFD000 OR PTE_V"
    and "load64 m 0x87FFD000 = PA2PTE 0x87FFE000 OR PTE_V"
    and "load64 m 0x87FFE000 = PA2PTE 0x87FFF000 OR PTE_W OR PTE_R OR PTE_U OR PTE_V"
    by (simp_all add: user_example_mem)
qed

lemma user_example_translation:
  assumes "example_tables m"
  shows "upage 0x87FFC000 (user_example\<lparr>mem := m\<rparr>) va = (if PGROUNDDOWN va = 0 then 0x87FFF000 else 0)"
proof -
  let ?a = "PGROUNDDOWN va"
  note tab = user_example_tables [OF assms]
  have zero: "load64 m (b + 8 * PX l ?a) = 0" if "PX l ?a \<noteq> 0" "b \<in> {0x87FFC000, 0x87FFD000, 0x87FFE000}" for l b
    using that PX_less [of l ?a] assms
    by (intro user_example_load) (auto simp: unat_gt_0 example_tables_def)
  have pte: "PTE2PA (PA2PTE 0x87FFD000 OR PTE_V) = 0x87FFD000" "PTE2PA (PA2PTE 0x87FFE000 OR PTE_V) = 0x87FFE000"
    "PTE2PA (PA2PTE 0x87FFF000 OR PTE_W OR PTE_R OR PTE_U OR PTE_V) = 0x87FFF000"
    "(PA2PTE 0x87FFD000 OR PTE_V) AND PTE_V \<noteq> 0" "(PA2PTE 0x87FFE000 OR PTE_V) AND PTE_V \<noteq> 0"
    "(PA2PTE 0x87FFF000 OR PTE_W OR PTE_R OR PTE_U OR PTE_V) AND PTE_V \<noteq> 0"
    "(PA2PTE 0x87FFF000 OR PTE_W OR PTE_R OR PTE_U OR PTE_V) AND PTE_U \<noteq> 0"
    by (simp_all add: PTE2PA_def PA2PTE_def PTE_V_def PTE_W_def PTE_R_def PTE_U_def)
  show ?thesis
  proof (cases "PX 2 ?a = 0 \<and> PX 1 ?a = 0 \<and> PX 0 ?a = 0 \<and> ?a < MAXVA")
    case True
    then have "PGROUNDDOWN ?a = PGROUNDDOWN 0"
      by (intro PX_page) (simp_all add: PX_def MAXVA_def)
    then have "?a = 0" by (simp add: PGROUNDDOWN_idem) (simp add: PGROUNDDOWN_def)
    with True show ?thesis
      by (simp add: upage_eq walk_down_lookup Let_def tab pte not_le) (simp add: PTE_V_def MAXVA_def)
  next
    case False
    then have "?a \<noteq> 0" by (auto simp: PX_def MAXVA_def)
    with False zero [of 2 "0x87FFC000"] zero [of 1 "0x87FFD000"] zero [of 0 "0x87FFE000"] show ?thesis
      by (cases "PX 2 ?a = 0"; cases "PX 1 ?a = 0"; cases "PX 0 ?a = 0")
         (simp_all add: upage_eq walk_down_lookup Let_def tab pte not_less)
  qed
qed

lemma user_example_upage_eq:
  "upage 0x87FFC000 user_example va = (if PGROUNDDOWN va = 0 then 0x87FFF000 else 0)"
  using user_example_translation [of "mem user_example" va] by (simp add: example_tables_def)

lemma user_example_bytes_eq: "user_bytes 0x87FFC000 user_example \<subseteq> {a. in_page 0x87FFF000 a}"
proof -
  have "unat va < 4096" if "PGROUNDDOWN va = 0" for va
  proof -
    from PGROUNDDOWN_offset [of va] that have "unat va = unat va mod 4096" by simp
    also have "\<dots> < 4096" by simp
    finally show ?thesis .
  qed
  then show ?thesis
    by (auto simp: user_bytes_def user_example_upage_eq uaddr_def in_page_def split: if_splits)
qed

lemma user_example_no_alias: "no_alias 0x87FFC000 user_example"
  by (auto simp: no_alias_def user_example_upage_eq split: if_splits)

lemma user_example_user_mem:
  assumes "{a. in_page 0x87FFF000 a} \<subseteq> V"
    and "\<And>b a. b \<in> {0x87FFC000, 0x87FFD000, 0x87FFE000} \<Longrightarrow> in_page b a \<Longrightarrow> a \<notin> V"
  shows "user_mem 0x87FFC000 user_example V"
  unfolding user_mem_def
proof (intro conjI allI impI)
  fix m va
  assume "\<forall>a. a \<notin> V \<longrightarrow> m a = mem user_example a"
  with assms(2) have "example_tables m" unfolding example_tables_def by blast
  then show "upage 0x87FFC000 (user_example\<lparr>mem := m\<rparr>) va = upage 0x87FFC000 user_example va"
    by (simp add: user_example_upage_eq user_example_translation)
next
  fix va
  assume "upage 0x87FFC000 user_example va \<noteq> 0"
  then have "uaddr 0x87FFC000 user_example va \<in> user_bytes 0x87FFC000 user_example"
    unfolding user_bytes_def by blast
  with user_example_bytes_eq assms(1) show "uaddr 0x87FFC000 user_example va \<in> V" by blast
qed

text \<open>Pages at different page-aligned addresses have no byte in common.\<close>

lemma page_apart: "x \<noteq> y \<Longrightarrow> unat x mod 4096 = 0 \<Longrightarrow> unat y mod 4096 = 0 \<Longrightarrow> in_page x a \<Longrightarrow> \<not> in_page y a"
  using pages_disjoint [of x y a] by auto

lemma user_example_ok:
  "user_mem 0x87FFC000 user_example {a. in_page 0x87FFF000 a}"
proof (rule user_example_user_mem)
  fix b a
  assume "b \<in> {0x87FFC000, 0x87FFD000, 0x87FFE000}" and "in_page b a"
  with page_apart [of b "0x87FFF000" a] show "a \<notin> {a. in_page 0x87FFF000 a}" by auto
qed simp

theorem copyout_copyin_witness:
  "\<exists>t. copyout 0x87FFC000 100 [1, 2, 3] user_example = Ok (0, t)
     \<and> copyin 0x87FFC000 100 (length [1 :: uchar, 2, 3]) t = Ok (0, [1, 2, 3])
     \<and> (\<forall>a. a \<notin> (\<lambda>i. uaddr 0x87FFC000 user_example (100 + of_nat i)) ` {..<length [1 :: uchar, 2, 3]} \<longrightarrow>
          mem t a = mem user_example a)"
proof (rule copyout_copyin [OF user_example_ok user_example_no_alias])
  fix i
  assume i: "i < length [1 :: uchar, 2, 3]"
  have "PGROUNDDOWN (100 + of_nat i) = PGROUNDDOWN 100"
    by (rule PGROUNDDOWN_within) (use i in \<open>simp add: PGROUNDDOWN_def PGSIZE_def\<close>)
  then show "upage 0x87FFC000 user_example (100 + of_nat i) \<noteq> 0"
    by (simp add: user_example_upage_eq PGROUNDDOWN_def PGSIZE_def)
qed simp

end
