(* ===== verification/Proc.thy ===== *)
theory Proc
  imports UserCopy
begin

text \<open>
  The process table of \<^verbatim>\<open>kernel/proc.h\<close> and the part of \<^verbatim>\<open>kernel/proc.c\<close> that creates and destroys
  processes and threads: \<^verbatim>\<open>procinit\<close>, \<^verbatim>\<open>allocproc\<close>, \<^verbatim>\<open>allocthread\<close>, \<^verbatim>\<open>freeproc\<close>, \<^verbatim>\<open>freethread\<close>, the
  page table of a process, and \<^verbatim>\<open>growproc\<close>; with \<^verbatim>\<open>kvmmake\<close> of \<^verbatim>\<open>kernel/vm.c\<close>, which maps the kernel
  stacks of this table.

  A \<^verbatim>\<open>struct proc *\<close> is an index into \<^verbatim>\<open>proc[NPROC]\<close>, a \<^verbatim>\<open>struct thread *\<close> a pair of a process and an
  index into its \<^verbatim>\<open>threads[NTHREAD]\<close>. Trapframes are where the kernel has them, in pages of physical
  memory. \<^verbatim>\<open>p->lock\<close>, \<^verbatim>\<open>wait_lock\<close> and \<^verbatim>\<open>bsem_lock\<close> are taken and released as in the source; the
  critical sections under \<^verbatim>\<open>pid_lock\<close> and \<^verbatim>\<open>tid_lock\<close> are single steps.
\<close>

subsection \<open>Data (kernel/proc.h)\<close>

datatype procstate = UNUSED | USED | SLEEPING | RUNNABLE | RUNNING | ZOMBIE

primrec enum_value :: "procstate \<Rightarrow> nat" where
  "enum_value UNUSED = 0"
| "enum_value USED = 1"
| "enum_value SLEEPING = 2"
| "enum_value RUNNABLE = 3"
| "enum_value RUNNING = 4"
| "enum_value ZOMBIE = 5"

lemma enum_value_inj: "enum_value x = enum_value y \<Longrightarrow> x = y"
  by (cases x; cases y) auto

instantiation procstate :: linorder
begin

definition less_eq_procstate :: "procstate \<Rightarrow> procstate \<Rightarrow> bool" where
  "x \<le> y \<longleftrightarrow> enum_value x \<le> enum_value y"

definition less_procstate :: "procstate \<Rightarrow> procstate \<Rightarrow> bool" where
  "x < y \<longleftrightarrow> enum_value x < enum_value y"

instance
  by standard (auto simp: less_eq_procstate_def less_procstate_def dest: enum_value_inj)

end

record thread =
  t_id :: int
  t_state :: procstate
  tproc :: "nat option"
  t_kstack :: uint64
  t_trapframe :: uint64
  t_context :: kcontext
  t_chan :: "chan option"
  t_killed :: int
  t_xstate :: int
  user_trap_frame_backup :: uint64

record proc =
  p_lock :: spinlock
  p_state :: procstate
  p_chan :: "chan option"
  p_killed :: int
  p_xstate :: int
  p_pid :: int
  p_parent :: "nat option"
  p_sz :: uint64
  p_pagetable :: uint64
  p_trapframe :: uint64
  ofile :: "nat \<Rightarrow> nat option"   \<comment> \<open>index into \<^verbatim>\<open>ftable.file\<close>\<close>
  cwd :: "nat option"           \<comment> \<open>index into \<^verbatim>\<open>itable.inode\<close>\<close>
  p_name :: "uchar list"
  pendding_signals :: uint
  signal_mask :: uint
  signal_handlers :: "nat \<Rightarrow> uint64"
  signal_handlers_mask :: "nat \<Rightarrow> uint"
  frozen :: int
  signal_mask_backup :: uint
  signal_handling_flag :: int
  threads :: "nat \<Rightarrow> thread"

record bsem =
  b_state :: int
  bid :: int
  unlocked :: int

record kernel = kmem +
  procs :: "nat \<Rightarrow> proc"
  initproc :: "nat option"
  nextpid :: int
  nexttid :: int
  wait_lock :: spinlock
  bsem_lock :: spinlock
  bsems :: "nat \<Rightarrow> bsem"
  k_forkret :: uint64           \<comment> \<open>the address of \<^verbatim>\<open>forkret\<close>\<close>
  k_trampoline :: uint64        \<comment> \<open>the address of \<^verbatim>\<open>trampoline\<close>\<close>
  k_sigcode :: "uchar list"     \<comment> \<open>the code between \<^verbatim>\<open>startCalcSize\<close> and \<^verbatim>\<open>endFunc\<close>\<close>

definition upd_proc :: "nat \<Rightarrow> (proc \<Rightarrow> proc) \<Rightarrow> 'a kernel_scheme \<Rightarrow> 'a kernel_scheme" where
  "upd_proc p f s = s\<lparr>procs := (procs s)(p := f (procs s p))\<rparr>"

definition upd_thread :: "nat \<Rightarrow> nat \<Rightarrow> (thread \<Rightarrow> thread) \<Rightarrow> 'a kernel_scheme \<Rightarrow> 'a kernel_scheme" where
  "upd_thread p i f s = upd_proc p (\<lambda>pr. pr\<lparr>threads := (threads pr)(i := f (threads pr i))\<rparr>) s"

definition thr :: "nat \<Rightarrow> nat \<Rightarrow> 'a kernel_scheme \<Rightarrow> thread" where
  "thr p i s = threads (procs s p) i"

subsection \<open>Locks of the process table\<close>

definition acquire_p :: "nat \<Rightarrow> 'a kernel_scheme \<Rightarrow> 'a kernel_scheme result" where
  "acquire_p p s =
     bindR (acquire (p_lock (procs s p)) s) (\<lambda>(lk, s). Ok (upd_proc p (\<lambda>pr. pr\<lparr>p_lock := lk\<rparr>) s))"

definition release_p :: "nat \<Rightarrow> 'a kernel_scheme \<Rightarrow> 'a kernel_scheme result" where
  "release_p p s =
     bindR (release (p_lock (procs s p)) s) (\<lambda>(lk, s). Ok (upd_proc p (\<lambda>pr. pr\<lparr>p_lock := lk\<rparr>) s))"

definition acquire_wait :: "'a kernel_scheme \<Rightarrow> 'a kernel_scheme result" where
  "acquire_wait s = bindR (acquire (wait_lock s) s) (\<lambda>(lk, s). Ok (s\<lparr>wait_lock := lk\<rparr>))"

definition release_wait :: "'a kernel_scheme \<Rightarrow> 'a kernel_scheme result" where
  "release_wait s = bindR (release (wait_lock s) s) (\<lambda>(lk, s). Ok (s\<lparr>wait_lock := lk\<rparr>))"

definition acquire_bsem :: "'a kernel_scheme \<Rightarrow> 'a kernel_scheme result" where
  "acquire_bsem s = bindR (acquire (bsem_lock s) s) (\<lambda>(lk, s). Ok (s\<lparr>bsem_lock := lk\<rparr>))"

definition release_bsem :: "'a kernel_scheme \<Rightarrow> 'a kernel_scheme result" where
  "release_bsem s = bindR (release (bsem_lock s) s) (\<lambda>(lk, s). Ok (s\<lparr>bsem_lock := lk\<rparr>))"

subsection \<open>The running process and thread\<close>

definition myproc :: "'a kernel_scheme \<Rightarrow> (nat option \<times> 'a kernel_scheme) result" where
  "myproc s = (let s = push_off s; p = c_proc (mycpu s) in bindR (pop_off s) (\<lambda>s. Ok (p, s)))"

definition mythread :: "'a kernel_scheme \<Rightarrow> ((nat \<times> nat) option \<times> 'a kernel_scheme) result" where
  "mythread s = (let s = push_off s; t = c_thread (mycpu s) in bindR (pop_off s) (\<lambda>s. Ok (t, s)))"

text \<open>Code that reads a field through \<^verbatim>\<open>myproc()\<close> or \<^verbatim>\<open>mythread()\<close> has no defined meaning when they are 0.\<close>

definition with_proc :: "(nat \<Rightarrow> 'a kernel_scheme \<Rightarrow> 'b result) \<Rightarrow> 'a kernel_scheme \<Rightarrow> 'b result" where
  "with_proc f s = bindR (myproc s) (\<lambda>(p, s). case p of None \<Rightarrow> Undef ''no process'' | Some p \<Rightarrow> f p s)"

definition with_thread :: "(nat \<Rightarrow> nat \<Rightarrow> 'a kernel_scheme \<Rightarrow> 'b result) \<Rightarrow> 'a kernel_scheme \<Rightarrow> 'b result" where
  "with_thread f s =
     bindR (mythread s) (\<lambda>(t, s). case t of None \<Rightarrow> Undef ''no thread'' | Some (q, i) \<Rightarrow> f q i s)"

subsection \<open>Trapframes\<close>

text \<open>Offsets of the fields of \<^verbatim>\<open>struct trapframe\<close>, and its size.\<close>

definition TF_kernel_satp :: uint64 where "TF_kernel_satp = 0"
definition TF_kernel_sp :: uint64 where "TF_kernel_sp = 8"
definition TF_kernel_trap :: uint64 where "TF_kernel_trap = 16"
definition TF_epc :: uint64 where "TF_epc = 24"
definition TF_kernel_hartid :: uint64 where "TF_kernel_hartid = 32"
definition TF_ra :: uint64 where "TF_ra = 40"
definition TF_sp :: uint64 where "TF_sp = 48"
definition TF_a :: "nat \<Rightarrow> uint64" where "TF_a n = 112 + 8 * of_nat n"   \<comment> \<open>a0 to a7\<close>
definition TF_SIZE :: nat where "TF_SIZE = 288"

lemmas TF_defs = TF_kernel_satp_def TF_kernel_sp_def TF_kernel_trap_def TF_epc_def
  TF_kernel_hartid_def TF_ra_def TF_sp_def TF_a_def TF_SIZE_def

definition tf_get :: "uint64 \<Rightarrow> uint64 \<Rightarrow> 'a kernel_scheme \<Rightarrow> uint64 result" where
  "tf_get tf off s = (if tf = 0 then Undef ''null trapframe'' else Ok (load64 (mem s) (tf + off)))"

definition tf_set :: "uint64 \<Rightarrow> uint64 \<Rightarrow> uint64 \<Rightarrow> 'a kernel_scheme \<Rightarrow> 'a kernel_scheme result" where
  "tf_set tf off v s =
     (if tf = 0 then Undef ''null trapframe'' else Ok (s\<lparr>mem := store64 (tf + off) v (mem s)\<rparr>))"

text \<open>The structure assignment \<^verbatim>\<open>*dst = *src\<close>.\<close>

definition tf_copy :: "uint64 \<Rightarrow> uint64 \<Rightarrow> 'a kernel_scheme \<Rightarrow> 'a kernel_scheme result" where
  "tf_copy dst src s =
     (if dst = 0 \<or> src = 0 then Undef ''null trapframe''
      else Ok (s\<lparr>mem := store_bytes dst (load_bytes src TF_SIZE (mem s)) (mem s)\<rparr>))"

subsection \<open>Booting the process table\<close>

definition UART0 :: uint64 where "UART0 = 0x10000000"
definition VIRTIO0 :: uint64 where "VIRTIO0 = 0x10001000"
definition PLIC :: uint64 where "PLIC = 0x0c000000"

definition proc_mapstacks :: "uint64 \<Rightarrow> 'a kmem_scheme \<Rightarrow> 'a kmem_scheme result" where
  "proc_mapstacks kpgtbl =
     foldR (\<lambda>p. foldR (\<lambda>t s.
       let (pa, s) = kalloc s
       in if pa = 0 then Panic ''kalloc''
          else kvmmap kpgtbl (KSTACK (NTHREAD * p + t)) pa PGSIZE (PTE_R OR PTE_W) s)
       [0..<NTHREAD]) [0..<NPROC]"

definition kvmmake :: "uint64 \<Rightarrow> uint64 \<Rightarrow> 'a kmem_scheme \<Rightarrow> (uint64 \<times> 'a kmem_scheme) result" where
  "kvmmake etext trampoline s =
     (let (kpgtbl, s) = kalloc s;
          s = s\<lparr>mem := memset kpgtbl 0 4096 (mem s)\<rparr>
      in bindR (kvmmap kpgtbl UART0 UART0 PGSIZE (PTE_R OR PTE_W) s) (\<lambda>s.
         bindR (kvmmap kpgtbl VIRTIO0 VIRTIO0 PGSIZE (PTE_R OR PTE_W) s) (\<lambda>s.
         bindR (kvmmap kpgtbl PLIC PLIC 0x400000 (PTE_R OR PTE_W) s) (\<lambda>s.
         bindR (kvmmap kpgtbl KERNBASE KERNBASE (etext - KERNBASE) (PTE_R OR PTE_X) s) (\<lambda>s.
         bindR (kvmmap kpgtbl etext etext (PHYSTOP - etext) (PTE_R OR PTE_W) s) (\<lambda>s.
         bindR (kvmmap kpgtbl TRAMPOLINE trampoline PGSIZE (PTE_R OR PTE_X) s) (\<lambda>s.
         bindR (proc_mapstacks kpgtbl s) (\<lambda>s. Ok (kpgtbl, s)))))))))"

definition procinit :: "'a kernel_scheme \<Rightarrow> 'a kernel_scheme" where
  "procinit s =
     s\<lparr>wait_lock := initlock ''wait_lock'' (wait_lock s),
       bsem_lock := initlock ''bsem'' (bsem_lock s),
       procs := (\<lambda>p. if p < NPROC
         then (procs s p)
           \<lparr>p_lock := initlock ''proc'' (p_lock (procs s p)),
            threads := (\<lambda>t. if t < NTHREAD
              then (thr p t s)\<lparr>t_kstack := KSTACK (NTHREAD * p + t)\<rparr> else thr p t s),
            signal_handlers := (\<lambda>i. if i < 32 then SIG_DFL else signal_handlers (procs s p) i),
            signal_handlers_mask := (\<lambda>i. if i < 32 then 0 else signal_handlers_mask (procs s p) i),
            frozen := 0, signal_handling_flag := 0\<rparr>
         else procs s p)\<rparr>"

subsection \<open>Page tables of processes\<close>

definition proc_pagetable :: "uint64 \<Rightarrow> 'a kernel_scheme \<Rightarrow> (uint64 \<times> 'a kernel_scheme) result" where
  "proc_pagetable trapframe s =
     (let (pt, s) = uvmcreate s
      in if pt = 0 then Ok (0, s)
         else bindR (mappages pt TRAMPOLINE PGSIZE (k_trampoline s) (PTE_R OR PTE_X) s) (\<lambda>(r, s).
           if r < 0 then bindR (uvmfree pt 0 s) (\<lambda>s. Ok (0, s))
           else bindR (mappages pt TRAPFRAME PGSIZE trapframe (PTE_R OR PTE_W) s) (\<lambda>(r, s).
             if r < 0
             then bindR (uvmunmap pt TRAMPOLINE 1 False s) (\<lambda>s.
                  bindR (uvmfree pt 0 s) (\<lambda>s. Ok (0, s)))
             else Ok (pt, s))))"

definition proc_freepagetable :: "uint64 \<Rightarrow> uint64 \<Rightarrow> 'a kmem_scheme \<Rightarrow> 'a kmem_scheme result" where
  "proc_freepagetable pt n s =
     bindR (uvmunmap pt TRAMPOLINE 1 False s) (\<lambda>s.
     bindR (uvmunmap pt TRAPFRAME 1 False s) (uvmfree pt n))"

subsection \<open>Allocating and freeing processes and threads\<close>

definition INT_MAX :: int where "INT_MAX = 2147483647"

definition allocpid :: "'a kernel_scheme \<Rightarrow> (int \<times> 'a kernel_scheme) result" where
  "allocpid s =
     (if nextpid s = INT_MAX then Undef ''nextpid overflows''
      else Ok (nextpid s, s\<lparr>nextpid := nextpid s + 1\<rparr>))"

definition alloctid :: "'a kernel_scheme \<Rightarrow> (int \<times> 'a kernel_scheme) result" where
  "alloctid s =
     (if nexttid s = INT_MAX then Undef ''nexttid overflows''
      else Ok (nexttid s, s\<lparr>nexttid := nexttid s + 1\<rparr>))"

definition freethread :: "nat \<Rightarrow> nat \<Rightarrow> 'a kernel_scheme \<Rightarrow> 'a kernel_scheme result" where
  "freethread p i s =
     bindR (if user_trap_frame_backup (thr p i s) \<noteq> 0 then kfree (user_trap_frame_backup (thr p i s)) s
            else Ok s) (\<lambda>s.
       Ok (upd_thread p i (\<lambda>t. t\<lparr>user_trap_frame_backup := 0, t_id := 0, tproc := None, t_chan := None,
             t_killed := 0, t_xstate := 0, t_state := UNUSED\<rparr>) s))"

definition freeproc :: "nat \<Rightarrow> 'a kernel_scheme \<Rightarrow> 'a kernel_scheme result" where
  "freeproc p s =
     bindR (foldR (\<lambda>i s.
         if t_state (thr p i s) \<noteq> UNUSED \<and> t_state (thr p i s) \<noteq> RUNNING
         then freethread p i (upd_thread p i (\<lambda>t. t\<lparr>t_trapframe := 0\<rparr>) s)
         else Ok s) [0..<NTHREAD] s) (\<lambda>s.
     bindR (if p_trapframe (procs s p) \<noteq> 0 then kfree (p_trapframe (procs s p)) s else Ok s) (\<lambda>s.
     let s = upd_proc p (\<lambda>pr. pr\<lparr>p_trapframe := 0\<rparr>) s in
     bindR (if p_pagetable (procs s p) \<noteq> 0
            then proc_freepagetable (p_pagetable (procs s p)) (p_sz (procs s p)) s else Ok s) (\<lambda>s.
     Ok (upd_proc p (\<lambda>pr. pr\<lparr>p_pagetable := 0, p_sz := 0, p_pid := 0, p_parent := None,
           p_name := (p_name pr)[0 := 0], p_chan := None, p_killed := 0, p_xstate := 0,
           p_state := UNUSED\<rparr>) s))))"

definition allocthread :: "nat \<Rightarrow> 'a kernel_scheme \<Rightarrow> (nat option \<times> 'a kernel_scheme) result" where
  "allocthread p s =
     (case scan NTHREAD (\<lambda>i. t_state (thr p i s) = UNUSED) of
        None \<Rightarrow> bindR (release_p p s) (\<lambda>s. Ok (None, s))
      | Some i \<Rightarrow>
          bindR (alloctid s) (\<lambda>(tid, s).
          let s = upd_thread p i (\<lambda>t. t\<lparr>t_id := tid, t_state := USED, tproc := Some p\<rparr>) s;
              (page, s) = kalloc s;
              s = upd_thread p i (\<lambda>t. t\<lparr>user_trap_frame_backup := page\<rparr>) s
          in if page = 0
             then bindR (freeproc p s) (\<lambda>s. bindR (release_p p s) (\<lambda>s. Ok (None, s)))
             else Ok (Some i, upd_thread p i (\<lambda>t. t\<lparr>t_context :=
                    \<lparr>ctx_ra = k_forkret s, ctx_sp = t_kstack t + PGSIZE, ctx_s = replicate 12 0\<rparr>\<rparr>) s)))"

text \<open>The loop of \<^verbatim>\<open>allocproc\<close> takes the lock of each process it looks at and keeps that of the one it finds.\<close>

fun find_unused :: "nat list \<Rightarrow> 'a kernel_scheme \<Rightarrow> (nat option \<times> 'a kernel_scheme) result" where
  "find_unused [] s = Ok (None, s)"
| "find_unused (p # ps) s =
     bindR (acquire_p p s) (\<lambda>s.
       if p_state (procs s p) = UNUSED then Ok (Some p, s)
       else bindR (release_p p s) (find_unused ps))"

definition allocproc :: "'a kernel_scheme \<Rightarrow> ((nat \<times> nat) option \<times> 'a kernel_scheme) result" where
  "allocproc s =
     bindR (find_unused [0..<NPROC] s) (\<lambda>(r, s). case r of None \<Rightarrow> Ok (None, s) | Some p \<Rightarrow>
     bindR (allocpid s) (\<lambda>(pid, s).
     let s = upd_proc p (\<lambda>pr. pr\<lparr>p_pid := pid, p_state := USED\<rparr>) s;
         (tf, s) = kalloc s;
         s = upd_proc p (\<lambda>pr. pr\<lparr>p_trapframe := tf\<rparr>) s
     in if tf = 0 then bindR (freeproc p s) (\<lambda>s. bindR (release_p p s) (\<lambda>s. Ok (None, s)))
     else let s = upd_proc p (\<lambda>pr. pr\<lparr>threads := (\<lambda>i. if i < NTHREAD
                then (threads pr i)\<lparr>t_trapframe := tf + of_nat (TF_SIZE * i)\<rparr> else threads pr i)\<rparr>) s
     in bindR (proc_pagetable (p_trapframe (procs s p)) s) (\<lambda>(pt, s).
     let s = upd_proc p (\<lambda>pr. pr\<lparr>p_pagetable := pt\<rparr>) s
     in if pt = 0 then bindR (freeproc p s) (\<lambda>s. bindR (release_p p s) (\<lambda>s. Ok (None, s)))
     else let s = upd_proc p (\<lambda>pr. pr\<lparr>
                signal_handlers := (\<lambda>i. if i < 32 then SIG_DFL else signal_handlers pr i),
                signal_handlers_mask := (\<lambda>i. if i < 32 then 0 else signal_handlers_mask pr i)\<rparr>) s
     in bindR (allocthread p s) (\<lambda>(t, s). case t of
          None \<Rightarrow> bindR (freeproc p s) (\<lambda>s. Ok (None, s))
        | Some i \<Rightarrow> Ok (Some (p, i), s)))))"

subsection \<open>Growing a process\<close>

text \<open>
  \<^verbatim>\<open>growproc\<close> keeps the size in a 32-bit \<^verbatim>\<open>uint\<close>: \<^verbatim>\<open>p->sz\<close> is cut to 32 bits, the sum with \<^verbatim>\<open>n\<close> wraps at
  32 bits, and so does the value of \<^verbatim>\<open>uvmalloc\<close> before it is compared with 0.
\<close>

definition growproc :: "int \<Rightarrow> 'a kernel_scheme \<Rightarrow> (int \<times> 'a kernel_scheme) result" where
  "growproc n = with_proc (\<lambda>p s.
     let sz = ucast (p_sz (procs s p)) :: uint;
         finish = (\<lambda>(sz :: uint) s.
           bindR (acquire_p p s) (\<lambda>s.
           bindR (release_p p (upd_proc p (\<lambda>pr. pr\<lparr>p_sz := ucast sz\<rparr>) s)) (\<lambda>s. Ok (0, s))))
     in if 0 < n
        then bindR (uvmalloc (p_pagetable (procs s p)) (ucast sz) (ucast (sz + word_of_int n)) s) (\<lambda>(r, s).
               if (ucast r :: uint) = 0 then Ok (-1, s) else finish (ucast r) s)
        else if n < 0
        then bindR (uvmdealloc (p_pagetable (procs s p)) (ucast sz) (ucast (sz + word_of_int n)) s) (\<lambda>(r, s).
               finish (ucast r) s)
        else finish sz s)"

subsection \<open>What the accessors and the locks leave alone\<close>

lemma upd_proc_frame [simp]:
  "procs (upd_proc p f s) = (procs s)(p := f (procs s p))"
  "tp (upd_proc p f s) = tp s" "cpus (upd_proc p f s) = cpus s" "mycpu (upd_proc p f s) = mycpu s"
  "mem (upd_proc p f s) = mem s" "freelist (upd_proc p f s) = freelist s" "kend (upd_proc p f s) = kend s"
  "initproc (upd_proc p f s) = initproc s" "nextpid (upd_proc p f s) = nextpid s"
  "nexttid (upd_proc p f s) = nexttid s" "wait_lock (upd_proc p f s) = wait_lock s"
  "bsem_lock (upd_proc p f s) = bsem_lock s" "bsems (upd_proc p f s) = bsems s"
  "k_forkret (upd_proc p f s) = k_forkret s" "k_trampoline (upd_proc p f s) = k_trampoline s"
  "k_sigcode (upd_proc p f s) = k_sigcode s"
  by (simp_all add: upd_proc_def mycpu_def)

lemma upd_cpu_frame [simp]:
  "procs (upd_cpu f s) = procs s" "mem (upd_cpu f s) = mem s" "freelist (upd_cpu f s) = freelist s"
  "kend (upd_cpu f s) = kend s" "initproc (upd_cpu f s) = initproc s" "nextpid (upd_cpu f s) = nextpid s"
  "nexttid (upd_cpu f s) = nexttid s" "wait_lock (upd_cpu f s) = wait_lock s"
  "bsem_lock (upd_cpu f s) = bsem_lock s" "bsems (upd_cpu f s) = bsems s"
  "k_forkret (upd_cpu f s) = k_forkret s" "k_trampoline (upd_cpu f s) = k_trampoline s"
  "k_sigcode (upd_cpu f s) = k_sigcode s" "thr p i (upd_cpu f s) = thr p i s"
  by (simp_all add: upd_cpu_def thr_def)

lemma push_off_frame [simp]:
  "procs (push_off s) = procs s" "mem (push_off s) = mem s" "freelist (push_off s) = freelist s"
  "kend (push_off s) = kend s" "initproc (push_off s) = initproc s" "nextpid (push_off s) = nextpid s"
  "nexttid (push_off s) = nexttid s" "wait_lock (push_off s) = wait_lock s"
  "bsem_lock (push_off s) = bsem_lock s" "bsems (push_off s) = bsems s"
  "k_forkret (push_off s) = k_forkret s" "k_trampoline (push_off s) = k_trampoline s"
  "k_sigcode (push_off s) = k_sigcode s" "thr p i (push_off s) = thr p i s"
  "c_proc (mycpu (push_off s)) = c_proc (mycpu s)" "c_thread (mycpu (push_off s)) = c_thread (mycpu s)"
  by (simp_all add: push_off_eq thr_def)

lemma thr_upd_proc: "thr q j (upd_proc p f s) = (if q = p then threads (f (procs s p)) j else thr q j s)"
  by (simp add: thr_def)

lemma thr_upd_thread [simp]:
  "thr q j (upd_thread p i f s) = (if q = p \<and> j = i then f (thr p i s) else thr q j s)"
  by (simp add: upd_thread_def thr_def)

lemma upd_proc_upd_proc: "upd_proc p f (upd_proc p g s) = upd_proc p (f \<circ> g) s"
  by (simp add: upd_proc_def)

lemma upd_proc_id: "f (procs s p) = procs s p \<Longrightarrow> upd_proc p f s = s"
  by (simp add: upd_proc_def)

lemma upd_proc_cong: "f (procs s p) = g (procs s p) \<Longrightarrow> upd_proc p f s = upd_proc p g s"
  by (simp add: upd_proc_def)

lemma settled_upd_proc [simp]: "settled (upd_proc p f s) = settled s"
  by (simp add: settled_def off_inv_def intr_get_def)

lemma push_off_upd_proc: "push_off (upd_proc p f s) = upd_proc p f (push_off s)"
  by (simp add: push_off_eq upd_cpu_def upd_proc_def)

lemma set_cpus_push_off: "(push_off s)\<lparr>cpus := cpus s\<rparr> = s"
  by (simp add: push_off_eq upd_cpu_def)

lemma set_cpus_upd_proc: "(upd_proc p f s)\<lparr>cpus := c\<rparr> = upd_proc p f (s\<lparr>cpus := c\<rparr>)"
  by (simp add: upd_proc_def)

subsection \<open>Critical sections\<close>

definition free_lock :: "spinlock \<Rightarrow> bool" where
  "free_lock lk \<longleftrightarrow> locked lk = 0 \<and> lcpu lk = None"

abbreviation held :: "nat \<Rightarrow> spinlock \<Rightarrow> spinlock" where
  "held h lk \<equiv> lk\<lparr>locked := 1, lcpu := Some h\<rparr>"

definition locks_free :: "'a kernel_scheme \<Rightarrow> bool" where
  "locks_free s \<longleftrightarrow> (\<forall>p<NPROC. free_lock (p_lock (procs s p)))"

text \<open>An update of a process that does not look at its lock and does not change it.\<close>

definition keeps_lock :: "(proc \<Rightarrow> proc) \<Rightarrow> bool" where
  "keeps_lock f \<longleftrightarrow> (\<forall>pr lk. f (pr\<lparr>p_lock := lk\<rparr>) = (f pr)\<lparr>p_lock := lk\<rparr>)"

lemma keeps_lock_field:
  assumes "keeps_lock f"
  shows "p_lock (f pr) = p_lock pr"
proof -
  have "f (pr\<lparr>p_lock := p_lock pr\<rparr>) = (f pr)\<lparr>p_lock := p_lock pr\<rparr>"
    using assms unfolding keeps_lock_def by blast
  then have "f pr = (f pr)\<lparr>p_lock := p_lock pr\<rparr>" by simp
  then show ?thesis by (metis proc.select_convs(1) proc.surjective proc.update_convs(1))
qed

lemma acquire_p_free:
  assumes "free_lock (p_lock (procs s p))"
  shows "acquire_p p s = Ok (upd_proc p (\<lambda>pr. pr\<lparr>p_lock := held (tp s) (p_lock pr)\<rparr>) (push_off s))"
  using assms by (simp add: acquire_p_def acquire_free free_lock_def upd_proc_def)

lemma release_held:
  assumes "settled s" and "cpus u = cpus (push_off s)" and "tp u = tp s" and "free_lock lk"
  shows "release (held (tp s) lk) u = Ok (lk, u\<lparr>cpus := cpus s\<rparr>)"
  using assms pop_settled [OF assms(1-3)] by (simp add: release_def holding_def free_lock_def)

lemma release_p_held:
  assumes "settled s" and "cpus u = cpus (push_off s)" and "tp u = tp s" and "free_lock lk"
    and "p_lock (procs u p) = held (tp s) lk"
  shows "release_p p u = Ok (upd_proc p (\<lambda>pr. pr\<lparr>p_lock := lk\<rparr>) (u\<lparr>cpus := cpus s\<rparr>))"
  unfolding release_p_def assms(5) release_held [OF assms(1-4)] by simp

lemma release_p_upd:
  assumes "settled s" and "free_lock (p_lock (procs s p))" and "keeps_lock f"
  shows "release_p p (upd_proc p f (upd_proc p (\<lambda>pr. pr\<lparr>p_lock := held (tp s) (p_lock pr)\<rparr>) (push_off s)))
       = Ok (upd_proc p f s)"
proof -
  let ?u = "upd_proc p f (upd_proc p (\<lambda>pr. pr\<lparr>p_lock := held (tp s) (p_lock pr)\<rparr>) (push_off s))"
  have f: "f (pr\<lparr>p_lock := lk\<rparr>) = (f pr)\<lparr>p_lock := lk\<rparr>" for pr lk
    using assms(3) by (simp add: keeps_lock_def)
  have "p_lock (procs ?u p) = held (tp s) (p_lock (procs s p))" by (simp add: f)
  from release_p_held [OF assms(1) _ _ assms(2) this] show ?thesis
    using keeps_lock_field [OF assms(3), of "procs s p"]
    by (auto simp: set_cpus_upd_proc set_cpus_push_off f upd_proc_upd_proc intro!: upd_proc_cong)
qed

lemma critical_section:
  assumes "settled s" and "free_lock (p_lock (procs s p))" and "keeps_lock f"
  shows "bindR (acquire_p p s) (\<lambda>s. bindR (release_p p (upd_proc p f s)) k) = k (upd_proc p f s)"
  using assms by (simp add: acquire_p_free release_p_upd)

lemma critical_skip:
  assumes "settled s" and "free_lock (p_lock (procs s p))"
  shows "bindR (acquire_p p s) (\<lambda>s. bindR (release_p p s) k) = k s"
  using critical_section [OF assms, of "\<lambda>pr. pr"] by (simp add: keeps_lock_def upd_proc_def)

lemma myproc_settled: "settled s \<Longrightarrow> myproc s = Ok (c_proc (mycpu s), s)"
  by (simp add: myproc_def push_pop_settled)

lemma mythread_settled: "settled s \<Longrightarrow> mythread s = Ok (c_thread (mycpu s), s)"
  by (simp add: mythread_def push_pop_settled)

lemma with_proc_settled: "settled s \<Longrightarrow> c_proc (mycpu s) = Some p \<Longrightarrow> with_proc f s = f p s"
  by (simp add: with_proc_def myproc_settled)

lemma with_thread_settled: "settled s \<Longrightarrow> c_thread (mycpu s) = Some (p, i) \<Longrightarrow> with_thread f s = f p i s"
  by (simp add: with_thread_def mythread_settled)

subsection \<open>Holding the lock of a process\<close>

text \<open>
  The state after \<^verbatim>\<open>acquire(&p->lock)\<close> in terms of the state before. What the code does under the lock
  commutes with \<open>hold\<close>, and \<^verbatim>\<open>release\<close> takes it off again.
\<close>

definition hold :: "nat \<Rightarrow> 'a kernel_scheme \<Rightarrow> 'a kernel_scheme" where
  "hold p s = upd_proc p (\<lambda>pr. pr\<lparr>p_lock := held (tp s) (p_lock pr)\<rparr>) (push_off s)"

lemma hold_fields [simp]:
  "mem (hold p s) = mem s" "freelist (hold p s) = freelist s" "kend (hold p s) = kend s" "tp (hold p s) = tp s"
  "initproc (hold p s) = initproc s" "nextpid (hold p s) = nextpid s" "nexttid (hold p s) = nexttid s"
  "wait_lock (hold p s) = wait_lock s" "bsem_lock (hold p s) = bsem_lock s" "bsems (hold p s) = bsems s"
  "k_forkret (hold p s) = k_forkret s" "k_trampoline (hold p s) = k_trampoline s"
  "k_sigcode (hold p s) = k_sigcode s" "thr q i (hold p s) = thr q i s"
  "c_proc (mycpu (hold p s)) = c_proc (mycpu s)" "c_thread (mycpu (hold p s)) = c_thread (mycpu s)"
  by (simp_all add: hold_def thr_upd_proc) (simp add: thr_def)

lemma hold_proc_fields [simp]:
  "p_state (procs (hold p s) q) = p_state (procs s q)" "p_killed (procs (hold p s) q) = p_killed (procs s q)"
  "p_xstate (procs (hold p s) q) = p_xstate (procs s q)" "p_pid (procs (hold p s) q) = p_pid (procs s q)"
  "p_parent (procs (hold p s) q) = p_parent (procs s q)" "p_sz (procs (hold p s) q) = p_sz (procs s q)"
  "p_pagetable (procs (hold p s) q) = p_pagetable (procs s q)"
  "p_trapframe (procs (hold p s) q) = p_trapframe (procs s q)"
  "pendding_signals (procs (hold p s) q) = pendding_signals (procs s q)"
  "signal_mask (procs (hold p s) q) = signal_mask (procs s q)"
  "signal_handlers (procs (hold p s) q) = signal_handlers (procs s q)"
  "signal_handlers_mask (procs (hold p s) q) = signal_handlers_mask (procs s q)"
  "frozen (procs (hold p s) q) = frozen (procs s q)"
  "signal_mask_backup (procs (hold p s) q) = signal_mask_backup (procs s q)"
  "signal_handling_flag (procs (hold p s) q) = signal_handling_flag (procs s q)"
  "threads (procs (hold p s) q) = threads (procs s q)" "p_name (procs (hold p s) q) = p_name (procs s q)"
  "ofile (procs (hold p s) q) = ofile (procs s q)" "cwd (procs (hold p s) q) = cwd (procs s q)"
  by (simp_all add: hold_def)

lemma settled_hold [simp]: "settled s \<Longrightarrow> settled (hold p s)"
  by (simp add: hold_def settled_push_off)

lemma settled_mem [simp]: "settled (s\<lparr>mem := m\<rparr>) = settled s" "mycpu (s\<lparr>mem := m\<rparr>) = mycpu s"
  by (simp_all add: settled_def off_inv_def intr_get_def mycpu_def)

lemma acquire_p_hold: "free_lock (p_lock (procs s p)) \<Longrightarrow> acquire_p p s = Ok (hold p s)"
  by (simp add: hold_def acquire_p_free)

lemma release_p_hold:
  assumes "settled s" and "free_lock (p_lock (procs s p))"
  shows "release_p p (hold p s) = Ok s"
  using release_p_upd [OF assms, of "\<lambda>pr. pr"] by (simp add: keeps_lock_def upd_proc_def hold_def)

lemma hold_upd_proc:
  assumes "keeps_lock f"
  shows "upd_proc p f (hold p s) = hold p (upd_proc p f s)"
proof -
  have f: "\<And>pr lk. f (pr\<lparr>p_lock := lk\<rparr>) = (f pr)\<lparr>p_lock := lk\<rparr>"
    using assms unfolding keeps_lock_def by blast
  have l: "p_lock (f (procs s p)) = p_lock (procs s p)" by (rule keeps_lock_field [OF assms])
  show ?thesis
    unfolding hold_def push_off_upd_proc upd_proc_upd_proc by (rule upd_proc_cong) (simp add: f l)
qed

lemma hold_upd_thread: "upd_thread p i f (hold p s) = hold p (upd_thread p i f s)"
  unfolding upd_thread_def by (rule hold_upd_proc) (simp add: keeps_lock_def)

lemma hold_mem: "(hold p s)\<lparr>mem := m\<rparr> = hold p (s\<lparr>mem := m\<rparr>)"
  by (simp add: hold_def push_off_eq upd_cpu_def upd_proc_def)

lemma tf_hold:
  "tf_get tf off (hold p s) = tf_get tf off s"
  "tf_set tf off v (hold p s) = bindR (tf_set tf off v s) (\<lambda>s. Ok (hold p s))"
  "tf_copy dst src (hold p s) = bindR (tf_copy dst src s) (\<lambda>s. Ok (hold p s))"
  by (simp_all add: tf_get_def tf_set_def tf_copy_def hold_mem)

subsection \<open>Loops over the table\<close>

lemma foldR_upd_proc:
  assumes "distinct ps" and "I s"
    and "\<And>p s. p \<in> set ps \<Longrightarrow> I s \<Longrightarrow> F p s = Ok (upd_proc p (f p) s) \<and> I (upd_proc p (f p) s)"
  shows "foldR F ps s = Ok (s\<lparr>procs := (\<lambda>p. if p \<in> set ps then f p (procs s p) else procs s p)\<rparr>)"
  using assms
proof (induction ps arbitrary: s)
  case Nil
  then show ?case by simp
next
  case (Cons p ps)
  let ?u = "upd_proc p (f p) s"
  have F: "F p s = Ok ?u" "I ?u" using Cons.prems by auto
  have "foldR F ps ?u = Ok (?u\<lparr>procs := (\<lambda>q. if q \<in> set ps then f q (procs ?u q) else procs ?u q)\<rparr>)"
    using Cons.prems F(2) by (intro Cons.IH) auto
  moreover have "?u\<lparr>procs := (\<lambda>q. if q \<in> set ps then f q (procs ?u q) else procs ?u q)\<rparr>
      = s\<lparr>procs := (\<lambda>q. if q \<in> set (p # ps) then f q (procs s q) else procs s q)\<rparr>"
    using Cons.prems(1) by (simp add: upd_proc_def) (rule arg_cong [where f = "\<lambda>x. s\<lparr>procs := x\<rparr>"], auto)
  ultimately show ?case using F(1) by simp
qed

lemma foldR_upd_thread:
  assumes "distinct is" and "I s"
    and "\<And>i s. i \<in> set is \<Longrightarrow> I s \<Longrightarrow> F i s = Ok (upd_thread p i (g i) s) \<and> I (upd_thread p i (g i) s)"
  shows "foldR F is s = Ok (upd_proc p (\<lambda>pr. pr\<lparr>threads :=
           (\<lambda>i. if i \<in> set is then g i (threads pr i) else threads pr i)\<rparr>) s)"
  using assms
proof (induction "is" arbitrary: s)
  case Nil
  then show ?case by (simp add: upd_proc_def)
next
  case (Cons i "is")
  let ?u = "upd_thread p i (g i) s"
  let ?f = "\<lambda>js pr. pr\<lparr>threads := (\<lambda>i. if i \<in> set js then g i (threads pr i) else threads pr i)\<rparr>"
  have F: "F i s = Ok ?u" "I ?u" using Cons.prems by auto
  have "foldR F is ?u = Ok (upd_proc p (?f is) ?u)"
    using Cons.prems F(2) by (intro Cons.IH) auto
  moreover have "upd_proc p (?f is) ?u = upd_proc p (?f (i # is)) s"
    unfolding upd_thread_def upd_proc_upd_proc comp_def using Cons.prems(1)
    by (intro upd_proc_cong) (auto intro!: proc.equality)
  ultimately show ?case using F(1) by simp
qed

text \<open>What a loop with the lock of each process does: the locks drop out.\<close>

definition same_cpu :: "'b machine_scheme \<Rightarrow> 'a kernel_scheme \<Rightarrow> bool" where
  "same_cpu s0 s \<longleftrightarrow> settled s \<and> locks_free s \<and> mycpu s = mycpu s0 \<and> tp s = tp s0"

lemma locks_free_upd: "locks_free s \<Longrightarrow> keeps_lock f \<Longrightarrow> locks_free (upd_proc p f s)"
  by (auto simp: locks_free_def keeps_lock_field [of f])

lemma same_cpu_upd: "same_cpu s0 s \<Longrightarrow> keeps_lock f \<Longrightarrow> same_cpu s0 (upd_proc p f s)"
  by (auto simp: same_cpu_def locks_free_upd)

lemma keeps_lock_threads: "keeps_lock (\<lambda>pr. pr\<lparr>threads := h (threads pr)\<rparr>)"
  by (simp add: keeps_lock_def)

subsection \<open>An example state\<close>

text \<open>
  A machine with one process, entry 2 of the table with pid 7, whose thread 0 runs on hart 0. Its page
  table is that of \<open>user_example\<close>, its trapframe and the copy of it are in pages of their own.
\<close>

definition ctx0 :: kcontext where
  "ctx0 = \<lparr>ctx_ra = 0, ctx_sp = 0, ctx_s = []\<rparr>"

definition thread0 :: thread where
  "thread0 = \<lparr>t_id = 0, t_state = UNUSED, tproc = None, t_kstack = 0, t_trapframe = 0, t_context = ctx0,
     t_chan = None, t_killed = 0, t_xstate = 0, user_trap_frame_backup = 0\<rparr>"

definition proc0 :: proc where
  "proc0 = \<lparr>p_lock = \<lparr>locked = 0, lname = ''proc'', lcpu = None\<rparr>, p_state = UNUSED, p_chan = None,
     p_killed = 0, p_xstate = 0, p_pid = 0, p_parent = None, p_sz = 0, p_pagetable = 0, p_trapframe = 0,
     ofile = (\<lambda>_. None), cwd = None, p_name = replicate 16 0, pendding_signals = 0, signal_mask = 0,
     signal_handlers = (\<lambda>_. 0), signal_handlers_mask = (\<lambda>_. 0), frozen = 0, signal_mask_backup = 0,
     signal_handling_flag = 0, threads = (\<lambda>_. thread0)\<rparr>"

definition proc_example :: proc where
  "proc_example = proc0\<lparr>p_state := RUNNABLE, p_pid := 7, p_pagetable := 0x87FFC000, p_sz := 4096,
     p_trapframe := 0x87FFB000,
     threads := (\<lambda>_. thread0)(0 := thread0\<lparr>t_id := 3, t_state := RUNNING, tproc := Some 2,
       t_trapframe := 0x87FFB000, user_trap_frame_backup := 0x87FFA000\<rparr>)\<rparr>"

definition kernel_example :: kernel where
  "kernel_example =
     \<lparr>tp = 0, cpus = (\<lambda>_. cpu0\<lparr>c_proc := Some 2, c_thread := Some (2, 0), intena := True\<rparr>),
      mem = mem user_example, freelist = 0, kend = 0x87FF0000,
      procs = (\<lambda>_. proc0)(2 := proc_example), initproc = Some 0, nextpid = 8, nexttid = 4,
      wait_lock = \<lparr>locked = 0, lname = ''wait_lock'', lcpu = None\<rparr>,
      bsem_lock = \<lparr>locked = 0, lname = ''bsem'', lcpu = None\<rparr>,
      bsems = (\<lambda>_. \<lparr>b_state = 0, bid = 0, unlocked = 0\<rparr>),
      k_forkret = 0x80002000, k_trampoline = 0x80007000, k_sigcode = [1, 2, 3, 4, 5, 6, 7, 8]\<rparr>"

lemma kernel_example_settled: "settled kernel_example" and kernel_example_free: "locks_free kernel_example"
  by (simp_all add: settled_def off_inv_def intr_get_def mycpu_def kernel_example_def cpu0_def SSTATUS_SIE_def
      locks_free_def free_lock_def proc0_def proc_example_def)

end
