(* ===== verification/Sched.thy ===== *)
theory Sched
  imports Proc
begin

text \<open>
  Scheduling in \<^verbatim>\<open>kernel/proc.c\<close>: \<^verbatim>\<open>scheduler\<close>, \<^verbatim>\<open>sched\<close>, \<^verbatim>\<open>yield\<close>, \<^verbatim>\<open>sleep\<close> and \<^verbatim>\<open>wakeup\<close>.

  A function that gives up the CPU is cut at \<^verbatim>\<open>swtch\<close> into the part before (\<open>_out\<close>) and the part after
  (\<open>_back\<close>); the local variable \<^verbatim>\<open>intena\<close> of \<^verbatim>\<open>sched\<close>, which lives on the thread's kernel stack in
  between, is the value the first part returns and the second takes. \<^verbatim>\<open>swtch\<close> itself exchanges the
  callee-saved registers of the hart with a saved context.

  The scheduler runs a thread by switching to it; what the thread does until it switches back is the
  argument \<open>run\<close> of \<open>scheduler_pass\<close>, one round of the scheduler's endless loop.
\<close>

subsection \<open>Switching\<close>

text \<open>What a function that may give up the CPU returns.\<close>

datatype 'a outcome =
    Done 'a          \<comment> \<open>it returned\<close>
  | Switched bool    \<comment> \<open>it switched to the scheduler; \<^verbatim>\<open>intena\<close> on its stack\<close>

definition sched_out :: "'a kernel_scheme \<Rightarrow> (bool \<times> 'a kernel_scheme) result" where
  "sched_out = with_proc (\<lambda>p. with_thread (\<lambda>q i s.
     if \<not> holding (p_lock (procs s p)) s then Panic ''sched p->lock''
     else if noff (mycpu s) \<noteq> 1 then Panic ''sched locks''
     else if t_state (thr q i s) = RUNNING then Panic ''sched running''
     else if intr_get s then Panic ''sched interruptible''
     else let ena = intena (mycpu s);
              s = upd_thread q i (\<lambda>t. t\<lparr>t_context := c_regs (mycpu s)\<rparr>) s;
              s = upd_cpu (\<lambda>c. c\<lparr>c_regs := c_context c\<rparr>) s
          in Ok (ena, s)))"

definition sched_back :: "bool \<Rightarrow> 'a machine_scheme \<Rightarrow> 'a machine_scheme" where
  "sched_back ena s = upd_cpu (\<lambda>c. c\<lparr>intena := ena\<rparr>) s"

definition yield_out :: "'a kernel_scheme \<Rightarrow> (bool \<times> 'a kernel_scheme) result" where
  "yield_out = with_thread (\<lambda>q i. with_proc (\<lambda>p s.
     bindR (acquire_p p s) (\<lambda>s. sched_out (upd_thread q i (\<lambda>t. t\<lparr>t_state := RUNNABLE\<rparr>) s))))"

definition yield_back :: "bool \<Rightarrow> nat \<Rightarrow> 'a kernel_scheme \<Rightarrow> 'a kernel_scheme result" where
  "yield_back ena p s = release_p p (sched_back ena s)"

text \<open>\<^verbatim>\<open>sleep\<close> takes any lock; the model takes the functions that release and acquire it.\<close>

definition sleep_out :: "chan \<Rightarrow> ('a kernel_scheme \<Rightarrow> 'a kernel_scheme result) \<Rightarrow> 'a kernel_scheme
    \<Rightarrow> (bool \<times> 'a kernel_scheme) result" where
  "sleep_out ch release_lk = with_thread (\<lambda>q i s.
     case tproc (thr q i s) of
       None \<Rightarrow> Undef ''no process''
     | Some p \<Rightarrow>
         bindR (acquire_p p s) (\<lambda>s.
         bindR (release_lk s) (\<lambda>s.
           sched_out (upd_thread q i (\<lambda>t. t\<lparr>t_chan := Some ch, t_state := SLEEPING\<rparr>) s))))"

definition sleep_back :: "bool \<Rightarrow> nat \<Rightarrow> nat \<Rightarrow> nat \<Rightarrow> ('a kernel_scheme \<Rightarrow> 'a kernel_scheme result)
    \<Rightarrow> 'a kernel_scheme \<Rightarrow> 'a kernel_scheme result" where
  "sleep_back ena p q i acquire_lk s =
     bindR (release_p p (upd_thread q i (\<lambda>t. t\<lparr>t_chan := None\<rparr>) (sched_back ena s))) acquire_lk"

subsection \<open>Waking up\<close>

definition wakeup :: "chan \<Rightarrow> 'a kernel_scheme \<Rightarrow> 'a kernel_scheme result" where
  "wakeup ch = foldR (\<lambda>p s.
     bindR (acquire_p p s) (\<lambda>s.
     bindR (foldR (\<lambda>i s.
         bindR (mythread s) (\<lambda>(me, s).
           if me \<noteq> Some (p, i) \<and> t_state (thr p i s) = SLEEPING \<and> t_chan (thr p i s) = Some ch
           then Ok (upd_thread p i (\<lambda>t. t\<lparr>t_state := RUNNABLE\<rparr>) s)
           else Ok s)) [0..<NTHREAD] s)
       (release_p p))) [0..<NPROC]"

subsection \<open>The scheduler\<close>

definition scheduler_start :: "'a machine_scheme \<Rightarrow> 'a machine_scheme" where
  "scheduler_start s = upd_cpu (\<lambda>c. c\<lparr>c_proc := None, c_thread := None\<rparr>) s"

definition dispatch :: "nat \<Rightarrow> nat \<Rightarrow> 'a kernel_scheme \<Rightarrow> 'a kernel_scheme" where
  "dispatch p i s =
     (let s = upd_thread p i (\<lambda>t. t\<lparr>t_state := RUNNING\<rparr>) s;
          s = upd_cpu (\<lambda>c. c\<lparr>c_thread := Some (p, i), c_proc := Some p\<rparr>) s
      in upd_cpu (\<lambda>c. c\<lparr>c_context := c_regs c, c_regs := t_context (thr p i s)\<rparr>) s)"

definition undispatch :: "'a machine_scheme \<Rightarrow> 'a machine_scheme" where
  "undispatch s = upd_cpu (\<lambda>c. c\<lparr>c_thread := None, c_proc := None\<rparr>) s"

definition scheduler_visit :: "(nat \<Rightarrow> nat \<Rightarrow> 'a kernel_scheme \<Rightarrow> 'a kernel_scheme result) \<Rightarrow> nat
    \<Rightarrow> 'a kernel_scheme \<Rightarrow> 'a kernel_scheme result" where
  "scheduler_visit run p s =
     bindR (acquire_p p s) (\<lambda>s.
     bindR (if p_state (procs s p) \<noteq> UNUSED
            then foldR (\<lambda>i s.
                if t_state (thr p i s) = RUNNABLE
                then bindR (run p i (dispatch p i s)) (\<lambda>s. Ok (undispatch s))
                else Ok s) [0..<NTHREAD] s
            else Ok s)
       (release_p p))"

definition scheduler_pass :: "(nat \<Rightarrow> nat \<Rightarrow> 'a kernel_scheme \<Rightarrow> 'a kernel_scheme result)
    \<Rightarrow> 'a kernel_scheme \<Rightarrow> 'a kernel_scheme result" where
  "scheduler_pass run s = foldR (scheduler_visit run) [0..<NPROC] (intr_on s)"

subsection \<open>Waiting for a child\<close>

definition reparent :: "nat \<Rightarrow> 'a kernel_scheme \<Rightarrow> 'a kernel_scheme result" where
  "reparent p = foldR (\<lambda>pp s.
     if p_parent (procs s pp) = Some p
     then let s = upd_proc pp (\<lambda>pr. pr\<lparr>p_parent := initproc s\<rparr>) s
          in case initproc s of None \<Rightarrow> Undef ''no init'' | Some q \<Rightarrow> wakeup (ProcChan q) s
     else Ok s) [0..<NPROC]"

text \<open>
  One round of the endless loop of \<^verbatim>\<open>wait\<close>: the scan over the table, which ends at the first zombie
  child, and the decision to give up or to sleep. The lock \<^verbatim>\<open>wait_lock\<close> is held at its start.
\<close>

fun wait_scan :: "nat \<Rightarrow> uint64 \<Rightarrow> nat list \<Rightarrow> bool \<Rightarrow> 'a kernel_scheme
    \<Rightarrow> (int option \<times> bool \<times> 'a kernel_scheme) result" where
  "wait_scan p addr [] havekids s = Ok (None, havekids, s)"
| "wait_scan p addr (np # nps) havekids s =
     (if p_parent (procs s np) = Some p
      then bindR (acquire_p np s) (\<lambda>s.
        if p_state (procs s np) = ZOMBIE
        then let pid = p_pid (procs s np)
             in bindR (if addr \<noteq> 0
                       then copyout (p_pagetable (procs s p)) addr
                              (le_bytes 4 (word_of_int (p_xstate (procs s np)) :: uint)) s
                       else Ok (0, s)) (\<lambda>(r, s).
                if r < 0
                then bindR (release_p np s) (\<lambda>s. bindR (release_wait s) (\<lambda>s. Ok (Some (-1), True, s)))
                else bindR (freeproc np s) (\<lambda>s.
                     bindR (release_p np s) (\<lambda>s.
                     bindR (release_wait s) (\<lambda>s. Ok (Some pid, True, s)))))
        else bindR (release_p np s) (wait_scan p addr nps True))
      else wait_scan p addr nps havekids s)"

definition wait_round :: "nat \<Rightarrow> uint64 \<Rightarrow> 'a kernel_scheme \<Rightarrow> (int outcome \<times> 'a kernel_scheme) result" where
  "wait_round p addr s =
     bindR (wait_scan p addr [0..<NPROC] False s) (\<lambda>(r, havekids, s).
       case r of Some v \<Rightarrow> Ok (Done v, s)
       | None \<Rightarrow>
           if \<not> havekids \<or> p_killed (procs s p) \<noteq> 0
           then bindR (release_wait s) (\<lambda>s. Ok (Done (-1), s))
           else bindR (sleep_out (ProcChan p) release_wait s) (\<lambda>(ena, s). Ok (Switched ena, s)))"

definition wait :: "uint64 \<Rightarrow> 'a kernel_scheme \<Rightarrow> (int outcome \<times> 'a kernel_scheme) result" where
  "wait addr = with_proc (\<lambda>p s. bindR (acquire_wait s) (wait_round p addr))"

definition wait_back :: "bool \<Rightarrow> nat \<Rightarrow> nat \<Rightarrow> uint64 \<Rightarrow> 'a kernel_scheme
    \<Rightarrow> (int outcome \<times> 'a kernel_scheme) result" where
  "wait_back ena p i addr s = bindR (sleep_back ena p p i acquire_wait s) (wait_round p addr)"

subsection \<open>What wakeup does\<close>

definition wake_thread :: "chan \<Rightarrow> (nat \<times> nat) option \<Rightarrow> nat \<Rightarrow> nat \<Rightarrow> thread \<Rightarrow> thread" where
  "wake_thread ch me p i t =
     (if me \<noteq> Some (p, i) \<and> t_state t = SLEEPING \<and> t_chan t = Some ch then t\<lparr>t_state := RUNNABLE\<rparr> else t)"

definition wake_proc :: "chan \<Rightarrow> (nat \<times> nat) option \<Rightarrow> nat \<Rightarrow> proc \<Rightarrow> proc" where
  "wake_proc ch me p pr =
     pr\<lparr>threads := (\<lambda>i. if i < NTHREAD then wake_thread ch me p i (threads pr i) else threads pr i)\<rparr>"

lemma keeps_lock_wake [simp]: "keeps_lock (wake_proc ch me p)"
  by (simp add: keeps_lock_def wake_proc_def cong: if_cong)

lemma settled_same_mycpu: "settled s \<Longrightarrow> mycpu u = mycpu s \<Longrightarrow> settled u"
  by (simp add: settled_def off_inv_def intr_get_def)

lemma wake_loop:
  fixes s :: "'a kernel_scheme"
  assumes "settled s"
  shows "foldR (\<lambda>i s. bindR (mythread s) (\<lambda>(me, s).
           if me \<noteq> Some (p, i) \<and> t_state (thr p i s) = SLEEPING \<and> t_chan (thr p i s) = Some ch
           then Ok (upd_thread p i (\<lambda>t. t\<lparr>t_state := RUNNABLE\<rparr>) s) else Ok s)) [0..<NTHREAD] s
       = Ok (upd_proc p (wake_proc ch (c_thread (mycpu s)) p) s)"
proof -
  have "foldR (\<lambda>i s. bindR (mythread s) (\<lambda>(me, s).
           if me \<noteq> Some (p, i) \<and> t_state (thr p i s) = SLEEPING \<and> t_chan (thr p i s) = Some ch
           then Ok (upd_thread p i (\<lambda>t. t\<lparr>t_state := RUNNABLE\<rparr>) s) else Ok s)) [0..<NTHREAD] s
    = Ok (upd_proc p (\<lambda>pr. pr\<lparr>threads := (\<lambda>i. if i \<in> set [0..<NTHREAD]
        then wake_thread ch (c_thread (mycpu s)) p i (threads pr i) else threads pr i)\<rparr>) s)"
  proof (rule foldR_upd_thread [where I = "\<lambda>u. mycpu u = mycpu s"])
    fix i and u :: "'a kernel_scheme"
    assume u: "mycpu u = mycpu s"
    with assms have "mythread u = Ok (c_thread (mycpu s), u)"
      by (simp add: mythread_settled settled_same_mycpu)
    then show "bindR (mythread u) (\<lambda>(me, s).
           if me \<noteq> Some (p, i) \<and> t_state (thr p i s) = SLEEPING \<and> t_chan (thr p i s) = Some ch
           then Ok (upd_thread p i (\<lambda>t. t\<lparr>t_state := RUNNABLE\<rparr>) s) else Ok s)
        = Ok (upd_thread p i (wake_thread ch (c_thread (mycpu s)) p i) u)
        \<and> mycpu (upd_thread p i (wake_thread ch (c_thread (mycpu s)) p i) u) = mycpu s"
      using u by (auto simp: upd_thread_def wake_thread_def thr_def intro!: upd_proc_cong upd_proc_id [symmetric])
  qed simp_all
  then show ?thesis by (simp add: wake_proc_def [abs_def])
qed

lemma wakeup_visit:
  assumes "same_cpu s0 s" and "p < NPROC"
  shows "bindR (acquire_p p s) (\<lambda>s. bindR (foldR (\<lambda>i s. bindR (mythread s) (\<lambda>(me, s).
           if me \<noteq> Some (p, i) \<and> t_state (thr p i s) = SLEEPING \<and> t_chan (thr p i s) = Some ch
           then Ok (upd_thread p i (\<lambda>t. t\<lparr>t_state := RUNNABLE\<rparr>) s) else Ok s)) [0..<NTHREAD] s) (release_p p))
       = Ok (upd_proc p (wake_proc ch (c_thread (mycpu s0)) p) s)"
proof -
  have s: "settled s" "free_lock (p_lock (procs s p))" "mycpu s = mycpu s0"
    using assms by (auto simp: same_cpu_def locks_free_def)
  then show ?thesis
    by (simp add: acquire_p_free wake_loop settled_push_off release_p_upd)
qed

lemma wakeup_spec:
  assumes "settled s" and "locks_free s"
  shows "wakeup ch s = Ok (s\<lparr>procs := (\<lambda>p. if p < NPROC
           then wake_proc ch (c_thread (mycpu s)) p (procs s p) else procs s p)\<rparr>)"
proof -
  have "wakeup ch s = Ok (s\<lparr>procs := (\<lambda>p. if p \<in> set [0..<NPROC]
           then wake_proc ch (c_thread (mycpu s)) p (procs s p) else procs s p)\<rparr>)"
    unfolding wakeup_def
    by (rule foldR_upd_proc [where I = "same_cpu s"])
       (use assms wakeup_visit same_cpu_upd in \<open>auto simp: same_cpu_def locks_free_upd\<close>)
  then show ?thesis by simp
qed

subsection \<open>The running thread\<close>

text \<open>Thread \<open>i\<close> of process \<open>p\<close> runs on this hart, and nobody is inside the process table.\<close>

definition running :: "nat \<Rightarrow> nat \<Rightarrow> 'a kernel_scheme \<Rightarrow> bool" where
  "running p i s \<longleftrightarrow> settled s \<and> locks_free s \<and> p < NPROC \<and> i < NTHREAD
     \<and> c_proc (mycpu s) = Some p \<and> c_thread (mycpu s) = Some (p, i)"

lemma runningD:
  assumes "running p i s"
  shows "settled s" and "free_lock (p_lock (procs s p))" and "c_proc (mycpu s) = Some p"
    and "c_thread (mycpu s) = Some (p, i)"
  using assms by (auto simp: running_def locks_free_def)

lemma running_upd: "running p i s \<Longrightarrow> keeps_lock f \<Longrightarrow> running p i (upd_proc q f s)"
  by (simp add: running_def locks_free_upd)

lemma running_mem [simp]: "running p i (s\<lparr>mem := m\<rparr>) = running p i s"
  by (simp add: running_def locks_free_def)

lemma kernel_example_running: "running 2 0 kernel_example"
  using kernel_example_settled kernel_example_free
  by (simp add: running_def NPROC_def NTHREAD_def kernel_example_def mycpu_def cpu0_def)

end
