(* ===== verification/Signal.thy ===== *)
theory Signal
  imports Sched
begin

text \<open>
  Signals in \<^verbatim>\<open>kernel/proc.c\<close>: sending (\<^verbatim>\<open>kill\<close>), the mask and the handlers of a process, the handlers
  of the kernel, the delivery of a pending signal on the way back to user space
  (\<^verbatim>\<open>handle_pendding_sinals\<close> and \<^verbatim>\<open>userhandler\<close>) and the return from a user handler (\<^verbatim>\<open>sigret\<close>).
  A signal set is a 32-bit word with one bit per signal number.
\<close>

definition sigbit :: "nat \<Rightarrow> uint" where
  "sigbit i = push_bit i 1"

subsection \<open>Sending\<close>

fun kill_scan :: "int \<Rightarrow> nat \<Rightarrow> nat list \<Rightarrow> 'a kernel_scheme \<Rightarrow> (int \<times> 'a kernel_scheme) result" where
  "kill_scan pid sig [] s = Ok (-1, s)"
| "kill_scan pid sig (p # ps) s =
     bindR (acquire_p p s) (\<lambda>s.
       if p_pid (procs s p) = pid
       then bindR (release_p p (upd_proc p (\<lambda>pr. pr\<lparr>pendding_signals :=
              pendding_signals pr OR sigbit sig\<rparr>) s)) (\<lambda>s. Ok (0, s))
       else bindR (release_p p s) (kill_scan pid sig ps))"

definition kill :: "int \<Rightarrow> int \<Rightarrow> 'a kernel_scheme \<Rightarrow> (int \<times> 'a kernel_scheme) result" where
  "kill pid signum s =
     (if signum < 0 \<or> 31 < signum then Ok (-1, s) else kill_scan pid (nat signum) [0..<NPROC] s)"

subsection \<open>Copies to and from user or kernel addresses\<close>

definition either_copyout :: "bool \<Rightarrow> uint64 \<Rightarrow> uchar list \<Rightarrow> 'a kernel_scheme
    \<Rightarrow> (int \<times> 'a kernel_scheme) result" where
  "either_copyout user_dst dst src = with_proc (\<lambda>p s.
     if user_dst then copyout (p_pagetable (procs s p)) dst src s
     else Ok (0, s\<lparr>mem := store_bytes dst src (mem s)\<rparr>))"

definition either_copyin :: "bool \<Rightarrow> uint64 \<Rightarrow> nat \<Rightarrow> 'a kernel_scheme \<Rightarrow> (int \<times> uchar list) result" where
  "either_copyin user_src src len = with_proc (\<lambda>p s.
     if user_src then copyin (p_pagetable (procs s p)) src len s
     else Ok (0, load_bytes src len (mem s)))"

subsection \<open>The process listing\<close>

fun state_name :: "procstate \<Rightarrow> string" where
  "state_name UNUSED = ''unused''"
| "state_name SLEEPING = ''sleep ''"
| "state_name RUNNABLE = ''runble''"
| "state_name RUNNING = ''run   ''"
| "state_name ZOMBIE = ''zombie''"
| "state_name USED = ''???''"

text \<open>The lines that \<^verbatim>\<open>procdump\<close> prints: pid, state and name of each process in use.\<close>

definition procdump :: "'a kernel_scheme \<Rightarrow> (int \<times> string \<times> uchar list) list" where
  "procdump s = map (\<lambda>p. (p_pid (procs s p), state_name (p_state (procs s p)), p_name (procs s p)))
     (filter (\<lambda>p. p_state (procs s p) \<noteq> UNUSED) [0..<NPROC])"

subsection \<open>Mask and handlers\<close>

definition sigprocmask :: "uint \<Rightarrow> 'a kernel_scheme \<Rightarrow> (uint \<times> 'a kernel_scheme) result" where
  "sigprocmask sigmask = with_proc (\<lambda>p s.
     bindR (acquire_p p s) (\<lambda>s.
     let prev = signal_mask (procs s p);
         s = upd_proc p (\<lambda>pr. pr\<lparr>signal_mask := sigmask\<rparr>) s
     in bindR (release_p p s) (\<lambda>s. Ok (prev, s))))"

definition sigret :: "'a kernel_scheme \<Rightarrow> 'a kernel_scheme result" where
  "sigret = with_proc (\<lambda>p. with_thread (\<lambda>q i s.
     bindR (acquire_p p s) (\<lambda>s.
     bindR (tf_copy (t_trapframe (thr q i s)) (user_trap_frame_backup (thr q i s)) s) (\<lambda>s.
     release_p p (upd_proc p (\<lambda>pr. pr\<lparr>signal_mask := signal_mask_backup pr,
       signal_handling_flag := 0\<rparr>) s)))))"

definition kill_thread :: "thread \<Rightarrow> thread" where
  "kill_thread t = (if t_state t = SLEEPING then t\<lparr>t_killed := 1, t_state := RUNNABLE\<rparr> else t\<lparr>t_killed := 1\<rparr>)"

definition sigKillHandler :: "'a kernel_scheme \<Rightarrow> 'a kernel_scheme result" where
  "sigKillHandler = with_proc (\<lambda>p. with_thread (\<lambda>_ _ s.
     Ok (upd_proc p (\<lambda>pr. pr\<lparr>p_killed := 1,
           p_state := (if p_state pr = SLEEPING then RUNNABLE else p_state pr),
           threads := (\<lambda>i. if i < NTHREAD then kill_thread (threads pr i) else threads pr i)\<rparr>) s)))"

definition sigStopHandler :: "'a kernel_scheme \<Rightarrow> 'a kernel_scheme result" where
  "sigStopHandler = with_proc (\<lambda>p s.
     bindR (acquire_p p s) (\<lambda>s. release_p p (upd_proc p (\<lambda>pr. pr\<lparr>frozen := 1\<rparr>) s)))"

definition sigContHandler :: "'a kernel_scheme \<Rightarrow> 'a kernel_scheme result" where
  "sigContHandler = with_proc (\<lambda>p s.
     bindR (acquire_p p s) (\<lambda>s. release_p p (upd_proc p (\<lambda>pr. pr\<lparr>frozen := 0\<rparr>) s)))"

text \<open>
  The bytes of \<^verbatim>\<open>struct sigaction\<close>: the handler, the mask and four bytes of padding. \<open>stack\<close> are the 16
  bytes that the uninitialised local variable \<^verbatim>\<open>Kact\<close> holds when \<^verbatim>\<open>sigaction\<close> starts; the results of
  \<^verbatim>\<open>copyout\<close> and \<^verbatim>\<open>copyin\<close> are not looked at.
\<close>

definition sigaction :: "uchar list \<Rightarrow> int \<Rightarrow> uint64 \<Rightarrow> uint64 \<Rightarrow> 'a kernel_scheme
    \<Rightarrow> (int \<times> 'a kernel_scheme) result" where
  "sigaction stack signum act oldact = with_proc (\<lambda>p s.
     bindR (acquire_p p s) (\<lambda>s.
     if signum < 0 \<or> 31 < signum \<or> signum = int SIGKILL \<or> signum = int SIGSTOP
     then bindR (release_p p s) (\<lambda>s. Ok (-1, s))
     else let sig = nat signum;
              Kact = (if oldact \<noteq> 0
                then le_bytes 8 (signal_handlers (procs s p) sig)
                     @ le_bytes 4 (signal_handlers_mask (procs s p) sig) @ drop 12 stack
                else stack)
          in bindR (if oldact \<noteq> 0 then copyout (p_pagetable (procs s p)) oldact Kact s else Ok (0, s))
               (\<lambda>(_, s).
          bindR (if act \<noteq> 0 then copyin (p_pagetable (procs s p)) act 16 s else Ok (0, [])) (\<lambda>(_, bs).
          let Kact = bs @ drop (length bs) Kact;
              s = (if act \<noteq> 0 then upd_proc p (\<lambda>pr. pr\<lparr>
                     signal_handlers := (signal_handlers pr)(sig := le_word (take 8 Kact)),
                     signal_handlers_mask := (signal_handlers_mask pr)(sig := le_word (take 4 (drop 8 Kact)))\<rparr>) s
                   else s)
          in bindR (release_p p s) (\<lambda>s. Ok (0, s))))))"

subsection \<open>Delivery\<close>

definition userhandler :: "nat \<Rightarrow> 'a kernel_scheme \<Rightarrow> 'a kernel_scheme result" where
  "userhandler i = with_proc (\<lambda>p. with_thread (\<lambda>q j s.
     if 32 \<le> i then Undef ''signal number out of range''
     else bindR (acquire_p p s) (\<lambda>s.
       let s = upd_proc p (\<lambda>pr. pr\<lparr>signal_mask_backup := signal_mask pr,
                 signal_mask := signal_handlers_mask pr i, signal_handling_flag := 1\<rparr>) s;
           tf = t_trapframe (thr q j s); backup = user_trap_frame_backup (thr q j s);
           pt = p_pagetable (procs s p); handler = signal_handlers (procs s p) i
       in bindR (tf_get tf TF_sp s) (\<lambda>sp.
          bindR (tf_set tf TF_sp (sp - of_nat TF_SIZE) s) (\<lambda>s.
          bindR (tf_get backup TF_sp s) (\<lambda>bsp.
          bindR (copyout pt bsp (load_bytes tf TF_SIZE (mem s)) s) (\<lambda>(_, s).
          bindR (tf_set tf TF_epc handler s) (\<lambda>s.
          bindR (tf_get tf TF_sp s) (\<lambda>sp.
          let sp = sp - of_nat (length (k_sigcode s)) in
          bindR (tf_set tf TF_sp sp s) (\<lambda>s.
          bindR (copyout pt sp (k_sigcode s) s) (\<lambda>(_, s).
          bindR (tf_set tf (TF_a 0) (of_nat i) s) (\<lambda>s.
          bindR (tf_get tf TF_sp s) (\<lambda>sp.
          bindR (tf_set tf TF_ra sp s) (\<lambda>s.
          release_p p (upd_proc p (\<lambda>pr. pr\<lparr>pendding_signals :=
            pendding_signals pr AND NOT (sigbit i)\<rparr>) s)))))))))))))))"

definition clear_pending :: "nat \<Rightarrow> nat \<Rightarrow> 'a kernel_scheme \<Rightarrow> 'a kernel_scheme" where
  "clear_pending p i s = upd_proc p (\<lambda>pr. pr\<lparr>pendding_signals := pendding_signals pr AND NOT (sigbit i)\<rparr>) s"

text \<open>The branches of the loop that run a handler of the kernel, clear the signal and return -1.\<close>

definition handled :: "nat \<Rightarrow> nat \<Rightarrow> 'a kernel_scheme \<Rightarrow> (int \<times> 'a kernel_scheme) result" where
  "handled p i s = bindR (release_p p (clear_pending p i s)) (\<lambda>s. Ok (-1, s))"

definition handled_unlocked :: "nat \<Rightarrow> nat \<Rightarrow> ('a kernel_scheme \<Rightarrow> 'a kernel_scheme result)
    \<Rightarrow> 'a kernel_scheme \<Rightarrow> (int \<times> 'a kernel_scheme) result" where
  "handled_unlocked p i handler s =
     bindR (release_p p s) (\<lambda>s. bindR (handler s) (\<lambda>s. bindR (acquire_p p s) (handled p i)))"

fun signal_loop :: "nat \<Rightarrow> nat list \<Rightarrow> 'a kernel_scheme \<Rightarrow> (int \<times> 'a kernel_scheme) result" where
  "signal_loop p [] s = bindR (release_p p s) (\<lambda>s. Ok (-1, s))"
| "signal_loop p (i # is) s =
     (let currentHandler = signal_handlers (procs s p) i
      in if pendding_signals (procs s p) AND sigbit i \<noteq> 0 \<and> signal_handling_flag (procs s p) = 0
         then if i = SIGKILL then bindR (sigKillHandler s) (handled p i)
         else if i = SIGSTOP then handled_unlocked p i sigStopHandler s
         else if signal_mask (procs s p) AND sigbit i = 0
         then if currentHandler = SIG_IGN then handled p i s
              else if currentHandler = of_nat SIGSTOP then handled_unlocked p i sigStopHandler s
              else if currentHandler = of_nat SIGCONT then handled_unlocked p i sigContHandler s
              else if currentHandler = of_nat SIGKILL \<or> currentHandler = SIG_DFL
              then bindR (sigKillHandler s) (handled p i)
              else bindR (release_p p s) (\<lambda>s. Ok (int i, s))
         else signal_loop p is s
         else signal_loop p is s)"

text \<open>
  The loop of a frozen process. A round with SIGCONT pending clears it, so that a second round, if
  the process is still frozen, is one that yields: the loop has no more than these two.
\<close>

definition frozen_yield :: "nat \<Rightarrow> 'a kernel_scheme \<Rightarrow> (int outcome \<times> 'a kernel_scheme) result" where
  "frozen_yield p s =
     bindR (release_p p s) (\<lambda>s. bindR (yield_out s) (\<lambda>(ena, s). Ok (Switched ena, s)))"

definition frozen_loop :: "nat \<Rightarrow> 'a kernel_scheme \<Rightarrow> (int outcome \<times> 'a kernel_scheme) result" where
  "frozen_loop p s =
     (let deliver = (\<lambda>s. bindR (signal_loop p [0..<32] s) (\<lambda>(r, s). Ok (Done r, s)))
      in if frozen (procs s p) \<noteq> 1 then deliver s
         else if pendding_signals (procs s p) AND sigbit SIGCONT = 0 then frozen_yield p s
         else bindR (release_p p s) (\<lambda>s.
              bindR (sigContHandler s) (\<lambda>s.
              bindR (acquire_p p s) (\<lambda>s.
              let s = clear_pending p SIGCONT s
              in if frozen (procs s p) \<noteq> 1 then deliver s else frozen_yield p s))))"

definition handle_pendding_sinals :: "'a kernel_scheme \<Rightarrow> (int outcome \<times> 'a kernel_scheme) result" where
  "handle_pendding_sinals = with_proc (\<lambda>p. with_thread (\<lambda>q i s.
     bindR (acquire_p p s) (\<lambda>s.
     bindR (tf_copy (user_trap_frame_backup (thr q i s)) (t_trapframe (thr q i s)) s) (frozen_loop p))))"

definition handle_pendding_sinals_back :: "bool \<Rightarrow> nat \<Rightarrow> 'a kernel_scheme
    \<Rightarrow> (int outcome \<times> 'a kernel_scheme) result" where
  "handle_pendding_sinals_back ena p s =
     bindR (yield_back ena p s) (\<lambda>s. bindR (acquire_p p s) (frozen_loop p))"

subsection \<open>What kill does\<close>

lemma kill_scan_spec:
  assumes "settled s" and "locks_free s" and "set ps \<subseteq> {..<NPROC}"
  shows "kill_scan pid sig ps s =
    (case find (\<lambda>p. p_pid (procs s p) = pid) ps of
       None \<Rightarrow> Ok (-1, s)
     | Some p \<Rightarrow> Ok (0, upd_proc p (\<lambda>pr. pr\<lparr>pendding_signals := pendding_signals pr OR sigbit sig\<rparr>) s))"
  using assms(3)
proof (induction ps)
  case Nil
  then show ?case by simp
next
  case (Cons p ps)
  then have lk: "free_lock (p_lock (procs s p))" using assms(2) by (simp add: locks_free_def)
  have k: "keeps_lock (\<lambda>pr. pr\<lparr>pendding_signals := pendding_signals pr OR sigbit sig\<rparr>)"
    by (simp add: keeps_lock_def)
  show ?case
    using Cons assms(1) lk
    by (simp add: acquire_p_hold hold_upd_proc [OF k] release_p_hold)
qed

lemma kill_eq:
  assumes "settled s" and "locks_free s"
  shows "kill pid signum s =
    (if signum < 0 \<or> 31 < signum then Ok (-1, s)
     else case scan NPROC (\<lambda>p. p_pid (procs s p) = pid) of
       None \<Rightarrow> Ok (-1, s)
     | Some p \<Rightarrow> Ok (0, upd_proc p (\<lambda>pr. pr\<lparr>pendding_signals :=
                   pendding_signals pr OR sigbit (nat signum)\<rparr>) s))"
proof -
  have "set [0..<NPROC] \<subseteq> {..<NPROC}" by auto
  from kill_scan_spec [OF assms this, of pid "nat signum"] show ?thesis
    by (simp add: kill_def scan_def)
qed

subsection \<open>Which signal is delivered, and how\<close>

text \<open>
  The action that the code takes on a signal. With \<^verbatim>\<open>SIG_DFL\<close> it kills the process for every signal but
  SIGSTOP, and so for a SIGCONT that finds the process running, which the assignment wants ignored.
\<close>

datatype disposition = KillIt | StopIt | ContIt | IgnoreIt | CatchIt

definition disposition_of :: "proc \<Rightarrow> nat \<Rightarrow> disposition" where
  "disposition_of pr i =
     (if i = SIGKILL then KillIt
      else if i = SIGSTOP then StopIt
      else if signal_handlers pr i = SIG_IGN then IgnoreIt
      else if signal_handlers pr i = of_nat SIGSTOP then StopIt
      else if signal_handlers pr i = of_nat SIGCONT then ContIt
      else if signal_handlers pr i = of_nat SIGKILL \<or> signal_handlers pr i = SIG_DFL then KillIt
      else CatchIt)"

definition deliverable :: "proc \<Rightarrow> nat \<Rightarrow> bool" where
  "deliverable pr i \<longleftrightarrow> pendding_signals pr AND sigbit i \<noteq> 0
     \<and> (i = SIGKILL \<or> i = SIGSTOP \<or> signal_mask pr AND sigbit i = 0)"

fun take_action :: "disposition \<Rightarrow> proc \<Rightarrow> proc" where
  "take_action KillIt pr = pr\<lparr>p_killed := 1,
     p_state := (if p_state pr = SLEEPING then RUNNABLE else p_state pr),
     threads := (\<lambda>i. if i < NTHREAD then kill_thread (threads pr i) else threads pr i)\<rparr>"
| "take_action StopIt pr = pr\<lparr>frozen := 1\<rparr>"
| "take_action ContIt pr = pr\<lparr>frozen := 0\<rparr>"
| "take_action IgnoreIt pr = pr"
| "take_action CatchIt pr = pr"

definition deliver_first :: "nat option \<Rightarrow> proc \<Rightarrow> int \<times> proc" where
  "deliver_first r pr =
     (case r of None \<Rightarrow> (-1, pr)
      | Some i \<Rightarrow>
          if disposition_of pr i = CatchIt then (int i, pr)
          else (-1, (take_action (disposition_of pr i) pr)\<lparr>pendding_signals :=
                 pendding_signals pr AND NOT (sigbit i)\<rparr>))"

lemma keeps_lock_action: "keeps_lock (take_action d)"
  by (cases d) (simp_all add: keeps_lock_def cong: if_cong)

lemma pending_action [simp]: "pendding_signals (take_action d pr) = pendding_signals pr"
  by (cases d) simp_all

lemma keeps_lock_pending: "keeps_lock (\<lambda>pr. pr\<lparr>pendding_signals := f (pendding_signals pr)\<rparr>)"
  by (simp add: keeps_lock_def)

lemma handled_hold:
  assumes "running p j s"
  shows "handled p i (hold p s) = Ok (-1, clear_pending p i s)"
proof -
  have "clear_pending p i (hold p s) = hold p (clear_pending p i s)"
    unfolding clear_pending_def by (rule hold_upd_proc [OF keeps_lock_pending])
  moreover have "running p j (clear_pending p i s)"
    unfolding clear_pending_def by (rule running_upd [OF assms keeps_lock_pending])
  ultimately show ?thesis
    by (simp add: handled_def release_p_hold runningD)
qed

lemma kernel_handlers:
  assumes "running p j s"
  shows "sigKillHandler (hold p s) = Ok (hold p (upd_proc p (take_action KillIt) s))"
    and "sigStopHandler s = Ok (upd_proc p (take_action StopIt) s)"
    and "sigContHandler s = Ok (upd_proc p (take_action ContIt) s)"
proof -
  note r = runningD [OF assms]
  note k = keeps_lock_action
  show "sigKillHandler (hold p s) = Ok (hold p (upd_proc p (take_action KillIt) s))"
    using r hold_upd_proc [OF k [of KillIt], of p s]
    by (simp add: sigKillHandler_def with_proc_settled with_thread_settled take_action.simps(1) [abs_def])
  show "sigStopHandler s = Ok (upd_proc p (take_action StopIt) s)"
    using r critical_section [OF r(1,2) k [of StopIt], of Ok] 
    by (simp add: sigStopHandler_def with_proc_settled bindR_Ok take_action.simps(2) [abs_def])
  show "sigContHandler s = Ok (upd_proc p (take_action ContIt) s)"
    using r critical_section [OF r(1,2) k [of ContIt], of Ok]
    by (simp add: sigContHandler_def with_proc_settled bindR_Ok take_action.simps(3) [abs_def])
qed

lemma handled_unlocked_hold:
  assumes "running p j s"
  shows "handled_unlocked p i sigStopHandler (hold p s) = Ok (-1, clear_pending p i (upd_proc p (take_action StopIt) s))"
    and "handled_unlocked p i sigContHandler (hold p s) = Ok (-1, clear_pending p i (upd_proc p (take_action ContIt) s))"
proof -
  note r = runningD [OF assms]
  have "running p j (upd_proc p (take_action d) s)" for d
    by (rule running_upd [OF assms keeps_lock_action])
  note u = runningD [OF this] handled_hold [OF this]
  show "handled_unlocked p i sigStopHandler (hold p s) = Ok (-1, clear_pending p i (upd_proc p (take_action StopIt) s))"
    unfolding handled_unlocked_def using r u(2) [of StopIt] u(5) [of i StopIt]
    by (simp add: release_p_hold kernel_handlers [OF assms] acquire_p_hold del: take_action.simps)
  show "handled_unlocked p i sigContHandler (hold p s) = Ok (-1, clear_pending p i (upd_proc p (take_action ContIt) s))"
    unfolding handled_unlocked_def using r u(2) [of ContIt] u(5) [of i ContIt]
    by (simp add: release_p_hold kernel_handlers [OF assms] acquire_p_hold del: take_action.simps)
qed

lemma clear_after_action:
  "clear_pending p i (upd_proc p (take_action d) s)
     = upd_proc p (\<lambda>pr. (take_action d pr)\<lparr>pendding_signals := pendding_signals pr AND NOT (sigbit i)\<rparr>) s"
  unfolding clear_pending_def upd_proc_upd_proc by (rule upd_proc_cong) simp

lemma signal_loop_spec:
  assumes "running p j s" and "signal_handling_flag (procs s p) = 0"
  shows "signal_loop p is (hold p s) =
     Ok (map_prod id (\<lambda>pr. upd_proc p (\<lambda>_. pr) s) (deliver_first (find (deliverable (procs s p)) is) (procs s p)))"
proof (induction "is")
  case Nil
  then show ?case
    using runningD [OF assms(1)] by (simp add: release_p_hold deliver_first_def upd_proc_id)
next
  case (Cons i "is")
  note r = runningD [OF assms(1)]
  have r': "running p j (upd_proc p (take_action d) s)" for d
    by (rule running_upd [OF assms(1) keeps_lock_action])
  show ?case
  proof (cases "deliverable (procs s p) i")
    case False
    then have "signal_loop p (i # is) (hold p s) = signal_loop p is (hold p s)"
      using assms(2) by (cases "pendding_signals (procs s p) AND sigbit i = 0") (simp_all add: deliverable_def)
    with False Cons.IH show ?thesis by simp
  next
    case True
    have upd: "upd_proc p (\<lambda>pr. (take_action d pr)\<lparr>pendding_signals := pendding_signals pr AND NOT (sigbit i)\<rparr>) s
      = upd_proc p (\<lambda>_. (take_action d (procs s p))\<lparr>pendding_signals :=
          pendding_signals (procs s p) AND NOT (sigbit i)\<rparr>) s" for d
      by (rule upd_proc_cong) simp
    have ign: "clear_pending p i s = clear_pending p i (upd_proc p (take_action IgnoreIt) s)"
      by (simp add: upd_proc_id)
    let ?r = "if disposition_of (procs s p) i = CatchIt then Ok (int i, s)
       else Ok (-1, clear_pending p i (upd_proc p (take_action (disposition_of (procs s p) i)) s))"
    have pend: "pendding_signals (procs s p) AND sigbit i \<noteq> 0"
      and mask: "i = SIGKILL \<or> i = SIGSTOP \<or> signal_mask (procs s p) AND sigbit i = 0"
      using True by (auto simp: deliverable_def)
    have "signal_loop p (i # is) (hold p s) = ?r"
    proof (cases "i = SIGKILL \<or> i = SIGSTOP")
      case True
      then show ?thesis
        using pend assms(2)
        by (elim disjE) (simp_all add: disposition_of_def kernel_handlers(1) [OF assms(1)] handled_hold [OF r']
            handled_unlocked_hold(1) [OF assms(1)] SIGKILL_def SIGSTOP_def del: take_action.simps)
    next
      case False
      with mask have "signal_mask (procs s p) AND sigbit i = 0" by blast
      then show ?thesis
        using False pend assms(2) r ign
        by (simp add: disposition_of_def Let_def release_p_hold kernel_handlers(1) [OF assms(1)]
            handled_hold [OF assms(1)] handled_hold [OF r'] handled_unlocked_hold [OF assms(1)]
            del: take_action.simps)
    qed
    with True show ?thesis
      by (simp add: deliver_first_def clear_after_action upd upd_proc_id del: take_action.simps)
  qed
qed

subsection \<open>Properties\<close>

text \<open>
  C21. \<^verbatim>\<open>kill\<close> with a signal number from 0 to 31 makes that signal pending in the first process of the
  table that has the given pid, returns 0 and changes nothing else; it returns -1 and changes nothing
  when there is no such process or the number is out of range.
\<close>

theorem kill_spec:
  assumes "settled s" and "locks_free s"
  shows "kill pid signum s =
    (if signum < 0 \<or> 31 < signum then Ok (-1, s)
     else case scan NPROC (\<lambda>p. p_pid (procs s p) = pid) of
       None \<Rightarrow> Ok (-1, s)
     | Some p \<Rightarrow> Ok (0, upd_proc p (\<lambda>pr. pr\<lparr>pendding_signals :=
                   pendding_signals pr OR sigbit (nat signum)\<rparr>) s))"
  using assms by (rule kill_eq)

theorem kill_spec_witness:
  "kill 7 9 kernel_example =
     Ok (0, upd_proc 2 (\<lambda>pr. pr\<lparr>pendding_signals := pendding_signals pr OR sigbit 9\<rparr>) kernel_example)
   \<and> kill 7 32 kernel_example = Ok (-1, kernel_example)
   \<and> kill 8 9 kernel_example = Ok (-1, kernel_example)"
proof -
  have pids: "p_pid (procs kernel_example p) = (if p = 2 then 7 else 0)" for p
    by (simp add: kernel_example_def proc_example_def proc0_def)
  have "scan NPROC (\<lambda>p. p_pid (procs kernel_example p) = 7) = Some 2"
    by (auto simp: scan_Some_iff pids NPROC_def)
  moreover have "scan NPROC (\<lambda>p. p_pid (procs kernel_example p) = 8) = None"
    by (auto simp: scan_None_iff pids)
  ultimately show ?thesis
    using kill_spec [OF kernel_example_settled kernel_example_free] by simp
qed

lemma handle_pendding_eq:
  assumes "running p i s" and "frozen (procs s p) \<noteq> 1" and "signal_handling_flag (procs s p) = 0"
    and "t_trapframe (thr p i s) \<noteq> 0" and "user_trap_frame_backup (thr p i s) \<noteq> 0"
  shows "handle_pendding_sinals s =
    (let (r, pr) = deliver_first (scan 32 (deliverable (procs s p))) (procs s p)
     in Ok (Done r, (upd_proc p (\<lambda>_. pr) s)\<lparr>mem := store_bytes (user_trap_frame_backup (thr p i s))
          (load_bytes (t_trapframe (thr p i s)) TF_SIZE (mem s)) (mem s)\<rparr>))"
proof -
  note r = runningD [OF assms(1)]
  let ?m = "store_bytes (user_trap_frame_backup (thr p i s))
          (load_bytes (t_trapframe (thr p i s)) TF_SIZE (mem s)) (mem s)"
  have "running p i (s\<lparr>mem := ?m\<rparr>)" using assms(1) by simp
  note loop = signal_loop_spec [OF this, of "[0..<32]"]
  have swap: "upd_proc p (\<lambda>_. pr) (s\<lparr>mem := ?m\<rparr>) = (upd_proc p (\<lambda>_. pr) s)\<lparr>mem := ?m\<rparr>" for pr
    by (simp add: upd_proc_def)
  show ?thesis
    using r assms(2-5) loop
    by (simp add: handle_pendding_sinals_def with_proc_settled with_thread_settled acquire_p_hold tf_hold
        tf_copy_def hold_mem frozen_loop_def scan_def swap split: prod.splits)
qed

text \<open>
  C23. Delivery on the way back to user space, for a process that is not stopped and not in a handler:
  the registers are saved, and of the pending signals that are SIGKILL, SIGSTOP or not blocked the one
  with the lowest number, and only that one, is acted on: SIGKILL and SIGSTOP by killing and stopping
  whatever the process asked for, the others as their handler says, where \<^verbatim>\<open>SIG_DFL\<close> kills, also for SIGCONT; a
  caught signal is returned for \<^verbatim>\<open>userhandler\<close> and stays pending until then, any other is cleared. Nothing
  else changes.
\<close>

theorem signal_delivery:
  assumes "running p i s" and "frozen (procs s p) \<noteq> 1" and "signal_handling_flag (procs s p) = 0"
    and "t_trapframe (thr p i s) \<noteq> 0" and "user_trap_frame_backup (thr p i s) \<noteq> 0"
  shows "handle_pendding_sinals s =
    (let (r, pr) = deliver_first (scan 32 (deliverable (procs s p))) (procs s p)
     in Ok (Done r, (upd_proc p (\<lambda>_. pr) s)\<lparr>mem := store_bytes (user_trap_frame_backup (thr p i s))
          (load_bytes (t_trapframe (thr p i s)) TF_SIZE (mem s)) (mem s)\<rparr>))"
  using assms by (rule handle_pendding_eq)

text \<open>The example process with SIGKILL and signal 3 pending, everything blocked and caught.\<close>

definition pending_example :: kernel where
  "pending_example = upd_proc 2 (\<lambda>pr. pr\<lparr>pendding_signals := sigbit 3 OR sigbit SIGKILL,
     signal_mask := NOT 0, signal_handlers := (\<lambda>_. 0x1000)\<rparr>) kernel_example"

lemma pending_example_running: "running 2 0 pending_example"
  unfolding pending_example_def using kernel_example_settled kernel_example_free
  by (intro running_upd) (simp_all add: running_def keeps_lock_def NPROC_def NTHREAD_def kernel_example_def mycpu_def cpu0_def)

theorem signal_delivery_witness:
  "\<exists>t. handle_pendding_sinals pending_example = Ok (Done (-1), t)
     \<and> p_killed (procs t 2) = 1 \<and> pendding_signals (procs t 2) = sigbit 3"
proof -
  have pr: "procs pending_example 2 = proc_example\<lparr>pendding_signals := sigbit 3 OR sigbit SIGKILL,
     signal_mask := NOT 0, signal_handlers := (\<lambda>_. 0x1000)\<rparr>"
    by (simp add: pending_example_def kernel_example_def)
  have thr: "thr 2 0 pending_example = threads proc_example 0"
    by (simp add: thr_def pr)
  have "deliverable (procs pending_example 2) j \<longleftrightarrow> j = SIGKILL" if "j < 32" for j
    using that
    by (auto simp: deliverable_def pr sigbit_def SIGKILL_def SIGSTOP_def proc_example_def proc0_def)
  then have "scan 32 (deliverable (procs pending_example 2)) = Some SIGKILL"
    by (auto simp: scan_Some_iff SIGKILL_def)
  then have "deliver_first (scan 32 (deliverable (procs pending_example 2))) (procs pending_example 2) =
      (-1, (take_action KillIt (procs pending_example 2))\<lparr>pendding_signals := sigbit 3\<rparr>)"
    by (simp add: deliver_first_def disposition_of_def pr sigbit_def SIGKILL_def del: take_action.simps)
  with signal_delivery [OF pending_example_running] show ?thesis
    by (simp add: thr) (simp add: pr proc_example_def proc0_def thread0_def)
qed

end
