(* ===== verification/Sigreturn.thy ===== *)
theory Sigreturn
  imports Signal
begin

text \<open>
  Caught signals: \<^verbatim>\<open>handle_pendding_sinals\<close> saves the registers, \<^verbatim>\<open>userhandler\<close> sends the thread into the handler
  of the process, and \<^verbatim>\<open>sigret\<close> copies the saved registers back; what \<^verbatim>\<open>sigaction\<close> installs as a handler; and
  what becomes of a SIGCONT that nobody waits for.
\<close>

subsection \<open>Signal sets\<close>

lemma bit_sigbit: "bit (sigbit i) n \<longleftrightarrow> n = i \<and> i < 32"
  by (auto simp: sigbit_def bit_simps bit_1_iff)

lemma sigbit_iff: "x AND sigbit i \<noteq> 0 \<longleftrightarrow> bit x i"
proof
  assume "x AND sigbit i \<noteq> 0"
  then obtain n where "bit (x AND sigbit i) n" by (auto simp: bit_eq_iff [of "x AND sigbit i" 0])
  then show "bit x i" by (auto simp: bit_simps bit_sigbit)
next
  assume "bit x i"
  moreover from this have "i < 32" using bit_imp_le_length by fastforce
  ultimately have "bit (x AND sigbit i) i" by (simp add: bit_simps bit_sigbit)
  then show "x AND sigbit i \<noteq> 0" by auto
qed

subsection \<open>Into a user handler and back\<close>

definition tf_range :: "uint64 \<Rightarrow> uint64 set" where
  "tf_range tf = {tf + of_nat j |j. j < TF_SIZE}"

lemma tf_range_byte: "unat off + 8 \<le> TF_SIZE \<Longrightarrow> i < 8 \<Longrightarrow> tf + off + of_nat i \<in> tf_range tf"
  unfolding tf_range_def by (auto intro!: exI [of _ "unat off + i"])

lemma load64_tf_cong:
  assumes "unat off + 8 \<le> TF_SIZE" and "\<And>a. a \<in> tf_range tf \<Longrightarrow> m' a = m a"
  shows "load64 m' (tf + off) = load64 m (tf + off)"
  by (rule load64_cong) (use assms tf_range_byte in blast)

lemma store64_tf:
  assumes "unat off + 8 \<le> TF_SIZE" and "a \<notin> tf_range tf"
  shows "store64 (tf + off) v m a = m a"
proof -
  have "\<not> unat (a - (tf + off)) < 8"
  proof
    assume "unat (a - (tf + off)) < 8"
    from tf_range_byte [OF assms(1) this, of tf] assms(2) show False by simp
  qed
  then show ?thesis by (simp add: store64_def Let_def)
qed

lemma load_bytes_cong: "(\<And>a. a \<in> tf_range tf \<Longrightarrow> m' a = m a) \<Longrightarrow> load_bytes tf TF_SIZE m' = load_bytes tf TF_SIZE m"
  unfolding load_bytes_def tf_range_def by (intro map_cong) auto

lemma load_store_bytes: "load_bytes tf TF_SIZE (store_bytes tf (load_bytes b TF_SIZE m) m') = load_bytes b TF_SIZE m"
  unfolding load_bytes_def store_bytes_def by (auto simp: TF_SIZE_def unat_of_nat intro!: map_cong)

lemma store_bytes_tf: "a \<notin> tf_range tf \<Longrightarrow> length bs = TF_SIZE \<Longrightarrow> store_bytes tf bs m a = m a"
proof -
  assume a: "a \<notin> tf_range tf" and len: "length bs = TF_SIZE"
  have "a = tf + of_nat (unat (a - tf))" by simp
  with a have "\<not> unat (a - tf) < TF_SIZE" unfolding tf_range_def by blast
  with len show ?thesis by (simp add: store_bytes_def Let_def)
qed

lemma length_load_bytes [simp]: "length (load_bytes a n m) = n"
  by (simp add: load_bytes_def)

lemma unat_reg: "r < 36 \<Longrightarrow> unat (8 * of_nat r :: uint64) = 8 * r"
  by (simp add: unat_word_ariths unat_of_nat)

lemma load64_copied:
  assumes "unat off + 8 \<le> TF_SIZE"
  shows "load64 (store_bytes tf (load_bytes bk TF_SIZE m) m') (tf + off) = load64 m (bk + off)"
proof (rule bit_eqI)
  fix n
  assume "possible_bit TYPE(64 word) n"
  then have n: "n < 64" by simp
  have d: "tf + off + of_nat (n div 8) - tf = off + of_nat (n div 8)" by (simp add: algebra_simps)
  have "n div 8 < 8" using n by (simp add: less_mult_imp_div_less)
  then have u: "unat (off + of_nat (n div 8)) = unat off + n div 8"
    using assms by (simp add: TF_SIZE_def unat_word_ariths unat_of_nat)
  have lt: "unat off + n div 8 < TF_SIZE" using assms \<open>n div 8 < 8\<close> by simp
  have "store_bytes tf (load_bytes bk TF_SIZE m) m' (tf + off + of_nat (n div 8)) = m (bk + off + of_nat (n div 8))"
    unfolding store_bytes_def d u Let_def using lt by (simp add: load_bytes_def add.assoc)
  then show "bit (load64 (store_bytes tf (load_bytes bk TF_SIZE m) m') (tf + off)) n = bit (load64 m (bk + off)) n"
    by (simp add: bit_load64)
qed

lemma load64_other_reg:
  assumes "q < 36" and "r < 36" and "q \<noteq> r"
  shows "load64 (store64 (tf + 8 * of_nat q) v m) (tf + 8 * of_nat r) = load64 m (tf + 8 * of_nat r)"
proof (rule load64_cong)
  fix i :: nat
  assume i: "i < 8"
  define d where "d = tf + 8 * of_nat r + of_nat i - (tf + 8 * of_nat q)"
  have "\<not> unat d < 8"
  proof
    assume l: "unat d < 8"
    have "8 * of_nat q + of_nat (unat d) = (8 * of_nat r + of_nat i :: uint64)" by (simp add: d_def)
    then have "(of_nat (8 * q + unat d) :: uint64) = of_nat (8 * r + i)" by simp
    then have "unat (of_nat (8 * q + unat d) :: uint64) = unat (of_nat (8 * r + i) :: uint64)" by (rule arg_cong)
    then have "8 * q + unat d = 8 * r + i" using assms(1,2) i l unfolding unat_of_nat by simp
    with i l have "q = r" by presburger
    with assms(3) show False by simp
  qed
  then show "store64 (tf + 8 * of_nat q) v m (tf + 8 * of_nat r + of_nat i) = m (tf + 8 * of_nat r + of_nat i)"
    by (simp add: store64_def Let_def d_def)
qed

lemma copyout_hold:
  "copyout pt d src (hold p s) = bindR (copyout pt d src s) (\<lambda>(r, t). Ok (r, hold p t))"
proof -
  from copyout_mem [of "mem s" pt d src] obtain r m where
    rm: "\<And>u :: 'a kernel_scheme. mem u = mem s \<Longrightarrow> copyout pt d src u = Ok (r, u\<lparr>mem := m\<rparr>)" by blast
  from rm [of s] rm [of "hold p s"] show ?thesis by (simp add: hold_mem)
qed

lemma user_mem_cong: "mem s = mem u \<Longrightarrow> user_mem pt s V = user_mem pt u V"
  and user_bytes_cong: "mem s = mem u \<Longrightarrow> user_bytes pt s = user_bytes pt u"
proof -
  assume eq: "mem s = mem u"
  have "upage pt s va = upage pt u va" "upage pt (s\<lparr>mem := m\<rparr>) va = upage pt (u\<lparr>mem := m\<rparr>) va" for m va
    using eq by (simp_all add: upage_mem [of s u] upage_mem [of "s\<lparr>mem := m\<rparr>" "u\<lparr>mem := m\<rparr>"])
  then show "user_mem pt s V = user_mem pt u V" "user_bytes pt s = user_bytes pt u"
    using eq by (simp_all add: user_mem_def user_bytes_def uaddr_def)
qed

text \<open>
  A thread whose trapframe and saved trapframe are kernel memory: neither they nor the page table are
  among the bytes the user can reach, so copies to the user leave them alone.
\<close>

definition sig_ready :: "nat \<Rightarrow> nat \<Rightarrow> 'a kernel_scheme \<Rightarrow> uint64 set \<Rightarrow> bool" where
  "sig_ready p i s V \<longleftrightarrow>
     (let tf = t_trapframe (thr p i s); bk = user_trap_frame_backup (thr p i s); pt = p_pagetable (procs s p)
      in running p i s \<and> tf \<noteq> 0 \<and> bk \<noteq> 0 \<and> user_mem pt s V \<and> tf_range tf \<subseteq> V \<and> tf_range bk \<subseteq> V
         \<and> tf_range tf \<inter> tf_range bk = {} \<and> user_bytes pt s \<inter> (tf_range tf \<union> tf_range bk) = {})"

lemma copyout_kernel:
  assumes "user_mem pt s V" and "user_bytes pt s \<inter> T = {}" and "\<And>a. a \<notin> V \<Longrightarrow> m a = mem s a"
  shows "\<exists>r m'. copyout pt d src (s\<lparr>mem := m\<rparr>) = Ok (r, s\<lparr>mem := m'\<rparr>)
           \<and> (\<forall>a\<in>T. m' a = m a) \<and> (\<forall>a. a \<notin> V \<longrightarrow> m' a = mem s a)"
proof -
  note keep = user_mem_store [OF assms(1,3)]
  have ub: "user_bytes pt (s\<lparr>mem := m\<rparr>) = user_bytes pt s"
    by (simp add: user_bytes_def keep(1,2))
  from copyout_frame [OF keep(3), of d src] obtain r m' where
    "copyout pt d src (s\<lparr>mem := m\<rparr>) = Ok (r, s\<lparr>mem := m\<rparr>\<lparr>mem := m'\<rparr>)"
    and m': "\<And>a. a \<notin> user_bytes pt s \<Longrightarrow> m' a = m a" unfolding ub by auto
  moreover from m' assms(2) have "\<forall>a\<in>T. m' a = m a" by blast
  moreover from m' assms(3) user_bytes_subset [OF assms(1)] have "\<forall>a. a \<notin> V \<longrightarrow> m' a = mem s a" by fastforce
  ultimately show ?thesis by auto
qed

definition enter_handler :: "nat \<Rightarrow> proc \<Rightarrow> proc" where
  "enter_handler k pr = pr\<lparr>signal_mask_backup := signal_mask pr, signal_mask := signal_handlers_mask pr k,
     signal_handling_flag := 1, pendding_signals := pendding_signals pr AND NOT (sigbit k)\<rparr>"

lemma userhandler_effect:
  assumes "sig_ready p i s V" and "k < 32"
  defines "tf \<equiv> t_trapframe (thr p i s)" and "bk \<equiv> user_trap_frame_backup (thr p i s)"
  defines "sp \<equiv> load64 (mem s) (tf + TF_sp) - of_nat TF_SIZE - of_nat (length (k_sigcode s))"
  shows "\<exists>m. userhandler k s = Ok ((upd_proc p (enter_handler k) s)\<lparr>mem := m\<rparr>)
     \<and> (\<forall>a\<in>tf_range bk. m a = mem s a)
     \<and> load64 m (tf + TF_epc) = signal_handlers (procs s p) k \<and> load64 m (tf + TF_a 0) = of_nat k
     \<and> load64 m (tf + TF_sp) = sp \<and> load64 m (tf + TF_ra) = sp"
proof -
  let ?pt = "p_pagetable (procs s p)" and ?T = "tf_range tf \<union> tf_range bk"
  let ?f = "\<lambda>pr. pr\<lparr>signal_mask_backup := signal_mask pr, signal_mask := signal_handlers_mask pr k,
     signal_handling_flag := 1\<rparr>"
  let ?u = "upd_proc p ?f s"
  have r: "running p i s" and nz: "tf \<noteq> 0" "bk \<noteq> 0" and um: "user_mem ?pt s V"
    and sub: "tf_range tf \<subseteq> V" and dis: "tf_range tf \<inter> tf_range bk = {}" and ub: "user_bytes ?pt s \<inter> ?T = {}"
    using assms(1) unfolding sig_ready_def tf_def bk_def Let_def by blast+
  have k: "keeps_lock ?f" by (simp add: keeps_lock_def)
  have um': "user_mem ?pt ?u V" "user_bytes ?pt ?u \<inter> ?T = {}"
    using um ub user_mem_cong [of s ?u] user_bytes_cong [of s ?u] by simp_all
  define m1 where "m1 = store64 (tf + TF_sp) (load64 (mem s) (tf + TF_sp) - of_nat TF_SIZE) (mem s)"
  have st: "store64 (tf + off) v m a = m a" if "unat off + 8 \<le> TF_SIZE" "a \<notin> tf_range tf" for off v m a
    using that by (rule store64_tf)
  have offs: "unat TF_sp + 8 \<le> TF_SIZE" "unat TF_epc + 8 \<le> TF_SIZE" "unat TF_ra + 8 \<le> TF_SIZE"
    "unat (TF_a 0) + 8 \<le> TF_SIZE" by (simp_all add: TF_defs)
  have V1: "m1 a = mem ?u a" if "a \<notin> V" for a using that sub st [OF offs(1)] by (auto simp: m1_def)
  obtain r2 m2 where m2: "copyout ?pt (load64 m1 (bk + TF_sp)) (load_bytes tf TF_SIZE m1) (?u\<lparr>mem := m1\<rparr>)
      = Ok (r2, ?u\<lparr>mem := m2\<rparr>)" and T2: "\<And>a. a \<in> ?T \<Longrightarrow> m2 a = m1 a" and V2: "\<And>a. a \<notin> V \<Longrightarrow> m2 a = mem ?u a"
    using copyout_kernel [OF um' V1] by blast
  define m3 where "m3 = store64 (tf + TF_epc) (signal_handlers (procs s p) k) m2"
  have "load64 m3 (tf + TF_sp) = load64 m2 (tf + TF_sp)"
    unfolding m3_def by (rule load64_store64_other) (simp_all add: TF_defs)
  also have "\<dots> = load64 m1 (tf + TF_sp)"
    by (rule load64_tf_cong [OF offs(1)]) (use T2 in blast)
  finally have sp3: "load64 m3 (tf + TF_sp) = load64 (mem s) (tf + TF_sp) - of_nat TF_SIZE" by (simp add: m1_def)
  define m4 where "m4 = store64 (tf + TF_sp) sp m3"
  have V4: "m4 a = mem ?u a" if "a \<notin> V" for a
  proof -
    from that sub have "a \<notin> tf_range tf" by blast
    with V2 [OF that] show ?thesis by (simp add: m3_def m4_def st [OF offs(1)] st [OF offs(2)])
  qed
  obtain r5 m5 where m5: "copyout ?pt sp (k_sigcode s) (?u\<lparr>mem := m4\<rparr>) = Ok (r5, ?u\<lparr>mem := m5\<rparr>)"
    and T5: "\<And>a. a \<in> ?T \<Longrightarrow> m5 a = m4 a"
    using copyout_kernel [OF um' V4] by blast
  define m6 where "m6 = store64 (tf + TF_a 0) (of_nat k) m5"
  define m7 where "m7 = store64 (tf + TF_ra) sp m6"
  have c5: "load64 m5 (tf + off) = load64 m4 (tf + off)" if "unat off + 8 \<le> TF_SIZE" for off
    by (rule load64_tf_cong [OF that]) (use T5 in blast)
  have sp6: "load64 m6 (tf + TF_sp) = sp"
    unfolding m6_def using c5 [OF offs(1)] by (subst load64_store64_other) (simp_all add: TF_defs m4_def)
  have epc: "load64 m7 (tf + TF_epc) = signal_handlers (procs s p) k"
    unfolding m7_def m6_def using c5 [OF offs(2)]
    by (simp add: load64_store64_other TF_defs m4_def m3_def)
  show ?thesis
  proof (intro exI conjI)
    note rd = runningD [OF r]
    have ptr: "t_trapframe (threads (procs s p) i) = tf" "user_trap_frame_backup (threads (procs s p) i) = bk"
      by (simp_all add: tf_def bk_def thr_def)
    have kp: "keeps_lock (\<lambda>pr. pr\<lparr>pendding_signals := pendding_signals pr AND NOT (sigbit k)\<rparr>)"
      by (simp add: keeps_lock_def)
    have fin: "upd_proc p (\<lambda>pr. pr\<lparr>pendding_signals := pendding_signals pr AND NOT (sigbit k)\<rparr>) (?u\<lparr>mem := m7\<rparr>)
        = (upd_proc p (enter_handler k) s)\<lparr>mem := m7\<rparr>"
      by (simp add: upd_proc_def enter_handler_def)
    show "userhandler k s = Ok ((upd_proc p (enter_handler k) s)\<lparr>mem := m7\<rparr>)"
      using rd assms(2) nz m2 m5 sp3 sp6
      by (simp add: userhandler_def with_proc_settled with_thread_settled acquire_p_hold hold_upd_proc [OF k]
          hold_upd_proc [OF kp] tf_get_def tf_set_def copyout_hold hold_mem thr_upd_proc ptr Let_def
          sp_def [symmetric] m1_def [symmetric] m3_def [symmetric] m4_def [symmetric] m6_def [symmetric]
          m7_def [symmetric] release_p_hold fin) (simp add: release_p_hold enter_handler_def)
    show "\<forall>a\<in>tf_range bk. m7 a = mem s a"
      using dis T2 T5 st [OF offs(1)] st [OF offs(2)] st [OF offs(3)] st [OF offs(4)]
      unfolding m7_def m6_def m4_def m3_def m1_def by (metis IntI UnCI empty_iff)
    show "load64 m7 (tf + TF_epc) = signal_handlers (procs s p) k" by (rule epc)
    show "load64 m7 (tf + TF_a 0) = of_nat k"
      unfolding m7_def by (subst load64_store64_other) (simp_all add: TF_defs m6_def)
    show "load64 m7 (tf + TF_sp) = sp"
      unfolding m7_def using sp6 by (subst load64_store64_other) (simp_all add: TF_defs)
    show "load64 m7 (tf + TF_ra) = sp" by (simp add: m7_def)
  qed
qed

lemma sigret_eq:
  assumes "running p i s" and "t_trapframe (thr p i s) \<noteq> 0" and "user_trap_frame_backup (thr p i s) \<noteq> 0"
  shows "sigret s = Ok ((upd_proc p (\<lambda>pr. pr\<lparr>signal_mask := signal_mask_backup pr, signal_handling_flag := 0\<rparr>) s)
           \<lparr>mem := store_bytes (t_trapframe (thr p i s))
             (load_bytes (user_trap_frame_backup (thr p i s)) TF_SIZE (mem s)) (mem s)\<rparr>)"
proof -
  have k: "keeps_lock (\<lambda>pr. pr\<lparr>signal_mask := signal_mask_backup pr, signal_handling_flag := 0\<rparr>)"
    by (simp add: keeps_lock_def)
  show ?thesis
    using runningD [OF assms(1)] assms(2,3)
    by (simp add: sigret_def with_proc_settled with_thread_settled acquire_p_hold tf_copy_def hold_mem
        hold_upd_proc [OF k] release_p_hold) (simp add: upd_proc_def)
qed

lemma sig_ready_saved:
  assumes "sig_ready p i s V"
  shows "sig_ready p i (s\<lparr>mem := store_bytes (user_trap_frame_backup (thr p i s))
           (load_bytes (t_trapframe (thr p i s)) TF_SIZE (mem s)) (mem s)\<rparr>) V"
proof -
  let ?tf = "t_trapframe (thr p i s)" and ?bk = "user_trap_frame_backup (thr p i s)"
    and ?pt = "p_pagetable (procs s p)"
  let ?m = "store_bytes ?bk (load_bytes ?tf TF_SIZE (mem s)) (mem s)"
  have um: "user_mem ?pt s V" and sub: "tf_range ?bk \<subseteq> V" using assms by (simp_all add: sig_ready_def Let_def)
  have "?m a = mem s a" if "a \<notin> V" for a
    using that sub by (intro store_bytes_tf) auto
  note keep = user_mem_store [OF um this]
  have "user_bytes ?pt (s\<lparr>mem := ?m\<rparr>) = user_bytes ?pt s" by (simp add: user_bytes_def keep(1,2))
  with assms keep(3) show ?thesis by (simp add: sig_ready_def Let_def thr_def)
qed

text \<open>
  On the way into a handler: when the first deliverable signal \<open>k\<close> is caught, \<^verbatim>\<open>handle_pendding_sinals\<close> saves the
  trapframe and returns \<open>k\<close>, and \<^verbatim>\<open>userhandler\<close> then enters the handler, which leaves the saved trapframe alone.
\<close>

lemma handler_entered:
  assumes "sig_ready p i s V" and "frozen (procs s p) \<noteq> 1" and "signal_handling_flag (procs s p) = 0"
    and "scan 32 (deliverable (procs s p)) = Some k" and "disposition_of (procs s p) k = CatchIt"
    and "tf = t_trapframe (thr p i s)" and "bk = user_trap_frame_backup (thr p i s)"
  shows "\<exists>s1 s2. handle_pendding_sinals s = Ok (Done (int k), s1) \<and> userhandler k s1 = Ok s2
     \<and> procs s2 = (procs s)(p := enter_handler k (procs s p))
     \<and> load64 (mem s2) (tf + TF_epc) = signal_handlers (procs s p) k
     \<and> load64 (mem s2) (tf + TF_a 0) = of_nat k
     \<and> load64 (mem s2) (tf + TF_ra) = load64 (mem s2) (tf + TF_sp)
     \<and> load_bytes bk TF_SIZE (mem s2) = load_bytes tf TF_SIZE (mem s) \<and> cpus s2 = cpus s \<and> tp s2 = tp s"
proof -
  have r: "running p i s" "tf \<noteq> 0" "bk \<noteq> 0" using assms(1,6,7) by (simp_all add: sig_ready_def Let_def)
  have k32: "k < 32" using assms(4) by (rule scan_SomeD)
  let ?s1 = "s\<lparr>mem := store_bytes bk (load_bytes tf TF_SIZE (mem s)) (mem s)\<rparr>"
  have ptr: "thr p i ?s1 = thr p i s" by (simp add: thr_def)
  have h: "handle_pendding_sinals s = Ok (Done (int k), ?s1)"
    using handle_pendding_eq [OF r(1) assms(2,3)] r(2,3) assms(4-7) by (simp add: deliver_first_def upd_proc_id)
  have "sig_ready p i ?s1 V" using sig_ready_saved [OF assms(1)] assms(6,7) by simp
  from userhandler_effect [OF this k32] obtain m where
    u: "userhandler k ?s1 = Ok ((upd_proc p (enter_handler k) ?s1)\<lparr>mem := m\<rparr>)"
    and bkm: "\<And>a. a \<in> tf_range bk \<Longrightarrow> m a = mem ?s1 a"
    and regs: "load64 m (tf + TF_epc) = signal_handlers (procs s p) k" "load64 m (tf + TF_a 0) = of_nat k"
      "load64 m (tf + TF_ra) = load64 m (tf + TF_sp)"
    unfolding ptr by (auto simp flip: assms(6,7))
  let ?s2 = "(upd_proc p (enter_handler k) ?s1)\<lparr>mem := m\<rparr>"
  have "load_bytes bk TF_SIZE m = load_bytes bk TF_SIZE (mem ?s1)" by (rule load_bytes_cong) (simp add: bkm)
  then have "load_bytes bk TF_SIZE (mem ?s2) = load_bytes tf TF_SIZE (mem s)" by (simp add: load_store_bytes)
  then show ?thesis
    using h u regs by (intro exI [of _ ?s1] exI [of _ ?s2]) (simp add: upd_proc_def)
qed

text \<open>The example process with signal 3 pending and caught at user address 0x100.\<close>

definition caught_example :: kernel where
  "caught_example = upd_proc 2 (\<lambda>pr. pr\<lparr>pendding_signals := sigbit 3,
     signal_handlers := (\<lambda>_. 0)(3 := 0x100)\<rparr>) kernel_example"

definition example_area :: "uint64 set" where
  "example_area = {a. in_page 0x87FFF000 a} \<union> {a. in_page 0x87FFB000 a} \<union> {a. in_page 0x87FFA000 a}"

lemma tf_range_page: "unat tf mod 4096 = 0 \<Longrightarrow> tf_range tf \<subseteq> {a. in_page tf a}"
  by (auto simp: tf_range_def in_page_def TF_SIZE_def unat_of_nat)

lemma caught_example_ready: "sig_ready 2 0 caught_example example_area"
proof -
  have run: "running 2 0 caught_example"
    unfolding caught_example_def using kernel_example_settled kernel_example_free
    by (intro running_upd)
       (simp_all add: running_def keeps_lock_def NPROC_def NTHREAD_def kernel_example_def mycpu_def cpu0_def)
  have ptr: "t_trapframe (thr 2 0 caught_example) = 0x87FFB000"
    "user_trap_frame_backup (thr 2 0 caught_example) = 0x87FFA000"
    "p_pagetable (procs caught_example 2) = 0x87FFC000" "mem caught_example = mem user_example"
    by (simp_all add: caught_example_def thr_def kernel_example_def proc_example_def)
  note tf = tf_range_page [of "0x87FFB000"] tf_range_page [of "0x87FFA000"]
  note apart = page_apart [of "0x87FFF000" "0x87FFB000"] page_apart [of "0x87FFF000" "0x87FFA000"]
    page_apart [of "0x87FFB000" "0x87FFA000"]
  have um: "user_mem 0x87FFC000 user_example example_area"
  proof (rule user_example_user_mem)
    fix b a
    assume "b \<in> {0x87FFC000, 0x87FFD000, 0x87FFE000}" and "in_page b a"
    with page_apart [of b "0x87FFF000" a] page_apart [of b "0x87FFB000" a] page_apart [of b "0x87FFA000" a]
    show "a \<notin> example_area" by (auto simp: example_area_def)
  qed (auto simp: example_area_def)
  have "user_bytes 0x87FFC000 user_example \<inter> (tf_range 0x87FFB000 \<union> tf_range 0x87FFA000) = {}"
    using user_example_bytes_eq tf apart by fastforce
  moreover have "tf_range 0x87FFB000 \<inter> tf_range 0x87FFA000 = {}" using tf apart by fastforce
  moreover have "tf_range 0x87FFB000 \<subseteq> example_area" "tf_range 0x87FFA000 \<subseteq> example_area"
    using tf by (auto simp: example_area_def)
  ultimately show ?thesis
    using run um user_mem_cong [of caught_example user_example] user_bytes_cong [of caught_example user_example] ptr
    by (simp add: sig_ready_def)
qed

lemma caught_example_signal:
  "scan 32 (deliverable (procs caught_example 2)) = Some 3" "disposition_of (procs caught_example 2) 3 = CatchIt"
  "frozen (procs caught_example 2) \<noteq> 1" "signal_handling_flag (procs caught_example 2) = 0"
  "t_trapframe (thr 2 0 caught_example) = 0x87FFB000" "user_trap_frame_backup (thr 2 0 caught_example) = 0x87FFA000"
proof -
  have pr: "procs caught_example 2 = proc_example\<lparr>pendding_signals := sigbit 3, signal_handlers := (\<lambda>_. 0)(3 := 0x100)\<rparr>"
    by (simp add: caught_example_def kernel_example_def)
  have "deliverable (procs caught_example 2) j \<longleftrightarrow> j = 3" if "j < 32" for j
    using that by (auto simp: deliverable_def pr sigbit_iff bit_sigbit proc_example_def proc0_def)
  then show "scan 32 (deliverable (procs caught_example 2)) = Some 3" by (auto simp: scan_Some_iff)
  show "disposition_of (procs caught_example 2) 3 = CatchIt"
    by (simp add: disposition_of_def pr SIGKILL_def SIGSTOP_def SIGCONT_def SIG_IGN_def SIG_DFL_def)
  show "frozen (procs caught_example 2) \<noteq> 1" "signal_handling_flag (procs caught_example 2) = 0"
    by (simp_all add: pr proc_example_def proc0_def)
  show "t_trapframe (thr 2 0 caught_example) = 0x87FFB000" "user_trap_frame_backup (thr 2 0 caught_example) = 0x87FFA000"
    by (simp_all add: thr_def pr proc_example_def)
qed

subsection \<open>Installing a handler\<close>

lemma copyin_mem: "mem s = mem u \<Longrightarrow> copyin pt va len s = copyin pt va len u"
proof (induction len arbitrary: va rule: less_induct)
  case (less len)
  have page: "upage pt s x = upage pt u x" for x using less.prems by (rule upage_mem)
  then have byte: "ubyte pt s x = ubyte pt u x" for x using less.prems by (simp add: ubyte_def uaddr_def)
  show ?case
  proof (cases "len = 0")
    case True
    then show ?thesis by (simp add: copyin.simps)
  next
    case False
    let ?n = "min (4096 - unat (va - PGROUNDDOWN va)) len"
    from False chunk_positive [of va] have "len - ?n < len" by auto
    from less.IH [OF this less.prems] show ?thesis
      using False by (simp add: copyin_step [OF _ refl] page byte)
  qed
qed

lemma copyin_hold [simp]: "copyin pt va len (hold p s) = copyin pt va len s"
  by (rule copyin_mem) simp

definition set_handler :: "nat \<Rightarrow> uchar list \<Rightarrow> proc \<Rightarrow> proc" where
  "set_handler sig bs pr = pr\<lparr>signal_handlers := (signal_handlers pr)(sig := le_word (take 8 bs)),
     signal_handlers_mask := (signal_handlers_mask pr)(sig := le_word (take 4 (drop 8 bs)))\<rparr>"

lemma sigaction_eq:
  assumes "running p i s"
  shows "sigaction stack signum act 0 s =
    (if signum < 0 \<or> 31 < signum \<or> signum = int SIGKILL \<or> signum = int SIGSTOP then Ok (-1, s)
     else if act = 0 then Ok (0, s)
     else bindR (copyin (p_pagetable (procs s p)) act 16 s) (\<lambda>(_, bs).
       Ok (0, upd_proc p (set_handler (nat signum) (bs @ drop (length bs) stack)) s)))"
proof -
  note r = runningD [OF assms]
  have k: "keeps_lock (set_handler sig bs)" for sig bs by (simp add: keeps_lock_def set_handler_def)
  have rel: "release_p p (upd_proc p (set_handler sig bs) (hold p s)) = Ok (upd_proc p (set_handler sig bs) s)" for sig bs
    using r by (simp add: hold_upd_proc [OF k] release_p_hold) (simp add: release_p_hold set_handler_def)
  show ?thesis
    using r rel by (auto simp: sigaction_def with_proc_settled acquire_p_hold release_p_hold set_handler_def [abs_def] Let_def
        simp del: take_append drop_append intro!: bindR_cong split: prod.splits)
qed

text \<open>
  C26. \<^verbatim>\<open>sigaction\<close> without \<^verbatim>\<open>oldact\<close>: a number outside 0 to 31, SIGKILL and SIGSTOP are refused with -1 and
  nothing changes; otherwise, when the 16 bytes at \<^verbatim>\<open>act\<close> are mapped, the handler and mask of exactly
  that signal become the first eight and the next four of them.
\<close>

theorem sigaction_installs:
  assumes "running p i s" and "\<And>j. j < 16 \<Longrightarrow> upage (p_pagetable (procs s p)) s (act + of_nat j) \<noteq> 0" and "act \<noteq> 0"
    and "length stack = 16"
  shows "sigaction stack signum act 0 s =
    (if signum < 0 \<or> 31 < signum \<or> signum = int SIGKILL \<or> signum = int SIGSTOP then Ok (-1, s)
     else Ok (0, upd_proc p (set_handler (nat signum)
       (map (\<lambda>j. ubyte (p_pagetable (procs s p)) s (act + of_nat j)) [0..<16])) s))"
  using copyin_bytes [of 16 "p_pagetable (procs s p)" s act] assms(2-)
  by (simp add: sigaction_eq [OF assms(1)])

theorem sigaction_installs_witness:
  "sigaction (replicate 16 7) 5 16 0 kernel_example =
     Ok (0, upd_proc 2 (set_handler 5 (map (\<lambda>j. ubyte 0x87FFC000 kernel_example (16 + of_nat j)) [0..<16])) kernel_example)
   \<and> sigaction (replicate 16 7) 9 16 0 kernel_example = Ok (-1, kernel_example)"
proof -
  have pt: "p_pagetable (procs kernel_example 2) = 0x87FFC000" "mem kernel_example = mem user_example"
    by (simp_all add: kernel_example_def proc_example_def)
  have "upage 0x87FFC000 kernel_example (16 + of_nat j) \<noteq> 0" if "j < 16" for j
  proof -
    have "PGROUNDDOWN (16 + of_nat j) = PGROUNDDOWN 16"
      by (rule PGROUNDDOWN_within) (use that in \<open>simp add: PGROUNDDOWN_def PGSIZE_def\<close>)
    then show ?thesis
      by (simp add: upage_mem [OF pt(2)] user_example_upage_eq PGROUNDDOWN_def PGSIZE_def)
  qed
  with sigaction_installs [OF kernel_example_running, of 16 "replicate 16 7"] show ?thesis
    by (simp add: pt SIGKILL_def SIGSTOP_def)
qed

text \<open>
  C27. \<^verbatim>\<open>sigaction\<close> does not look at the result of \<^verbatim>\<open>copyin\<close>: with an \<^verbatim>\<open>act\<close> that is not mapped it returns 0
  and installs whatever the kernel stack held in its place as handler and mask.
\<close>

theorem sigaction_bad_pointer:
  assumes "running p i s" and "upage (p_pagetable (procs s p)) s act = 0" and "act \<noteq> 0"
    and "0 \<le> signum" and "signum \<le> 31" and "signum \<noteq> int SIGKILL" and "signum \<noteq> int SIGSTOP"
  shows "sigaction stack signum act 0 s = Ok (0, upd_proc p (set_handler (nat signum) stack) s)"
  using copyin_step [of 16 _ act "p_pagetable (procs s p)" s] assms(2-)
  by (simp add: sigaction_eq [OF assms(1)])

theorem sigaction_bad_pointer_witness:
  "sigaction (replicate 16 7) 5 0x5000 0 kernel_example =
     Ok (0, upd_proc 2 (set_handler 5 (replicate 16 7)) kernel_example)"
proof -
  have pt: "p_pagetable (procs kernel_example 2) = 0x87FFC000" "mem kernel_example = mem user_example"
    by (simp_all add: kernel_example_def proc_example_def)
  have "upage 0x87FFC000 kernel_example 0x5000 = 0"
    by (simp add: upage_mem [OF pt(2)] user_example_upage_eq PGROUNDDOWN_def PGSIZE_def)
  with sigaction_bad_pointer [OF kernel_example_running, of "0x5000" 5 "replicate 16 7"] show ?thesis
    by (simp add: pt SIGKILL_def SIGSTOP_def)
qed

subsection \<open>SIGCONT of a process that is not stopped\<close>




end
