(* ===== verification/Semaphore.thy ===== *)
theory Semaphore
  imports Sched
begin

text \<open>
  Binary semaphores in \<^verbatim>\<open>kernel/proc.c\<close>. The first part models the kernel's operations on the table \<^verbatim>\<open>bsems\<close>; a round of
  the loop in \<^verbatim>\<open>bsem_down\<close>, which starts with \<^verbatim>\<open>bsem_lock\<close> held, either takes the semaphore or puts the
  thread to sleep. The second part gives each operation a closed form, shows that they implement an
  abstract semaphore, and that threads which call them to use a semaphore as a lock exclude each other.
\<close>

subsection \<open>Operations\<close>

definition bsem_alloc :: "'a kernel_scheme \<Rightarrow> (int \<times> 'a kernel_scheme) result" where
  "bsem_alloc s =
     bindR (acquire_bsem s) (\<lambda>s.
       case scan MAX_BSEM (\<lambda>b. b_state (bsems s b) = 0) of
         None \<Rightarrow> bindR (release_bsem s) (\<lambda>s. Ok (-1, s))
       | Some i \<Rightarrow>
           let s = s\<lparr>bsems := (bsems s)(i := \<lparr>b_state = 1, bid = int i, unlocked = 1\<rparr>)\<rparr>
           in bindR (release_bsem s) (\<lambda>s. Ok (bid (bsems s i), s)))"

text \<open>The operations index the table with a number from the user that nobody has checked.\<close>

definition in_table :: "int \<Rightarrow> bool" where
  "in_table b \<longleftrightarrow> 0 \<le> b \<and> b < int MAX_BSEM"

definition upd_bsem :: "nat \<Rightarrow> (bsem \<Rightarrow> bsem) \<Rightarrow> 'a kernel_scheme \<Rightarrow> 'a kernel_scheme" where
  "upd_bsem b f s = s\<lparr>bsems := (bsems s)(b := f (bsems s b))\<rparr>"

definition bsem_free :: "int \<Rightarrow> 'a kernel_scheme \<Rightarrow> 'a kernel_scheme result" where
  "bsem_free b s =
     bindR (acquire_bsem s) (\<lambda>s.
       if \<not> in_table b then Undef ''bsems index''
       else release_bsem (upd_bsem (nat b) (\<lambda>x. x\<lparr>b_state := 0\<rparr>) s))"

definition bsem_down_round :: "nat \<Rightarrow> 'a kernel_scheme \<Rightarrow> (unit outcome \<times> 'a kernel_scheme) result" where
  "bsem_down_round b s =
     (if unlocked (bsems s b) = 0
      then bindR (sleep_out (BsemChan b) release_bsem s) (\<lambda>(ena, s). Ok (Switched ena, s))
      else bindR (release_bsem (upd_bsem b (\<lambda>x. x\<lparr>unlocked := 0\<rparr>) s)) (\<lambda>s. Ok (Done (), s)))"

definition bsem_down :: "int \<Rightarrow> 'a kernel_scheme \<Rightarrow> (unit outcome \<times> 'a kernel_scheme) result" where
  "bsem_down b s =
     bindR (acquire_bsem s) (\<lambda>s.
       if \<not> in_table b then Undef ''bsems index'' else bsem_down_round (nat b) s)"

definition bsem_down_back :: "bool \<Rightarrow> nat \<Rightarrow> nat \<Rightarrow> nat \<Rightarrow> 'a kernel_scheme
    \<Rightarrow> (unit outcome \<times> 'a kernel_scheme) result" where
  "bsem_down_back ena p i b s = bindR (sleep_back ena p p i acquire_bsem s) (bsem_down_round b)"

definition bsem_up :: "int \<Rightarrow> 'a kernel_scheme \<Rightarrow> 'a kernel_scheme result" where
  "bsem_up b s =
     bindR (acquire_bsem s) (\<lambda>s.
       if \<not> in_table b then Undef ''bsems index''
       else bindR (wakeup (BsemChan (nat b)) (upd_bsem (nat b) (\<lambda>x. x\<lparr>unlocked := 1\<rparr>) s)) release_bsem)"

subsection \<open>The operations without the lock\<close>

definition hold_bsem :: "'a kernel_scheme \<Rightarrow> 'a kernel_scheme" where
  "hold_bsem s = (push_off s)\<lparr>bsem_lock := held (tp s) (bsem_lock s)\<rparr>"

lemma hold_bsem_fields [simp]:
  "procs (hold_bsem s) = procs s" "bsems (hold_bsem s) = bsems s" "tp (hold_bsem s) = tp s"
  "thr p i (hold_bsem s) = thr p i s" "mycpu (hold_bsem s) = mycpu (push_off s)"
  by (simp_all add: hold_bsem_def thr_def mycpu_def)

lemma mycpu_bsems [simp]: "mycpu (s\<lparr>bsems := B\<rparr>) = mycpu s"
  by (simp add: mycpu_def)

lemma settled_hold_bsem: "settled s \<Longrightarrow> settled (hold_bsem s)"
  using settled_same_mycpu [OF settled_push_off [of s], of "hold_bsem s"] by simp

lemma acquire_bsem_hold: "free_lock (bsem_lock s) \<Longrightarrow> acquire_bsem s = Ok (hold_bsem s)"
  by (simp add: acquire_bsem_def hold_bsem_def acquire_free free_lock_def)

lemma release_bsem_held:
  assumes "settled s" and "cpus u = cpus (push_off s)" and "tp u = tp s" and "free_lock lk"
    and "bsem_lock u = held (tp s) lk"
  shows "release_bsem u = Ok (u\<lparr>cpus := cpus s, bsem_lock := lk\<rparr>)"
  unfolding release_bsem_def assms(5) release_held [OF assms(1-4)] by simp

text \<open>An update that does not touch the machine or the lock commutes with holding it.\<close>

lemma release_bsem_hold:
  assumes "settled s" and "free_lock (bsem_lock s)"
    and "u = (hold_bsem s)\<lparr>procs := P, bsems := B\<rparr>"
  shows "release_bsem u = Ok (s\<lparr>procs := P, bsems := B\<rparr>)"
proof -
  have "release_bsem u = Ok (u\<lparr>cpus := cpus s, bsem_lock := bsem_lock s\<rparr>)"
    by (rule release_bsem_held [OF assms(1) _ _ assms(2)]) (simp_all add: assms(3) hold_bsem_def)
  then show ?thesis by (simp add: assms(3) hold_bsem_def push_off_eq upd_cpu_def)
qed

lemma release_bsem_hold':
  assumes "settled s" and "free_lock (bsem_lock s)"
  shows "release_bsem ((hold_bsem s)\<lparr>bsems := B\<rparr>) = Ok (s\<lparr>bsems := B\<rparr>)"
    and "release_bsem (hold_bsem s) = Ok s"
proof -
  have "(hold_bsem s)\<lparr>bsems := B\<rparr> = (hold_bsem s)\<lparr>procs := procs (hold_bsem s), bsems := B\<rparr>" for B by simp
  from release_bsem_hold [OF assms this] show "release_bsem ((hold_bsem s)\<lparr>bsems := B\<rparr>) = Ok (s\<lparr>bsems := B\<rparr>)" for B
    by simp
  have "hold_bsem s = (hold_bsem s)\<lparr>procs := procs (hold_bsem s), bsems := bsems (hold_bsem s)\<rparr>"
    by (simp del: hold_bsem_fields)
  from release_bsem_hold [OF assms this] show "release_bsem (hold_bsem s) = Ok s" by simp
qed

lemma locks_free_cong: "procs s = procs u \<Longrightarrow> locks_free s = locks_free u"
  by (simp add: locks_free_def)

lemma bsem_alloc_eq:
  assumes "settled s" and "free_lock (bsem_lock s)"
  shows "bsem_alloc s = (case scan MAX_BSEM (\<lambda>b. b_state (bsems s b) = 0) of
     None \<Rightarrow> Ok (-1, s)
   | Some i \<Rightarrow> Ok (int i, s\<lparr>bsems := (bsems s)(i := \<lparr>b_state = 1, bid = int i, unlocked = 1\<rparr>)\<rparr>))"
proof (cases "scan MAX_BSEM (\<lambda>b. b_state (bsems s b) = 0)")
  case None
  with assms show ?thesis by (simp add: bsem_alloc_def acquire_bsem_hold release_bsem_hold')
next
  case (Some i)
  with assms show ?thesis by (simp add: bsem_alloc_def acquire_bsem_hold release_bsem_hold')
qed

lemma bsem_up_eq:
  assumes "settled s" and "locks_free s" and "free_lock (bsem_lock s)" and "in_table b"
  shows "bsem_up b s = Ok (s\<lparr>procs := (\<lambda>p. if p < NPROC
           then wake_proc (BsemChan (nat b)) (c_thread (mycpu s)) p (procs s p) else procs s p),
         bsems := (bsems s)(nat b := (bsems s (nat b))\<lparr>unlocked := 1\<rparr>)\<rparr>)"
proof -
  let ?u = "upd_bsem (nat b) (\<lambda>x. x\<lparr>unlocked := 1\<rparr>) (hold_bsem s)"
  let ?P = "\<lambda>p. if p < NPROC
     then wake_proc (BsemChan (nat b)) (c_thread (mycpu s)) p (procs s p) else procs s p"
  have m: "mycpu ?u = mycpu (push_off s)" by (simp add: upd_bsem_def)
  have "settled ?u" using settled_same_mycpu [OF settled_push_off [OF assms(1)], of ?u] m by simp
  moreover have "locks_free ?u" using assms(2) by (simp add: locks_free_def upd_bsem_def)
  ultimately have "wakeup (BsemChan (nat b)) ?u = Ok (?u\<lparr>procs := ?P\<rparr>)"
    by (simp add: wakeup_spec) (simp add: upd_bsem_def cong: if_cong)
  moreover have "?u\<lparr>procs := ?P\<rparr> = (hold_bsem s)\<lparr>procs := ?P, bsems := (bsems s)(nat b := (bsems s (nat b))\<lparr>unlocked := 1\<rparr>)\<rparr>"
    by (simp add: upd_bsem_def)
  ultimately show ?thesis
    using assms(3,4) release_bsem_hold [OF assms(1,3)] by (simp add: bsem_up_def acquire_bsem_hold)
qed

lemma hold_both:
  assumes "settled s" and "free_lock (bsem_lock s)" and "free_lock (p_lock (procs s p))"
  shows "acquire_p p (hold_bsem s) = Ok (hold p (hold_bsem s))"
    and "release_bsem (hold p (hold_bsem s)) = Ok (hold p s)"
proof -
  show "acquire_p p (hold_bsem s) = Ok (hold p (hold_bsem s))"
    by (rule acquire_p_hold) (simp add: assms(3))
  have c: "cpus (hold p (hold_bsem s)) = cpus (push_off (push_off s))"
    by (simp add: hold_def hold_bsem_def push_off_eq upd_cpu_def mycpu_def)
  have "release_bsem (hold p (hold_bsem s))
      = Ok ((hold p (hold_bsem s))\<lparr>cpus := cpus (push_off s), bsem_lock := bsem_lock s\<rparr>)"
    by (rule release_bsem_held [OF settled_push_off [OF assms(1)] c _ assms(2)]) (simp_all add: hold_bsem_def)
  also have "(hold p (hold_bsem s))\<lparr>cpus := cpus (push_off s), bsem_lock := bsem_lock s\<rparr> = hold p s"
    by (simp add: hold_def hold_bsem_def upd_proc_def push_off_eq upd_cpu_def)
  finally show "release_bsem (hold p (hold_bsem s)) = Ok (hold p s)" .
qed

text \<open>The state in which \<^verbatim>\<open>sleep\<close> leaves the thread to the scheduler: asleep, holding only the lock of its process.\<close>

definition asleep_on :: "chan \<Rightarrow> nat \<Rightarrow> nat \<Rightarrow> 'a kernel_scheme \<Rightarrow> 'a kernel_scheme" where
  "asleep_on ch p i s =
     (let s = upd_thread p i (\<lambda>t. t\<lparr>t_chan := Some ch, t_state := SLEEPING, t_context := c_regs (mycpu s)\<rparr>) (hold p s)
      in upd_cpu (\<lambda>c. c\<lparr>c_regs := c_context c\<rparr>) s)"

lemma sched_asleep:
  assumes "running p i s" and "noff (mycpu s) = 0"
  shows "sched_out (upd_thread p i (\<lambda>t. t\<lparr>t_chan := Some ch, t_state := SLEEPING\<rparr>) (hold p s))
       = Ok (intr_get s, asleep_on ch p i s)"
proof -
  note r = runningD [OF assms(1)]
  let ?u = "upd_thread p i (\<lambda>t. t\<lparr>t_chan := Some ch, t_state := SLEEPING\<rparr>) (hold p s)"
  have m: "mycpu ?u = mycpu (push_off s)" by (simp add: upd_thread_def hold_def)
  have st: "settled ?u" using r(1) by (simp add: upd_thread_def)
  have lk: "holding (p_lock (procs ?u p)) ?u"
    by (simp add: upd_thread_def hold_def holding_def)
  have c: "c_proc (mycpu ?u) = Some p" "c_thread (mycpu ?u) = Some (p, i)" "noff (mycpu ?u) = 1"
    "intena (mycpu ?u) = intr_get s" "c_regs (mycpu ?u) = c_regs (mycpu s)"
    using r assms(2) unfolding m by (simp_all add: push_off_eq intr_get_iff)
  have i: "\<not> intr_get ?u" using intr_get_push_off [of s] m by (simp add: intr_get_def)
  have "upd_thread p i (\<lambda>t. t\<lparr>t_context := c_regs (mycpu s)\<rparr>) ?u
      = upd_thread p i (\<lambda>t. t\<lparr>t_chan := Some ch, t_state := SLEEPING, t_context := c_regs (mycpu s)\<rparr>) (hold p s)"
    by (simp add: upd_thread_def upd_proc_upd_proc comp_def)
  then show ?thesis
    using st lk c i
    by (simp add: sched_out_def with_proc_settled with_thread_settled asleep_on_def Let_def)
qed

lemma bsem_down_eq:
  assumes "running p i s" and "noff (mycpu s) = 0" and "tproc (thr p i s) = Some p"
    and "free_lock (bsem_lock s)" and "in_table b"
  shows "bsem_down b s =
    (if unlocked (bsems s (nat b)) = 0 then Ok (Switched (intr_get s), asleep_on (BsemChan (nat b)) p i s)
     else Ok (Done (), upd_bsem (nat b) (\<lambda>x. x\<lparr>unlocked := 0\<rparr>) s))"
proof -
  note r = runningD [OF assms(1)]
  have "c_thread (mycpu (hold_bsem s)) = Some (p, i)" using r(4) by simp
  moreover note settled_hold_bsem [OF r(1)] hold_both [OF r(1) assms(4) r(2)] sched_asleep [OF assms(1,2)]
  moreover have "release_bsem (upd_bsem (nat b) (\<lambda>x. x\<lparr>unlocked := 0\<rparr>) (hold_bsem s))
      = Ok (upd_bsem (nat b) (\<lambda>x. x\<lparr>unlocked := 0\<rparr>) s)"
    using release_bsem_hold' [OF r(1) assms(4)] by (simp add: upd_bsem_def)
  ultimately show ?thesis
    using assms(3-5)
    by (simp add: bsem_down_def bsem_down_round_def acquire_bsem_hold sleep_out_def with_thread_settled)
qed

subsection \<open>The abstract semaphore\<close>

text \<open>The threads that sleep on a semaphore; and whether it is free, with those threads.\<close>

definition sleepers :: "nat \<Rightarrow> 'a kernel_scheme \<Rightarrow> (nat \<times> nat) set" where
  "sleepers b s = {(p, i). p < NPROC \<and> i < NTHREAD \<and> t_state (thr p i s) = SLEEPING \<and> t_chan (thr p i s) = Some (BsemChan b)}"

definition bsem_abs :: "nat \<Rightarrow> 'a kernel_scheme \<Rightarrow> bool \<times> (nat \<times> nat) set" where
  "bsem_abs b s = (unlocked (bsems s b) \<noteq> 0, sleepers b s)"

definition down_spec :: "'t \<Rightarrow> bool \<times> 't set \<Rightarrow> bool \<times> (bool \<times> 't set)" where
  "down_spec me = (\<lambda>(free, A). if free then (True, (False, A)) else (False, (False, insert me A)))"

definition up_spec :: "bool \<times> 't set \<Rightarrow> bool \<times> 't set" where
  "up_spec = (\<lambda>(free, A). (True, {}))"

lemma thr_asleep_on:
  "thr q j (asleep_on ch p i s) = (if q = p \<and> j = i
     then (thr p i s)\<lparr>t_chan := Some ch, t_state := SLEEPING, t_context := c_regs (mycpu s)\<rparr> else thr q j s)"
  by (simp add: asleep_on_def Let_def)

lemma bsems_asleep_on [simp]: "bsems (asleep_on ch p i s) = bsems s" "bsem_lock (asleep_on ch p i s) = bsem_lock s"
  by (simp_all add: asleep_on_def Let_def upd_thread_def)

text \<open>
  C28. The kernel's semaphore implements the abstract one: for the running thread, \<^verbatim>\<open>bsem_down\<close> takes a
  free semaphore and returns; on one that is taken it puts the thread to sleep on it and has released
  the lock of the table when the thread stops running; \<^verbatim>\<open>bsem_up\<close> frees the semaphore and leaves no
  thread asleep on it. Each is one step of the abstract semaphore, so no wakeup is lost in between.
\<close>

theorem bsem_refines:
  assumes "running p i s" and "noff (mycpu s) = 0" and "tproc (thr p i s) = Some p"
    and "t_state (thr p i s) = RUNNING" and "free_lock (bsem_lock s)" and "in_table b"
  shows "(\<exists>r t. bsem_down b s = Ok (r, t) \<and> free_lock (bsem_lock t)
            \<and> down_spec (p, i) (bsem_abs (nat b) s) = (r = Done (), bsem_abs (nat b) t))
       \<and> (\<exists>t. bsem_up b s = Ok t \<and> free_lock (bsem_lock t) \<and> up_spec (bsem_abs (nat b) s) = bsem_abs (nat b) t)"
proof
  note r = runningD [OF assms(1)]
  have pi: "p < NPROC" "i < NTHREAD" and lf: "locks_free s" using assms(1) by (simp_all add: running_def)
  let ?b = "nat b"
  have ins: "snd (bsem_abs ?b (asleep_on (BsemChan ?b) p i s)) = insert (p, i) (snd (bsem_abs ?b s))"
    using pi by (auto simp: bsem_abs_def sleepers_def thr_asleep_on split: if_splits)
  have take: "bsem_abs ?b (upd_bsem ?b (\<lambda>x. x\<lparr>unlocked := 0\<rparr>) s) = (False, snd (bsem_abs ?b s))"
    by (simp add: bsem_abs_def sleepers_def upd_bsem_def thr_def)
  show "\<exists>r t. bsem_down b s = Ok (r, t) \<and> free_lock (bsem_lock t)
            \<and> down_spec (p, i) (bsem_abs ?b s) = (r = Done (), bsem_abs ?b t)"
  proof (cases "unlocked (bsems s ?b) = 0")
    case True
    then have "bsem_abs ?b (asleep_on (BsemChan ?b) p i s) = (False, insert (p, i) (snd (bsem_abs ?b s)))"
      using ins by (simp add: bsem_abs_def sleepers_def)
    with True bsem_down_eq [OF assms(1-3,5,6)] assms(5) show ?thesis by (simp add: down_spec_def bsem_abs_def sleepers_def)
  next
    case False
    with take bsem_down_eq [OF assms(1-3,5,6)] assms(5) show ?thesis
      by (simp add: down_spec_def bsem_abs_def sleepers_def upd_bsem_def)
  qed
  let ?t = "s\<lparr>procs := (\<lambda>p. if p < NPROC
      then wake_proc (BsemChan ?b) (c_thread (mycpu s)) p (procs s p) else procs s p),
    bsems := (bsems s)(?b := (bsems s ?b)\<lparr>unlocked := 1\<rparr>)\<rparr>"
  have "thr q j ?t = wake_thread (BsemChan ?b) (Some (p, i)) q j (thr q j s)" if "q < NPROC" "j < NTHREAD" for q j
    using that r(4) by (simp add: thr_def wake_proc_def)
  then have "bsem_abs ?b ?t = (True, {})"
    using assms(4) by (auto simp: bsem_abs_def sleepers_def wake_thread_def split: if_splits)
  with bsem_up_eq [OF r(1) lf assms(5,6)] assms(5)
  show "\<exists>t. bsem_up b s = Ok t \<and> free_lock (bsem_lock t) \<and> up_spec (bsem_abs ?b s) = bsem_abs ?b t"
    by (simp add: up_spec_def split: prod.splits)
qed


text \<open>Process 2 of the example runs its thread 0 and finds semaphore 5 taken.\<close>

theorem bsem_refines_witness:
  "bsem_abs 5 kernel_example = (False, {}) \<and>
   (\<exists>r t. bsem_down 5 kernel_example = Ok (r, t) \<and> r \<noteq> Done () \<and> bsem_abs 5 t = (False, {(2, 0)}))"
proof -
  have f: "free_lock (bsem_lock kernel_example)" "noff (mycpu kernel_example) = 0"
    "tproc (thr 2 0 kernel_example) = Some 2" "t_state (thr 2 0 kernel_example) = RUNNING" "in_table 5"
    by (simp_all add: kernel_example_def free_lock_def thr_def mycpu_def proc_example_def thread0_def cpu0_def in_table_def MAX_BSEM_def)
  have a: "bsem_abs 5 kernel_example = (False, {})"
    by (auto simp: bsem_abs_def sleepers_def kernel_example_def thr_def proc_example_def proc0_def thread0_def split: if_splits)
  show ?thesis
    using bsem_refines [OF kernel_example_running f(2-4) f(1) f(5)] a by (force simp: down_spec_def)
qed

subsection \<open>A semaphore used as a lock\<close>

text \<open>
  The operations hold \<^verbatim>\<open>bsem_lock\<close> from beginning to end, so the threads of all harts execute them one after
  the other; \<open>tp\<close> says on which hart the next one runs.
\<close>

lemma acquire_bsem_keeps: "acquire_bsem s = Ok t \<Longrightarrow> bsems t = bsems s"
  by (auto simp: acquire_bsem_def acquire_Ok_iff bindR_Ok_iff)

lemma pop_off_bsems: "pop_off s = Ok t \<Longrightarrow> bsems t = bsems s"
  by (auto simp: pop_off_def Let_def intr_on_def split: if_splits)

lemma release_bsem_keeps: "release_bsem s = Ok t \<Longrightarrow> bsems t = bsems s"
  by (auto simp: release_bsem_def release_def bindR_Ok_iff pop_off_bsems split: if_splits)

lemma acquire_p_bsems: "acquire_p p s = Ok t \<Longrightarrow> bsems t = bsems s"
  by (auto simp: acquire_p_def acquire_Ok_iff bindR_Ok_iff)

lemma release_p_bsems: "release_p p s = Ok t \<Longrightarrow> bsems t = bsems s"
  by (auto simp: release_p_def release_def bindR_Ok_iff pop_off_bsems split: if_splits)

lemma with_thread_bsems:
  assumes "with_thread f s = Ok (r, t)" and "bsems s = B" and "\<And>q i u. bsems u = B \<Longrightarrow> f q i u = Ok (r, t) \<Longrightarrow> bsems t = B"
  shows "bsems t = B"
proof -
  from assms(1) obtain q i u where "pop_off (push_off s) = Ok u" "f q i u = Ok (r, t)"
    by (auto simp: with_thread_def mythread_def bindR_Ok_iff split: option.splits)
  with assms(2,3) pop_off_bsems [of "push_off s" u] show ?thesis by simp
qed

lemma with_proc_bsems:
  assumes "with_proc f s = Ok (r, t)" and "bsems s = B" and "\<And>p u. bsems u = B \<Longrightarrow> f p u = Ok (r, t) \<Longrightarrow> bsems t = B"
  shows "bsems t = B"
proof -
  from assms(1) obtain p u where "pop_off (push_off s) = Ok u" "f p u = Ok (r, t)"
    by (auto simp: with_proc_def myproc_def bindR_Ok_iff split: option.splits)
  with assms(2,3) pop_off_bsems [of "push_off s" u] show ?thesis by simp
qed

lemma sched_out_bsems: "sched_out s = Ok (ena, t) \<Longrightarrow> bsems t = bsems s"
  unfolding sched_out_def
  by (erule with_proc_bsems, rule refl, erule with_thread_bsems, assumption)
     (auto simp: Let_def upd_thread_def split: if_splits)

lemma sleep_out_bsems: "sleep_out ch release_bsem s = Ok (ena, t) \<Longrightarrow> bsems t = bsems s"
  unfolding sleep_out_def
  by (erule with_thread_bsems, rule refl)
     (auto simp: bindR_Ok_iff upd_thread_def dest!: sched_out_bsems release_bsem_keeps acquire_p_bsems split: option.splits)

lemma sleep_back_bsems: "sleep_back ena p q i acquire_bsem s = Ok t \<Longrightarrow> bsems t = bsems s"
  by (auto simp: sleep_back_def sched_back_def bindR_Ok_iff upd_thread_def dest!: acquire_bsem_keeps release_p_bsems)

text \<open>A round of the loop takes the semaphore if it is free; otherwise the thread switches away and it stays taken.\<close>

lemma bsem_down_round_cases:
  assumes "bsem_down_round b s = Ok (r, t)"
  shows "(r = Done () \<and> unlocked (bsems s b) \<noteq> 0 \<or> r \<noteq> Done () \<and> unlocked (bsems s b) = 0) \<and> unlocked (bsems t b) = 0"
  using assms
  by (auto simp: bsem_down_round_def bindR_Ok_iff upd_bsem_def dest!: sleep_out_bsems release_bsem_keeps split: if_splits)

lemma bsem_down_cases:
  assumes "bsem_down (int b) s = Ok (r, t)"
  shows "(r = Done () \<and> unlocked (bsems s b) \<noteq> 0 \<or> r \<noteq> Done () \<and> unlocked (bsems s b) = 0) \<and> unlocked (bsems t b) = 0"
proof -
  from assms obtain u where u: "acquire_bsem s = Ok u" "bsem_down_round b u = Ok (r, t)"
    by (auto simp: bsem_down_def bindR_Ok_iff split: if_splits)
  from bsem_down_round_cases [OF u(2)] acquire_bsem_keeps [OF u(1)] show ?thesis by simp
qed

lemma bsem_down_back_cases:
  assumes "bsem_down_back ena p i b s = Ok (r, t)"
  shows "(r = Done () \<and> unlocked (bsems s b) \<noteq> 0 \<or> r \<noteq> Done () \<and> unlocked (bsems s b) = 0) \<and> unlocked (bsems t b) = 0"
proof -
  from assms obtain u where u: "sleep_back ena p p i acquire_bsem s = Ok u" "bsem_down_round b u = Ok (r, t)"
    by (auto simp: bsem_down_back_def bindR_Ok_iff)
  from bsem_down_round_cases [OF u(2)] sleep_back_bsems [OF u(1)] show ?thesis by simp
qed

lemma bsem_up_wakes:
  assumes "running p i s" and "t_state (thr p i s) = RUNNING" and "free_lock (bsem_lock s)" and "bsem_up (int b) s = Ok t"
  shows "unlocked (bsems t b) \<noteq> 0" and "sleepers b t = {}"
proof -
  note r = runningD [OF assms(1)]
  have lf: "locks_free s" using assms(1) by (simp add: running_def)
  have tab: "in_table (int b)" using assms(4) by (auto simp: bsem_up_def bindR_Ok_iff split: if_splits)
  have e: "nat (int b) = b" by simp
  have t: "t = s\<lparr>procs := (\<lambda>p. if p < NPROC then wake_proc (BsemChan b) (c_thread (mycpu s)) p (procs s p) else procs s p),
      bsems := (bsems s)(b := (bsems s b)\<lparr>unlocked := 1\<rparr>)\<rparr>"
    using bsem_up_eq [OF r(1) lf assms(3) tab, unfolded e] assms(4) by (simp only: result.inject)
  then show "unlocked (bsems t b) \<noteq> 0" by simp
  have "thr q j t = wake_thread (BsemChan b) (Some (p, i)) q j (thr q j s)" if "q < NPROC" "j < NTHREAD" for q j
    using that r(4) by (simp add: t thr_def wake_proc_def)
  then show "sleepers b t = {}"
    using assms(2) by (auto simp: sleepers_def wake_thread_def split: if_splits)
qed

text \<open>
  Where a thread is: outside; put to sleep in \<^verbatim>\<open>bsem_down\<close>, with \<^verbatim>\<open>intena\<close> on its stack; or inside, after \<^verbatim>\<open>bsem_down\<close> has
  returned and before it calls \<^verbatim>\<open>bsem_up\<close>.
\<close>

datatype sem_pc = Outside | Asleep bool | Inside

fun pc_after :: "unit outcome \<Rightarrow> sem_pc" where
  "pc_after (Done _) = Inside"
| "pc_after (Switched ena) = Asleep ena"

text \<open>
  The steps of a system whose threads use semaphore \<open>b\<close> as a lock. The last rule is everything else that
  the machine does, on any hart: it leaves the semaphore alone, and nobody goes to sleep on it. It may
  wake threads that sleep in \<^verbatim>\<open>bsem_down\<close>, as a signal does, and it may let any thread run next.
\<close>

inductive bsem_step :: "nat \<Rightarrow> 'a kernel_scheme \<times> (nat \<times> nat \<Rightarrow> sem_pc) \<Rightarrow> 'a kernel_scheme \<times> (nat \<times> nat \<Rightarrow> sem_pc) \<Rightarrow> bool"
  for b :: nat where
  call: "c_thread (mycpu s) = Some x \<Longrightarrow> at x = Outside \<Longrightarrow> bsem_down (int b) s = Ok (r, t) \<Longrightarrow>
    bsem_step b (s, at) (t, at(x := pc_after r))"
| resume: "c_thread (mycpu s) = Some (p, i) \<Longrightarrow> at (p, i) = Asleep ena \<Longrightarrow> bsem_down_back ena p i b s = Ok (r, t) \<Longrightarrow>
    bsem_step b (s, at) (t, at((p, i) := pc_after r))"
| leave: "running p i s \<Longrightarrow> t_state (thr p i s) = RUNNING \<Longrightarrow> free_lock (bsem_lock s) \<Longrightarrow> at (p, i) = Inside \<Longrightarrow>
    bsem_up (int b) s = Ok t \<Longrightarrow> bsem_step b (s, at) (t, at((p, i) := Outside))"
| other: "unlocked (bsems t b) = unlocked (bsems s b) \<Longrightarrow> sleepers b t \<subseteq> sleepers b s \<Longrightarrow> bsem_step b (s, at) (t, at)"

definition bsem_ok :: "nat \<Rightarrow> 'a kernel_scheme \<times> (nat \<times> nat \<Rightarrow> sem_pc) \<Rightarrow> bool" where
  "bsem_ok b = (\<lambda>(s, at). (\<forall>x y. at x = Inside \<longrightarrow> at y = Inside \<longrightarrow> x = y)
     \<and> (unlocked (bsems s b) \<noteq> 0 \<longleftrightarrow> (\<forall>x. at x \<noteq> Inside)) \<and> (unlocked (bsems s b) \<noteq> 0 \<longrightarrow> sleepers b s = {}))"

lemma bsem_ok_round:
  assumes "bsem_ok b (s, at)" and "at x \<noteq> Inside"
    and "(r = Done () \<and> unlocked (bsems s b) \<noteq> 0 \<or> r \<noteq> Done () \<and> unlocked (bsems s b) = 0) \<and> unlocked (bsems t b) = 0"
  shows "bsem_ok b (t, at(x := pc_after r))"
proof (cases r)
  case (Done u)
  with assms show ?thesis by (simp add: bsem_ok_def del: split_paired_All split_paired_Ex)
next
  case (Switched ena)
  with assms show ?thesis by (simp add: bsem_ok_def del: split_paired_All) metis
qed

lemma bsem_ok_step: "bsem_step b c d \<Longrightarrow> bsem_ok b c \<Longrightarrow> bsem_ok b d"
proof (induction rule: bsem_step.induct)
  case (call s x at r t)
  then show ?case by (intro bsem_ok_round [OF _ _ bsem_down_cases]) simp_all
next
  case (resume s p i at ena r t)
  then show ?case by (intro bsem_ok_round [OF _ _ bsem_down_back_cases]) simp_all
next
  case (leave p i s at t)
  then have "at x \<noteq> Inside" if "x \<noteq> (p, i)" for x
    using that by (auto simp: bsem_ok_def simp del: split_paired_All split_paired_Ex)
  with bsem_up_wakes [OF leave(1-3,5)] show ?case by (auto simp: bsem_ok_def simp del: split_paired_All split_paired_Ex)
next
  case (other t s at)
  then show ?case by (auto simp: bsem_ok_def)
qed

lemma bsem_ok_reachable: "(bsem_step b)\<^sup>*\<^sup>* c d \<Longrightarrow> bsem_ok b c \<Longrightarrow> bsem_ok b d"
  by (induction rule: rtranclp_induct) (auto intro: bsem_ok_step)

text \<open>
  C29. Mutual exclusion with the kernel's own operations. Threads on any harts call \<^verbatim>\<open>bsem_down\<close>, may be put to
  sleep in it, are woken by \<^verbatim>\<open>bsem_up\<close> or by a signal and go through the loop again, and leave with \<^verbatim>\<open>bsem_up\<close>,
  in any order and with anything else in between that leaves this semaphore alone. At most one of them
  is inside at a time. No wakeup is lost: whenever nobody is inside the semaphore is free and no thread
  sleeps on it.
\<close>

theorem bsem_mutual_exclusion:
  assumes "(bsem_step b)\<^sup>*\<^sup>* (s, \<lambda>_. Outside) (t, at)" and "unlocked (bsems s b) \<noteq> 0" and "sleepers b s = {}"
  shows "(at x = Inside \<and> at y = Inside \<longrightarrow> x = y)
    \<and> ((\<forall>x. at x \<noteq> Inside) \<longrightarrow> unlocked (bsems t b) \<noteq> 0 \<and> sleepers b t = {})"
proof -
  have "bsem_ok b (s, \<lambda>_. Outside)" using assms(2,3) by (simp add: bsem_ok_def)
  with bsem_ok_reachable [OF assms(1)] have "bsem_ok b (t, at)" by blast
  then show ?thesis by (simp add: bsem_ok_def del: split_paired_All)
qed

text \<open>Semaphore 5 is free; thread 0 of process 2 takes it, and thread 1 is put to sleep on it.\<close>

definition sem_example :: kernel where
  "sem_example = upd_bsem 5 (\<lambda>x. x\<lparr>unlocked := 1\<rparr>) (upd_thread 2 1 (\<lambda>t. t\<lparr>tproc := Some 2\<rparr>) kernel_example)"

theorem bsem_mutual_exclusion_witness:
  "\<exists>t at. (bsem_step 5)\<^sup>*\<^sup>* (sem_example, \<lambda>_. Outside) (t, at) \<and> at (2, 0) = Inside \<and> at (2, 1) \<noteq> Inside"
proof -
  let ?t = "upd_bsem 5 (\<lambda>x. x\<lparr>unlocked := 0\<rparr>) sem_example"
  let ?u = "upd_cpu (\<lambda>c. c\<lparr>c_thread := Some (2, 1)\<rparr>) ?t"
  let ?at = "(\<lambda>_. Outside)((2 :: nat, 0 :: nat) := Inside)"
  have s: "settled sem_example" "settled ?t" "settled ?u"
    using kernel_example_settled
    by (simp_all add: settled_def off_inv_def intr_get_def mycpu_def sem_example_def upd_bsem_def upd_thread_def upd_cpu_def upd_proc_def)
  have l: "locks_free sem_example" "locks_free ?u"
    using kernel_example_free by (simp_all add: locks_free_def sem_example_def upd_bsem_def upd_thread_def)
  have m: "c_thread (mycpu sem_example) = Some (2, 0)" "c_proc (mycpu sem_example) = Some 2" "noff (mycpu sem_example) = 0"
    by (simp_all add: sem_example_def upd_bsem_def upd_thread_def kernel_example_def mycpu_def cpu0_def upd_proc_def)
  have th: "tproc (thr 2 i ?u) = Some 2" "tproc (thr 2 i sem_example) = Some 2" if "i < 2" for i
    using that by (auto simp: sem_example_def upd_bsem_def upd_thread_def thr_def kernel_example_def proc_example_def thread0_def upd_proc_def less_2_cases_iff)
  have b: "free_lock (bsem_lock sem_example)" "free_lock (bsem_lock ?u)" "in_table 5" "unlocked (bsems sem_example 5) = 1"
    by (simp_all add: sem_example_def upd_bsem_def upd_thread_def kernel_example_def free_lock_def in_table_def MAX_BSEM_def)
  have n: "sleepers 5 sem_example = {}"
    by (auto simp: sleepers_def sem_example_def upd_bsem_def upd_thread_def kernel_example_def thr_def proc_example_def proc0_def thread0_def upd_proc_def split: if_splits)
  have r: "running 2 0 sem_example" "running 2 1 ?u"
    using s l m by (simp_all add: running_def NPROC_def NTHREAD_def upd_bsem_def mycpu_def upd_cpu_def)
  have d: "bsem_down (int 5) sem_example = Ok (Done (), ?t)"
    using bsem_down_eq [OF r(1) m(3) _ b(1,3)] th(2) b(4) by simp
  have "bsem_step 5 (sem_example, \<lambda>_. Outside) (?t, ?at)"
    using bsem_step.call [OF m(1) refl d] by simp
  moreover have "bsem_step 5 (?t, ?at) (?u, ?at)"
    by (rule bsem_step.other) (simp_all add: sleepers_def thr_def)
  ultimately have run: "(bsem_step 5)\<^sup>*\<^sup>* (sem_example, \<lambda>_. Outside) (?u, ?at)" by (meson r_into_rtranclp rtranclp_trans)
  have "noff (mycpu ?u) = 0" using m(3) by (simp add: upd_bsem_def)
  from bsem_down_eq [OF r(2) this th(1) b(2,3)] obtain ena w where "bsem_down (int 5) ?u = Ok (Switched ena, w)"
    by (auto simp: upd_bsem_def)
  from bsem_step.call [OF _ _ this, of "(2, 1)" ?at] have "bsem_step 5 (?u, ?at) (w, ?at((2, 1) := Asleep ena))" by simp
  with run have run': "(bsem_step 5)\<^sup>*\<^sup>* (sem_example, \<lambda>_. Outside) (w, ?at((2, 1) := Asleep ena))" by (rule rtranclp.rtrancl_into_rtrancl)
  from bsem_mutual_exclusion [OF run' _ n, of "(2, 0)" "(2, 1)"] b(4) run' show ?thesis
    by (intro exI [of _ w] exI [of _ "?at((2, 1) := Asleep ena)"]) auto
qed

end
