(* ===== verification/CountingSem.thy ===== *)
theory CountingSem
  imports Semaphore
begin

text \<open>
  The counting semaphores of \<^verbatim>\<open>user/Csemaphore.c\<close>, built from two binary semaphores and a counter in
  memory that the threads of a process share. \<^verbatim>\<open>csem_alloc\<close> and \<^verbatim>\<open>csem_free\<close> are functions over the
  kernel; \<^verbatim>\<open>csem_down\<close> and \<^verbatim>\<open>csem_up\<close>, which may wait in the middle, are a step relation with one rule per
  statement, over the abstract binary semaphores of the previous theory.
\<close>

subsection \<open>Allocation\<close>

record counting_semaphore =
  cs_value :: int
  cs_s1 :: int
  cs_s2 :: int

text \<open>
  \<^verbatim>\<open>csem_alloc\<close> returns what it stores in the structure, nothing when it fails. The result of the call is a
  switch when \<^verbatim>\<open>bsem_down\<close> does not come back.
\<close>

definition csem_alloc :: "int \<Rightarrow> 'a kernel_scheme \<Rightarrow> ((int \<times> counting_semaphore option) outcome \<times> 'a kernel_scheme) result" where
  "csem_alloc initial_value s =
     bindR (bsem_alloc s) (\<lambda>(s1, s).
     bindR (bsem_alloc s) (\<lambda>(s2, s).
     bindR (if initial_value = 0 then bsem_down s2 s else Ok (Done (), s)) (\<lambda>(r, s).
       case r of
         Switched ena \<Rightarrow> Ok (Switched ena, s)
       | Done _ \<Rightarrow>
           if s1 < 0 \<or> s2 < 0 then Ok (Done (-1, None), s)
           else Ok (Done (0, Some \<lparr>cs_value = initial_value, cs_s1 = s1, cs_s2 = s2\<rparr>), s))))"

definition csem_free :: "counting_semaphore \<Rightarrow> 'a kernel_scheme \<Rightarrow> (counting_semaphore \<times> 'a kernel_scheme) result" where
  "csem_free m s =
     bindR (bsem_free (cs_s1 m) s) (\<lambda>s. bindR (bsem_free (cs_s2 m) s) (\<lambda>s. Ok (m\<lparr>cs_value := 0\<rparr>, s)))"

subsection \<open>Waiting and posting\<close>

text \<open>
  A thread is outside or at the statement it executes next; \<open>DownS2\<close>, \<open>DownS1\<close>, \<open>DownDec\<close>,
  \<open>DownTest\<close> and \<open>DownEnd\<close> are the five lines of \<^verbatim>\<open>csem_down\<close>, \<open>UpS1\<close> and so on the four of \<^verbatim>\<open>csem_up\<close>. The
  counters \<open>downs\<close> and \<open>ups\<close> record how often the value was changed.
\<close>

datatype csem_pc = Idle | DownS2 | DownS1 | DownDec | DownTest | DownEnd | UpS1 | UpInc | UpTest | UpEnd

record 't csem_sys =
  free1 :: bool
  free2 :: bool
  cvalue :: int
  at :: "'t \<Rightarrow> csem_pc"
  downs :: nat
  ups :: nat

definition goto :: "'t \<Rightarrow> csem_pc \<Rightarrow> 't csem_sys \<Rightarrow> 't csem_sys" where
  "goto t pc c = c\<lparr>at := (at c)(t := pc)\<rparr>"

inductive csem_step :: "'t csem_sys \<Rightarrow> 't csem_sys \<Rightarrow> bool" where
  call_down: "at c t = Idle \<Longrightarrow> csem_step c (goto t DownS2 c)"
| call_up: "at c t = Idle \<Longrightarrow> csem_step c (goto t UpS1 c)"
| down_s2: "at c t = DownS2 \<Longrightarrow> free2 c \<Longrightarrow> csem_step c (goto t DownS1 (c\<lparr>free2 := False\<rparr>))"
| down_s1: "at c t = DownS1 \<Longrightarrow> free1 c \<Longrightarrow> csem_step c (goto t DownDec (c\<lparr>free1 := False\<rparr>))"
| down_dec: "at c t = DownDec \<Longrightarrow> csem_step c (goto t DownTest (c\<lparr>cvalue := cvalue c - 1, downs := Suc (downs c)\<rparr>))"
| down_test: "at c t = DownTest \<Longrightarrow> csem_step c (goto t DownEnd (if cvalue c > 0 then c\<lparr>free2 := True\<rparr> else c))"
| down_end: "at c t = DownEnd \<Longrightarrow> csem_step c (goto t Idle (c\<lparr>free1 := True\<rparr>))"
| up_s1: "at c t = UpS1 \<Longrightarrow> free1 c \<Longrightarrow> csem_step c (goto t UpInc (c\<lparr>free1 := False\<rparr>))"
| up_inc: "at c t = UpInc \<Longrightarrow> cvalue c < INT_MAX \<Longrightarrow>
    csem_step c (goto t UpTest (c\<lparr>cvalue := cvalue c + 1, ups := Suc (ups c)\<rparr>))"
| up_test: "at c t = UpTest \<Longrightarrow> csem_step c (goto t UpEnd (if cvalue c = 1 then c\<lparr>free2 := True\<rparr> else c))"
| up_end: "at c t = UpEnd \<Longrightarrow> csem_step c (goto t Idle (c\<lparr>free1 := True\<rparr>))"

text \<open>After \<^verbatim>\<open>csem_alloc(sem, v)\<close>, which takes \<^verbatim>\<open>s2\<close> when the value is zero.\<close>

definition csem_start :: "int \<Rightarrow> 't csem_sys" where
  "csem_start v = \<lparr>free1 = True, free2 = (v \<noteq> 0), cvalue = v, at = (\<lambda>_. Idle), downs = 0, ups = 0\<rparr>"

text \<open>A thread between its two operations on \<^verbatim>\<open>s1\<close>, and a thread that has taken \<^verbatim>\<open>s2\<close> or is about to give it back.\<close>

definition crit :: "csem_pc \<Rightarrow> bool" where
  "crit pc \<longleftrightarrow> pc \<in> {DownDec, DownTest, DownEnd, UpInc, UpTest, UpEnd}"

definition token :: "int \<Rightarrow> csem_pc \<Rightarrow> bool" where
  "token v pc \<longleftrightarrow> pc = DownS1 \<or> pc = DownDec \<or> pc = DownTest \<and> v > 0 \<or> pc = UpTest \<and> v = 1"

text \<open>
  The two facts the invariant states of \<^verbatim>\<open>s1\<close> and of \<^verbatim>\<open>s2\<close> have one shape: a flag is free, or exactly one
  thread has what it guards.
\<close>

definition unique :: "bool \<Rightarrow> ('t \<Rightarrow> bool) \<Rightarrow> bool" where
  "unique free has \<longleftrightarrow> (if free then (\<forall>t. \<not> has t) else (\<exists>!t. has t))"

definition tokens_ok :: "bool \<Rightarrow> int \<Rightarrow> ('t \<Rightarrow> bool) \<Rightarrow> bool" where
  "tokens_ok free v has \<longleftrightarrow> (if v > 0 then unique free has else \<not> free \<and> (\<forall>t. \<not> has t))"

definition csem_ok :: "int \<Rightarrow> 't csem_sys \<Rightarrow> bool" where
  "csem_ok v c \<longleftrightarrow> unique (free1 c) (\<lambda>t. crit (at c t))
     \<and> tokens_ok (free2 c) (cvalue c) (\<lambda>t. token (cvalue c) (at c t))
     \<and> 0 \<le> cvalue c \<and> cvalue c = v + int (ups c) - int (downs c)"

lemma unique_take: "unique True P \<Longrightarrow> unique False (P(t := True))"
  by (auto simp: unique_def split: if_splits)

lemma unique_give: "unique f P \<Longrightarrow> P t \<Longrightarrow> unique True (P(t := False))"
  by (auto simp: unique_def split: if_splits)

lemma unique_holds: "unique f P \<Longrightarrow> P t \<Longrightarrow> \<not> f \<and> (\<forall>u. P u \<longrightarrow> u = t)"
  by (auto simp: unique_def split: if_splits)

lemma unique_none: "\<forall>t. \<not> P t \<Longrightarrow> unique False (P(t := True))"
  by (auto simp: unique_def split: if_splits)

lemma goto_fields [simp]:
  "free1 (goto t pc c) = free1 c" "free2 (goto t pc c) = free2 c" "cvalue (goto t pc c) = cvalue c"
  "downs (goto t pc c) = downs c" "ups (goto t pc c) = ups c"
  by (simp_all add: goto_def)

lemma crit_goto: "(\<lambda>u. crit (at (goto t pc c) u)) = (\<lambda>u. crit (at c u))(t := crit pc)"
  by (auto simp: goto_def)

lemma token_goto: "(\<lambda>u. token v (at (goto t pc c) u)) = (\<lambda>u. token v (at c u))(t := token v pc)"
  by (auto simp: goto_def)

lemma token_outside: "\<not> crit pc \<Longrightarrow> token v pc = token w pc"
  by (auto simp: crit_def token_def)

text \<open>The value is changed only between the operations on \<^verbatim>\<open>s1\<close>, where no other thread looks at it.\<close>

lemma token_change:
  assumes "unique f (\<lambda>u. crit (at c u))" and "crit (at c t)"
  shows "(\<lambda>u. token w (at c u))(t := b) = (\<lambda>u. token v (at c u))(t := b)"
proof -
  have "\<not> crit (at c u)" if "u \<noteq> t" for u using unique_holds [OF assms(1), of t] assms(2) that by blast
  then have "token w (at c u) = token v (at c u)" if "u \<noteq> t" for u using that by (intro token_outside) blast
  then show ?thesis by (intro ext) simp
qed

lemma csem_okI:
  assumes "unique (free1 c) (\<lambda>t. crit (at c t))" and "tokens_ok (free2 c) (cvalue c) (\<lambda>t. token (cvalue c) (at c t))"
    and "0 \<le> cvalue c" and "cvalue c = v + int (ups c) - int (downs c)"
  shows "csem_ok v c"
  using assms unfolding csem_ok_def by blast

lemma csem_okD:
  assumes "csem_ok v c"
  shows "unique (free1 c) (\<lambda>t. crit (at c t))" and "tokens_ok (free2 c) (cvalue c) (\<lambda>t. token (cvalue c) (at c t))"
    and "0 \<le> cvalue c" and "cvalue c = v + int (ups c) - int (downs c)"
  using assms unfolding csem_ok_def by blast+

lemma csem_ok_enter:
  assumes "csem_ok v c" and "\<not> crit (at c t)" and "crit pc" and "token (cvalue c) pc = token (cvalue c) (at c t)" and "free1 c"
  shows "csem_ok v (goto t pc (c\<lparr>free1 := False\<rparr>))"
proof (rule csem_okI)
  show "unique (free1 (goto t pc (c\<lparr>free1 := False\<rparr>))) (\<lambda>u. crit (at (goto t pc (c\<lparr>free1 := False\<rparr>)) u))"
    unfolding crit_goto using assms csem_okD(1) [OF assms(1)] by (simp add: unique_take)
  show "tokens_ok (free2 (goto t pc (c\<lparr>free1 := False\<rparr>))) (cvalue (goto t pc (c\<lparr>free1 := False\<rparr>)))
      (\<lambda>u. token (cvalue (goto t pc (c\<lparr>free1 := False\<rparr>))) (at (goto t pc (c\<lparr>free1 := False\<rparr>)) u))"
    unfolding token_goto using assms csem_okD(2) [OF assms(1)] by (simp add: fun_upd_idem)
qed (use csem_okD [OF assms(1)] in simp_all)

lemma csem_ok_leave:
  assumes "csem_ok v c" and "crit (at c t)" and "\<not> token (cvalue c) (at c t)"
  shows "csem_ok v (goto t Idle (c\<lparr>free1 := True\<rparr>))"
proof (rule csem_okI)
  let ?d = "goto t Idle (c\<lparr>free1 := True\<rparr>)"
  have "\<not> crit Idle" "\<not> token (cvalue c) Idle" by (simp_all add: crit_def token_def)
  then show "unique (free1 ?d) (\<lambda>u. crit (at ?d u))" "tokens_ok (free2 ?d) (cvalue ?d) (\<lambda>u. token (cvalue ?d) (at ?d u))"
    unfolding crit_goto token_goto using assms csem_okD(1,2) [OF assms(1)]
    by (simp_all add: unique_give fun_upd_idem)
qed (use csem_okD [OF assms(1)] in simp_all)

text \<open>A step inside or outside the critical section that leaves \<^verbatim>\<open>s1\<close> alone.\<close>

lemma csem_ok_inside:
  assumes "csem_ok v c" and "crit (at c t) = crit pc" and "free1 d = free1 c" and "at d = at c"
    and "tokens_ok (free2 d) (cvalue d) ((\<lambda>u. token (cvalue d) (at c u))(t := token (cvalue d) pc))"
    and "0 \<le> cvalue d" and "cvalue d = v + int (ups d) - int (downs d)"
  shows "csem_ok v (goto t pc d)"
proof (rule csem_okI)
  show "unique (free1 (goto t pc d)) (\<lambda>u. crit (at (goto t pc d) u))"
    unfolding crit_goto using assms csem_okD(1) [OF assms(1)] by (simp add: fun_upd_idem)
  show "tokens_ok (free2 (goto t pc d)) (cvalue (goto t pc d)) (\<lambda>u. token (cvalue (goto t pc d)) (at (goto t pc d) u))"
    unfolding token_goto using assms(4,5) by simp
qed (use assms in simp_all)

lemma tokens_ok_upd:
  "tokens_ok f v P \<Longrightarrow> P t = b \<Longrightarrow> tokens_ok f v (P(t := b))"
  "tokens_ok True v P \<Longrightarrow> tokens_ok False v (P(t := True))"
  "tokens_ok f v P \<Longrightarrow> P t \<Longrightarrow> tokens_ok True v (P(t := False))"
  by (auto simp: tokens_ok_def fun_upd_idem unique_take unique_give split: if_splits)

lemma tokens_ok_holds: "tokens_ok f v P \<Longrightarrow> P t \<Longrightarrow> v > 0 \<and> \<not> f \<and> (\<forall>u. P u \<longrightarrow> u = t)"
  by (auto simp: tokens_ok_def split: if_splits dest: unique_holds)

lemma csem_ok_dec:
  assumes "csem_ok v c" and "at c t = DownDec"
  shows "csem_ok v (goto t DownTest (c\<lparr>cvalue := cvalue c - 1, downs := Suc (downs c)\<rparr>))"
proof -
  note ok = csem_okD [OF assms(1)]
  have cr: "crit (at c t)" and cr': "crit DownTest" and tk: "token (cvalue c) (at c t)"
    using assms(2) by (simp_all add: crit_def token_def)
  have h: "cvalue c > 0" "\<not> free2 c" "\<forall>u. token (cvalue c) (at c u) \<longrightarrow> u = t"
    using tokens_ok_holds [OF ok(2), of t] tk by auto
  have "tokens_ok (free2 c) (cvalue c - 1) ((\<lambda>u. token (cvalue c) (at c u))(t := token (cvalue c - 1) DownTest))"
  proof (cases "cvalue c > 1")
    case True
    then have "token (cvalue c - 1) DownTest" by (simp add: token_def)
    with tk have "(\<lambda>u. token (cvalue c) (at c u))(t := token (cvalue c - 1) DownTest) = (\<lambda>u. token (cvalue c) (at c u))"
      by (simp add: fun_upd_idem)
    with True ok(2) show ?thesis by (simp add: tokens_ok_def)
  next
    case False
    then have "\<not> token (cvalue c - 1) DownTest" by (simp add: token_def)
    with False h show ?thesis unfolding tokens_ok_def by (simp, blast)
  qed
  then have "tokens_ok (free2 c) (cvalue c - 1) ((\<lambda>u. token (cvalue c - 1) (at c u))(t := token (cvalue c - 1) DownTest))"
    unfolding token_change [OF ok(1) cr, of "cvalue c - 1" _ "cvalue c"] .
  then show ?thesis by (intro csem_ok_inside [OF assms(1)]) (use cr cr' h(1) ok(4) in simp_all)
qed

lemma csem_ok_inc:
  assumes "csem_ok v c" and "at c t = UpInc"
  shows "csem_ok v (goto t UpTest (c\<lparr>cvalue := cvalue c + 1, ups := Suc (ups c)\<rparr>))"
proof -
  note ok = csem_okD [OF assms(1)]
  have cr: "crit (at c t)" and cr': "crit UpTest" and tk: "\<not> token (cvalue c) (at c t)"
    using assms(2) by (simp_all add: crit_def token_def)
  have "tokens_ok (free2 c) (cvalue c + 1) ((\<lambda>u. token (cvalue c) (at c u))(t := token (cvalue c + 1) UpTest))"
    using ok(2,3) tk by (cases "cvalue c > 0") (auto simp: tokens_ok_def token_def unique_none fun_upd_idem)
  then have "tokens_ok (free2 c) (cvalue c + 1) ((\<lambda>u. token (cvalue c + 1) (at c u))(t := token (cvalue c + 1) UpTest))"
    unfolding token_change [OF ok(1) cr, of "cvalue c + 1" _ "cvalue c"] .
  then show ?thesis by (intro csem_ok_inside [OF assms(1)]) (use cr cr' ok(3,4) in simp_all)
qed

lemma csem_ok_step: "csem_step c d \<Longrightarrow> csem_ok v c \<Longrightarrow> csem_ok v d"
proof (induction rule: csem_step.induct)
  case (down_dec c t) then show ?case by (simp add: csem_ok_dec)
next
  case (up_inc c t) then show ?case by (simp add: csem_ok_inc)
next
  case (down_s1 c t) then show ?case by (intro csem_ok_enter) (simp_all add: crit_def token_def)
next
  case (up_s1 c t) then show ?case by (intro csem_ok_enter) (simp_all add: crit_def token_def)
next
  case (down_end c t) then show ?case by (intro csem_ok_leave) (simp_all add: crit_def token_def)
next
  case (up_end c t) then show ?case by (intro csem_ok_leave) (simp_all add: crit_def token_def)
next
  case (down_s2 c t)
  then show ?case using csem_okD [OF down_s2(3)]
    by (intro csem_ok_inside [OF down_s2(3)]) (simp_all add: crit_def token_def tokens_ok_upd(2))
next
  case (down_test c t)
  then show ?case using csem_okD [OF down_test(2)]
    by (intro csem_ok_inside [OF down_test(2)]) (auto simp: crit_def token_def tokens_ok_upd(1,3))
next
  case (up_test c t)
  then show ?case using csem_okD [OF up_test(2)]
    by (intro csem_ok_inside [OF up_test(2)]) (auto simp: crit_def token_def tokens_ok_upd(1,3))
next
  case (call_down c t)
  then show ?case using csem_okD [OF call_down(2)]
    by (intro csem_ok_inside [OF call_down(2)]) (simp_all add: crit_def token_def tokens_ok_upd(1))
next
  case (call_up c t)
  then show ?case using csem_okD [OF call_up(2)]
    by (intro csem_ok_inside [OF call_up(2)]) (simp_all add: crit_def token_def tokens_ok_upd(1))
qed

lemma csem_ok_reachable:
  assumes "csem_step\<^sup>*\<^sup>* (csem_start v) c" and "0 \<le> v"
  shows "csem_ok v c"
  using assms(1)
proof (induction rule: rtranclp_induct)
  case base
  show ?case using assms(2) by (auto simp: csem_ok_def tokens_ok_def csem_start_def unique_def crit_def token_def)
qed (rule csem_ok_step)

text \<open>
  C30. A counting semaphore that starts at \<open>v\<close> is never taken more often than it was given: at every
  moment, the number of decrements that \<^verbatim>\<open>csem_down\<close> has made is at most \<open>v\<close> plus the number of increments,
  and the value is the difference. And it loses no wakeup: when the value is positive and no thread is
  in the middle of an operation, \<^verbatim>\<open>s1\<close> and \<^verbatim>\<open>s2\<close> are both free, so a thread that waits can go on.
\<close>

theorem csem_counts:
  assumes "csem_step\<^sup>*\<^sup>* (csem_start v) c" and "0 \<le> v"
  shows "cvalue c = v + int (ups c) - int (downs c) \<and> int (downs c) \<le> v + int (ups c)
    \<and> ((\<forall>t. at c t \<in> {Idle, DownS2, UpS1}) \<longrightarrow> free1 c \<and> (free2 c \<longleftrightarrow> cvalue c > 0))"
proof -
  note ok = csem_okD [OF csem_ok_reachable [OF assms]]
  have "free1 c \<and> (free2 c \<longleftrightarrow> cvalue c > 0)" if "\<forall>t. at c t \<in> {Idle, DownS2, UpS1}"
  proof -
    have "\<not> crit (at c t)" "\<not> token (cvalue c) (at c t)" for t
      using that [rule_format, of t] by (auto simp: crit_def token_def)
    with ok(1,2) show ?thesis by (auto simp: unique_def tokens_ok_def split: if_splits)
  qed
  moreover have "int (downs c) \<le> v + int (ups c)" using ok(3,4) by linarith
  ultimately show ?thesis using ok(4) by blast
qed

theorem csem_counts_witness:
  "let c = goto (3 :: nat) DownS1 ((csem_start 1)\<lparr>free2 := False, at := (\<lambda>_. Idle)(3 := DownS2)\<rparr>)
   in csem_step\<^sup>*\<^sup>* (csem_start 1) c \<and> cvalue c = 1 \<and> int (downs c) \<le> 1 + int (ups c)"
proof -
  let ?b = "goto (3 :: nat) DownS2 (csem_start 1)"
  let ?c = "goto (3 :: nat) DownS1 ((csem_start 1)\<lparr>free2 := False, at := (\<lambda>_. Idle)(3 := DownS2)\<rparr>)"
  have "csem_step (csem_start 1) ?b" by (rule call_down) (simp add: csem_start_def)
  moreover have "csem_step ?b ?c"
    using down_s2 [of ?b 3] by (simp add: goto_def csem_start_def)
  ultimately have r: "csem_step\<^sup>*\<^sup>* (csem_start 1) ?c" by (rule rtranclp_trans [OF r_into_rtranclp r_into_rtranclp])
  from csem_counts [OF r] r show ?thesis by (simp add: csem_start_def)
qed

end
