(* ===== verification/Sleeplock.thy ===== *)
theory Sleeplock
  imports Sched
begin

text \<open>
  Sleep locks (\<^verbatim>\<open>kernel/sleeplock.c\<close>). A sleep lock is part of the object it protects, a buffer or an
  inode; the functions take the lock and return it updated, together with the channel that its address
  is. The inner spinlock \<^verbatim>\<open>lk->lk\<close> makes each of them a single step. A thread that finds the lock taken
  goes to sleep in the loop of \<^verbatim>\<open>acquiresleep\<close>.
\<close>

record sleeplock =
  sl_locked :: uint
  sl_name :: string
  sl_pid :: int

definition initsleeplock :: "string \<Rightarrow> sleeplock" where
  "initsleeplock name = \<lparr>sl_locked = 0, sl_name = name, sl_pid = 0\<rparr>"

definition acquiresleep :: "chan \<Rightarrow> sleeplock \<Rightarrow> 'a kernel_scheme \<Rightarrow> (sleeplock \<times> 'a kernel_scheme) result" where
  "acquiresleep ch lk s =
     (if sl_locked lk \<noteq> 0 then Sleep ch
      else with_thread (\<lambda>q i s. Ok (lk\<lparr>sl_locked := 1, sl_pid := t_id (thr q i s)\<rparr>, s)) s)"

definition releasesleep :: "chan \<Rightarrow> sleeplock \<Rightarrow> 'a kernel_scheme \<Rightarrow> (sleeplock \<times> 'a kernel_scheme) result" where
  "releasesleep ch lk s =
     bindR (wakeup ch s) (\<lambda>s. Ok (lk\<lparr>sl_locked := 0, sl_pid := 0\<rparr>, s))"

definition holdingsleep :: "sleeplock \<Rightarrow> 'a kernel_scheme \<Rightarrow> (bool \<times> 'a kernel_scheme) result" where
  "holdingsleep lk s =
     (if sl_locked lk = 0 then Ok (False, s)
      else with_thread (\<lambda>q i s. Ok (sl_pid lk = t_id (thr q i s), s)) s)"

subsection \<open>The lock in the hands of the running thread\<close>

text \<open>The state after a wakeup by the running thread.\<close>

definition woken :: "chan \<Rightarrow> 'a kernel_scheme \<Rightarrow> 'a kernel_scheme" where
  "woken ch s = s\<lparr>procs := (\<lambda>p. if p < NPROC
     then wake_proc ch (c_thread (mycpu s)) p (procs s p) else procs s p)\<rparr>"

definition owned :: "nat \<Rightarrow> nat \<Rightarrow> sleeplock \<Rightarrow> 'a kernel_scheme \<Rightarrow> bool" where
  "owned p i lk s \<longleftrightarrow> sl_locked lk \<noteq> 0 \<and> sl_pid lk = t_id (thr p i s)"

lemma acquiresleep_free:
  assumes "running p i s" and "sl_locked lk = 0"
  shows "acquiresleep ch lk s = Ok (lk\<lparr>sl_locked := 1, sl_pid := t_id (thr p i s)\<rparr>, s)"
  using assms runningD [OF assms(1)] by (simp add: acquiresleep_def with_thread_settled)

lemma holdingsleep_owned:
  assumes "running p i s" and "owned p i lk s"
  shows "holdingsleep lk s = Ok (True, s)"
  using assms runningD [OF assms(1)] by (simp add: holdingsleep_def with_thread_settled owned_def)

lemma releasesleep_eq:
  assumes "running p i s"
  shows "releasesleep ch lk s = Ok (lk\<lparr>sl_locked := 0, sl_pid := 0\<rparr>, woken ch s)"
  using runningD [OF assms] assms by (simp add: releasesleep_def wakeup_spec running_def woken_def)

lemma woken_fields [simp]:
  "mem (woken ch s) = mem s" "mycpu (woken ch s) = mycpu s" "cpus (woken ch s) = cpus s" "tp (woken ch s) = tp s"
  "freelist (woken ch s) = freelist s" "bsems (woken ch s) = bsems s"
  by (simp_all add: woken_def mycpu_def)

lemma settled_woken [simp]: "settled (woken ch s) = settled s"
  using settled_same_mycpu [of s "woken ch s"] settled_same_mycpu [of "woken ch s" s] by auto

lemma woken_more [simp]: "kernel.more (woken ch s) = kernel.more s"
  by (simp add: woken_def)

lemma p_pagetable_woken [simp]:
  "p_pagetable (procs (woken ch s) q) = p_pagetable (procs s q)"
  "cwd (procs (woken ch s) q) = cwd (procs s q)" "ofile (procs (woken ch s) q) = ofile (procs s q)"
  "p_lock (procs (woken ch s) q) = p_lock (procs s q)" "p_killed (procs (woken ch s) q) = p_killed (procs s q)"
  by (simp_all add: woken_def wake_proc_def)

lemma t_id_woken [simp]: "t_id (thr q j (woken ch s)) = t_id (thr q j s)"
  by (simp add: woken_def wake_proc_def thr_def wake_thread_def)

lemma running_cong:
  assumes "tp t = tp s" and "cpus t = cpus s" and "procs t = procs s"
  shows "running p i t = running p i s"
proof -
  have "mycpu t = mycpu s" using assms by (simp add: mycpu_def)
  then have "settled t = settled s" using settled_same_mycpu [of s t] settled_same_mycpu [of t s] by auto
  with \<open>mycpu t = mycpu s\<close> assms(3) show ?thesis by (simp add: running_def locks_free_def)
qed

lemma running_woken [simp]: "running p i (woken ch s) = running p i s"
  by (simp add: running_def locks_free_def)

lemma owned_woken [simp]: "owned p i lk (woken ch s) = owned p i lk s"
  by (simp add: owned_def)

end
