(* ===== verification/Bio.thy ===== *)
theory Bio
  imports Sleeplock
begin

text \<open>
  The buffer cache (\<^verbatim>\<open>kernel/bio.c\<close>). The cache is the array \<^verbatim>\<open>bcache.buf\<close> with the list head at index
  \<^verbatim>\<open>NBUF\<close>; the list of recently used buffers is kept in the \<^verbatim>\<open>prev\<close> and \<^verbatim>\<open>next\<close> pointers as the code keeps
  it. A \<^verbatim>\<open>struct buf *\<close> is an index into the array.

  The disk is a function from block numbers to blocks, with the sequence of the blocks written so far;
  \<^verbatim>\<open>virtio_disk_rw\<close> is a transfer of one block at this level. The critical sections under \<^verbatim>\<open>bcache.lock\<close>
  are single steps.

  The invariant \<open>cache_ok\<close> describes the cache while one thread holds some buffers and others are
  pinned; every operation is shown to keep it and to change the contents of the blocks as it should.
  The locale \<open>block_copier\<close> is the contract of the copies that the log makes through the cache.
\<close>

subsection \<open>Data (kernel/buf.h, kernel/fs.h)\<close>

definition BSIZE :: nat where "BSIZE = 1024"

record buf =
  b_valid :: int
  b_dev :: uint
  b_blockno :: uint
  b_lock :: sleeplock
  b_refcnt :: uint
  b_prev :: nat
  b_next :: nat
  b_data :: "uchar list"

record bcache = kernel +
  bufs :: "nat \<Rightarrow> buf"
  disk :: "uint \<Rightarrow> uchar list"
  dtrace :: "(uint \<times> uchar list) list"

definition upd_buf :: "nat \<Rightarrow> (buf \<Rightarrow> buf) \<Rightarrow> 'a bcache_scheme \<Rightarrow> 'a bcache_scheme" where
  "upd_buf b f s = s\<lparr>bufs := (bufs s)(b := f (bufs s b))\<rparr>"

text \<open>One block between the buffer and the disk.\<close>

definition virtio_disk_rw :: "nat \<Rightarrow> bool \<Rightarrow> 'a bcache_scheme \<Rightarrow> 'a bcache_scheme" where
  "virtio_disk_rw b write s =
     (let n = b_blockno (bufs s b); d = b_data (bufs s b)
      in if write then s\<lparr>disk := (disk s)(n := d), dtrace := dtrace s @ [(n, d)]\<rparr>
         else upd_buf b (\<lambda>x. x\<lparr>b_data := disk s n\<rparr>) s)"

subsection \<open>Operations\<close>

definition link_front :: "nat \<Rightarrow> 'a bcache_scheme \<Rightarrow> 'a bcache_scheme" where
  "link_front b s =
     (let first = b_next (bufs s NBUF);
          s = upd_buf b (\<lambda>x. x\<lparr>b_next := first, b_prev := NBUF\<rparr>) s;
          s = upd_buf first (\<lambda>x. x\<lparr>b_prev := b\<rparr>) s
      in upd_buf NBUF (\<lambda>x. x\<lparr>b_next := b\<rparr>) s)"

definition binit :: "'a bcache_scheme \<Rightarrow> 'a bcache_scheme" where
  "binit s = fold (\<lambda>b s. link_front b (upd_buf b (\<lambda>x. x\<lparr>b_lock := initsleeplock ''buffer''\<rparr>) s)) [0..<NBUF]
     (upd_buf NBUF (\<lambda>x. x\<lparr>b_prev := NBUF, b_next := NBUF\<rparr>) s)"

text \<open>
  The walk along the list, in the direction that \<open>go\<close> gives, until the head or a buffer with the wanted
  property. A walk that has not met the head after visiting as many buffers as there are goes around in
  a circle.
\<close>

fun bwalk :: "nat \<Rightarrow> (buf \<Rightarrow> nat) \<Rightarrow> (buf \<Rightarrow> bool) \<Rightarrow> (nat \<Rightarrow> buf) \<Rightarrow> nat \<Rightarrow> nat option result" where
  "bwalk 0 go P bs b = Hang"
| "bwalk (Suc n) go P bs b =
     (if b = NBUF then Ok None else if P (bs b) then Ok (Some b) else bwalk n go P bs (go (bs b)))"

definition lock_buf :: "nat \<Rightarrow> 'a bcache_scheme \<Rightarrow> (nat \<times> 'a bcache_scheme) result" where
  "lock_buf b s =
     bindR (acquiresleep (BufLockChan b) (b_lock (bufs s b)) s) (\<lambda>(lk, s).
       Ok (b, upd_buf b (\<lambda>x. x\<lparr>b_lock := lk\<rparr>) s))"

definition bget :: "uint \<Rightarrow> uint \<Rightarrow> 'a bcache_scheme \<Rightarrow> (nat \<times> 'a bcache_scheme) result" where
  "bget dev blockno s =
     bindR (bwalk (Suc NBUF) b_next (\<lambda>x. b_dev x = dev \<and> b_blockno x = blockno) (bufs s) (b_next (bufs s NBUF))) (\<lambda>r.
       case r of
         Some b \<Rightarrow> lock_buf b (upd_buf b (\<lambda>x. x\<lparr>b_refcnt := b_refcnt x + 1\<rparr>) s)
       | None \<Rightarrow>
           bindR (bwalk (Suc NBUF) b_prev (\<lambda>x. b_refcnt x = 0) (bufs s) (b_prev (bufs s NBUF))) (\<lambda>r.
             case r of
               Some b \<Rightarrow> lock_buf b (upd_buf b (\<lambda>x. x\<lparr>b_dev := dev, b_blockno := blockno, b_valid := 0, b_refcnt := 1\<rparr>) s)
             | None \<Rightarrow> Panic ''bget: no buffers''))"

definition bread :: "uint \<Rightarrow> uint \<Rightarrow> 'a bcache_scheme \<Rightarrow> (nat \<times> 'a bcache_scheme) result" where
  "bread dev blockno s =
     bindR (bget dev blockno s) (\<lambda>(b, s).
       if b_valid (bufs s b) = 0
       then Ok (b, upd_buf b (\<lambda>x. x\<lparr>b_valid := 1\<rparr>) (virtio_disk_rw b False s))
       else Ok (b, s))"

definition bwrite :: "nat \<Rightarrow> 'a bcache_scheme \<Rightarrow> 'a bcache_scheme result" where
  "bwrite b s =
     bindR (holdingsleep (b_lock (bufs s b)) s) (\<lambda>(h, s).
       if \<not> h then Panic ''bwrite'' else Ok (virtio_disk_rw b True s))"

definition brelse :: "nat \<Rightarrow> 'a bcache_scheme \<Rightarrow> 'a bcache_scheme result" where
  "brelse b s =
     bindR (holdingsleep (b_lock (bufs s b)) s) (\<lambda>(h, s).
       if \<not> h then Panic ''brelse''
       else bindR (releasesleep (BufLockChan b) (b_lock (bufs s b)) s) (\<lambda>(lk, s).
         let s = upd_buf b (\<lambda>x. x\<lparr>b_lock := lk, b_refcnt := b_refcnt x - 1\<rparr>) s
         in if b_refcnt (bufs s b) = 0
            then let nxt = b_next (bufs s b); prv = b_prev (bufs s b);
                     s = upd_buf nxt (\<lambda>x. x\<lparr>b_prev := prv\<rparr>) s;
                     s = upd_buf prv (\<lambda>x. x\<lparr>b_next := nxt\<rparr>) s
                 in Ok (link_front b s)
            else Ok s))"

definition bpin :: "nat \<Rightarrow> 'a bcache_scheme \<Rightarrow> 'a bcache_scheme" where
  "bpin b s = upd_buf b (\<lambda>x. x\<lparr>b_refcnt := b_refcnt x + 1\<rparr>) s"

definition bunpin :: "nat \<Rightarrow> 'a bcache_scheme \<Rightarrow> 'a bcache_scheme" where
  "bunpin b s = upd_buf b (\<lambda>x. x\<lparr>b_refcnt := b_refcnt x - 1\<rparr>) s"

subsection \<open>The list of buffers\<close>

text \<open>The pointers link the elements of a path in both directions.\<close>

definition linked :: "(nat \<Rightarrow> buf) \<Rightarrow> nat list \<Rightarrow> bool" where
  "linked bs = successively (\<lambda>x y. b_next (bs x) = y \<and> b_prev (bs y) = x)"

text \<open>The circular list through the head holds the buffers \<open>xs\<close>, the most recently used first.\<close>

definition lru_list :: "(nat \<Rightarrow> buf) \<Rightarrow> nat list \<Rightarrow> bool" where
  "lru_list bs xs \<longleftrightarrow> linked bs (NBUF # xs @ [NBUF]) \<and> distinct xs \<and> NBUF \<notin> set xs"

lemma linked_simps [simp]:
  "linked bs [x]" "linked bs (x # y # zs) \<longleftrightarrow> b_next (bs x) = y \<and> b_prev (bs y) = x \<and> linked bs (y # zs)"
  by (simp_all add: linked_def)

lemma linked_append:
  "linked bs ((x # xs) @ (y # ys)) \<longleftrightarrow>
     linked bs (x # xs) \<and> linked bs (y # ys) \<and> b_next (bs (last (x # xs))) = y \<and> b_prev (bs y) = last (x # xs)"
  unfolding linked_def successively_append_iff by auto

lemma linked_frame:
  assumes "linked bs (x # xs)"
    and "\<And>y. y \<in> set (butlast (x # xs)) \<Longrightarrow> b_next (bs' y) = b_next (bs y)"
    and "\<And>y. y \<in> set xs \<Longrightarrow> b_prev (bs' y) = b_prev (bs y)"
  shows "linked bs' (x # xs)"
  using assms
proof (induction xs arbitrary: x)
  case (Cons y ys)
  have "linked bs' (y # ys)"
    by (rule Cons.IH) (use Cons.prems in \<open>auto split: if_splits\<close>)
  with Cons.prems(1) Cons.prems(2) [of x] Cons.prems(3) [of y] show ?case by simp
qed simp

lemma bwalk_next:
  assumes "linked bs (x # xs @ [NBUF])" and "NBUF \<notin> set xs" and "length xs < n"
  shows "bwalk n b_next P bs (b_next (bs x)) = Ok (find (\<lambda>b. P (bs b)) xs)"
  using assms
proof (induction xs arbitrary: x n)
  case Nil
  then show ?case by (cases n) auto
next
  case (Cons y ys)
  then obtain m where "n = Suc m" by (cases n) auto
  with Cons show ?case by auto
qed

lemma bwalk_prev:
  assumes "linked bs (NBUF # xs @ [x])" and "NBUF \<notin> set xs" and "length xs < n"
  shows "bwalk n b_prev P bs (b_prev (bs x)) = Ok (find (\<lambda>b. P (bs b)) (rev xs))"
  using assms
proof (induction xs arbitrary: x n rule: rev_induct)
  case Nil
  then show ?case by (cases n) auto
next
  case (snoc y ys)
  then obtain m where m: "n = Suc m" by (cases n) auto
  have "linked bs (NBUF # ys @ [y])" "b_prev (bs x) = y"
    using snoc.prems(1) linked_append [of bs NBUF "ys @ [y]" x "[]"] by auto
  moreover from snoc.IH [OF this(1), of m] snoc.prems m
  have "bwalk m b_prev P bs (b_prev (bs y)) = Ok (find (\<lambda>b. P (bs b)) (rev ys))" by auto
  ultimately show ?case using snoc.prems m by simp
qed

lemma lru_neighbours:
  assumes "lru_list bs (xs @ b # ys)"
  shows "b_prev (bs b) = last (NBUF # xs)" and "b_next (bs b) = hd (ys @ [NBUF])"
    and "linked bs (NBUF # xs)" and "linked bs (ys @ [NBUF])"
proof -
  have l: "linked bs ((NBUF # xs) @ (b # ys @ [NBUF]))" using assms by (simp add: lru_list_def)
  note l1 = l [unfolded linked_append]
  then show "b_prev (bs b) = last (NBUF # xs)" "linked bs (NBUF # xs)" by auto
  from l1 have l2: "linked bs (b # ys @ [NBUF])" by auto
  obtain z zs where z: "ys @ [NBUF] = z # zs" by (cases ys) auto
  from l2 show "b_next (bs b) = hd (ys @ [NBUF])" "linked bs (ys @ [NBUF])" unfolding z by simp_all
qed

text \<open>What \<^verbatim>\<open>brelse\<close> does to the pointers: take the buffer out of the list and put it in front.\<close>

definition unlink :: "nat \<Rightarrow> (nat \<Rightarrow> buf) \<Rightarrow> nat \<Rightarrow> buf" where
  "unlink b bs =
     (let nxt = b_next (bs b); prv = b_prev (bs b); bs = bs(nxt := (bs nxt)\<lparr>b_prev := prv\<rparr>)
      in bs(prv := (bs prv)\<lparr>b_next := nxt\<rparr>))"

definition push_front :: "nat \<Rightarrow> (nat \<Rightarrow> buf) \<Rightarrow> nat \<Rightarrow> buf" where
  "push_front b bs =
     (let first = b_next (bs NBUF);
          bs = bs(b := (bs b)\<lparr>b_next := first, b_prev := NBUF\<rparr>);
          bs = bs(first := (bs first)\<lparr>b_prev := b\<rparr>)
      in bs(NBUF := (bs NBUF)\<lparr>b_next := b\<rparr>))"

lemma b_next_unlink: "b_next (unlink b bs x) = (if x = b_prev (bs b) then b_next (bs b) else b_next (bs x))"
  by (simp add: unlink_def Let_def)

lemma b_prev_unlink: "b_prev (unlink b bs x) = (if x = b_next (bs b) then b_prev (bs b) else b_prev (bs x))"
  by (simp add: unlink_def Let_def)

lemma lru_unlink:
  assumes "lru_list bs (xs @ b # ys)"
  shows "lru_list (unlink b bs) (xs @ ys)"
proof -
  note n = lru_neighbours [OF assms]
  have d: "distinct (NBUF # xs @ b # ys)" using assms by (auto simp: lru_list_def)
  obtain z zs where z: "ys @ [NBUF] = z # zs" by (cases ys) auto
  have zy: "z \<in> set ys \<or> z = NBUF \<and> zs = []" using z by (cases ys) auto
  have zs: "set zs \<subseteq> insert NBUF (set ys)" "z \<notin> set zs \<or> z = NBUF"
    using z d by (cases ys; auto)+
  have bl: "x \<noteq> last (NBUF # xs)" if "x \<in> set (butlast (NBUF # xs))" for x
    using d that by (metis append_butlast_last_id distinct_append disjoint_insert(1) list.discI list.set(2) distinct.simps(2) append_Cons)
  have "linked (unlink b bs) (NBUF # xs)"
  proof (rule linked_frame [OF n(3)])
    fix y assume "y \<in> set (butlast (NBUF # xs))"
    with bl n(1) show "b_next (unlink b bs y) = b_next (bs y)" by (simp add: b_next_unlink)
  next
    fix y assume "y \<in> set xs"
    then have "y \<noteq> z" using zy d by auto
    with n(2) z show "b_prev (unlink b bs y) = b_prev (bs y)" by (simp add: b_prev_unlink)
  qed
  moreover have "linked (unlink b bs) (z # zs)"
  proof (rule linked_frame [OF n(4) [unfolded z]])
    fix y assume "y \<in> set (butlast (z # zs))"
    then have "y \<in> set ys" using z by (metis butlast_snoc)
    moreover have "last (NBUF # xs) \<in> set (NBUF # xs)" by (rule last_in_set) simp
    ultimately have "y \<noteq> last (NBUF # xs)" using d by auto
    with n(1) show "b_next (unlink b bs y) = b_next (bs y)" by (simp add: b_next_unlink)
  next
    fix y assume "y \<in> set zs"
    then have "y \<noteq> z" using z d zy by (cases ys) auto
    with n(2) z show "b_prev (unlink b bs y) = b_prev (bs y)" by (simp add: b_prev_unlink)
  qed
  ultimately have "linked (unlink b bs) ((NBUF # xs) @ (z # zs))"
    using n(1,2) z unfolding linked_append by (simp add: b_next_unlink b_prev_unlink)
  with d z show ?thesis by (simp add: lru_list_def)
qed

lemma lru_push_front:
  assumes "lru_list bs xs" and "b \<notin> set xs" and "b \<noteq> NBUF"
  shows "lru_list (push_front b bs) (b # xs)"
proof -
  obtain z zs where z: "xs @ [NBUF] = z # zs" by (cases xs) auto
  have l: "b_next (bs NBUF) = z" "linked bs (z # zs)" using assms(1) z by (simp_all add: lru_list_def)
  have "z \<noteq> b" using z assms by (cases xs) auto
  have z': "z \<notin> set zs" using z assms(1) by (cases xs) (auto simp: lru_list_def)
  have "linked (push_front b bs) (z # zs)"
  proof (rule linked_frame [OF l(2)])
    fix y assume "y \<in> set (butlast (z # zs))"
    then have "y \<in> set xs" using z by (metis butlast_snoc)
    then show "b_next (push_front b bs y) = b_next (bs y)"
      using assms by (auto simp: push_front_def Let_def lru_list_def)
  next
    fix y assume "y \<in> set zs"
    then have "y \<noteq> b" "y \<noteq> z" using z assms z' by (cases xs; auto)+
    then show "b_prev (push_front b bs y) = b_prev (bs y)" by (simp add: push_front_def Let_def l(1))
  qed
  moreover have "b_next (push_front b bs NBUF) = b" "b_prev (push_front b bs b) = NBUF"
    "b_next (push_front b bs b) = z" "b_prev (push_front b bs z) = b"
    using \<open>z \<noteq> b\<close> assms(3) by (auto simp: push_front_def Let_def l(1))
  ultimately have "linked (push_front b bs) (NBUF # b # z # zs)" by simp
  with assms show ?thesis unfolding lru_list_def by (simp add: z [symmetric])
qed

subsection \<open>What the cache holds\<close>

text \<open>
  The cache as one thread sees it that holds the buffers of the blocks \<open>H\<close> while the blocks \<open>P\<close> are
  pinned: every buffer is counted and locked accordingly, no block has two buffers, and a buffer that
  nobody refers to agrees with the disk.
\<close>

definition keyed :: "uint \<Rightarrow> uint \<Rightarrow> buf \<Rightarrow> bool" where
  "keyed dev n x \<longleftrightarrow> b_dev x = dev \<and> b_blockno x = n"

definition buf_ok :: "uint \<Rightarrow> int \<Rightarrow> uint set \<Rightarrow> uint set \<Rightarrow> (uint \<Rightarrow> uchar list) \<Rightarrow> buf \<Rightarrow> bool" where
  "buf_ok dev tid H P d x \<longleftrightarrow>
     (let held = b_dev x = dev \<and> b_blockno x \<in> H; pinned = b_dev x = dev \<and> b_blockno x \<in> P
      in b_refcnt x = of_bool held + of_bool pinned
       \<and> (if held then sl_locked (b_lock x) \<noteq> 0 \<and> sl_pid (b_lock x) = tid else sl_locked (b_lock x) = 0)
       \<and> (held \<or> pinned \<longrightarrow> b_valid x \<noteq> 0)
       \<and> (b_dev x = dev \<and> b_valid x \<noteq> 0 \<longrightarrow> length (b_data x) = BSIZE)
       \<and> (b_dev x = dev \<and> b_valid x \<noteq> 0 \<and> \<not> held \<and> \<not> pinned \<longrightarrow> b_data x = d (b_blockno x)))"

definition cache_inv :: "uint \<Rightarrow> int \<Rightarrow> uint set \<Rightarrow> uint set \<Rightarrow> (nat \<Rightarrow> buf) \<Rightarrow> (uint \<Rightarrow> uchar list) \<Rightarrow> bool" where
  "cache_inv dev tid H P bs d \<longleftrightarrow>
     (\<exists>xs. lru_list bs xs \<and> set xs = {0..<NBUF})
     \<and> (\<forall>b<NBUF. \<forall>c<NBUF. b_dev (bs b) = dev \<longrightarrow> keyed dev (b_blockno (bs b)) (bs c) \<longrightarrow> b = c)
     \<and> (\<forall>b<NBUF. buf_ok dev tid H P d (bs b))
     \<and> (\<forall>n \<in> H \<union> P. \<exists>b<NBUF. keyed dev n (bs b))
     \<and> (\<forall>n. length (d n) = BSIZE)"

text \<open>The contents of a block: what its buffer holds, or what is on the disk.\<close>

definition buf_at :: "uint \<Rightarrow> uint \<Rightarrow> (nat \<Rightarrow> buf) \<Rightarrow> nat option" where
  "buf_at dev n bs = scan NBUF (\<lambda>b. keyed dev n (bs b))"

definition contents :: "uint \<Rightarrow> (nat \<Rightarrow> buf) \<Rightarrow> (uint \<Rightarrow> uchar list) \<Rightarrow> uint \<Rightarrow> uchar list" where
  "contents dev bs d n =
     (case buf_at dev n bs of
        None \<Rightarrow> d n
      | Some b \<Rightarrow> if b_valid (bs b) \<noteq> 0 then b_data (bs b) else d n)"

lemma cache_invD:
  assumes "cache_inv dev tid H P bs d"
  shows "\<exists>xs. lru_list bs xs \<and> set xs = {0..<NBUF}"
    and "\<And>b c n. b < NBUF \<Longrightarrow> c < NBUF \<Longrightarrow> keyed dev n (bs b) \<Longrightarrow> keyed dev n (bs c) \<Longrightarrow> b = c"
    and "\<And>b. b < NBUF \<Longrightarrow> buf_ok dev tid H P d (bs b)"
    and "\<And>n. n \<in> H \<union> P \<Longrightarrow> \<exists>b<NBUF. keyed dev n (bs b)"
    and "\<And>n. length (d n) = BSIZE"
proof -
  show "b = c" if "b < NBUF" "c < NBUF" "keyed dev n (bs b)" "keyed dev n (bs c)" for b c n
    using assms that unfolding cache_inv_def keyed_def by metis
qed (use assms in \<open>unfold cache_inv_def, blast+\<close>)

lemma buf_at_keyed:
  assumes "cache_inv dev tid H P bs d" and "b < NBUF" and "keyed dev n (bs b)"
  shows "buf_at dev n bs = Some b"
proof -
  have "\<not> keyed dev n (bs c)" if "c < b" for c
    using cache_invD(2) [OF assms(1), of c b n] that assms(2,3) by auto
  with assms show ?thesis by (simp add: buf_at_def scan_Some_iff)
qed

lemma buf_at_SomeD:
  assumes "buf_at dev n bs = Some b"
  shows "b < NBUF" and "keyed dev n (bs b)"
  using assms scan_SomeD unfolding buf_at_def by blast+

lemma buf_at_NoneD: "buf_at dev n bs = None \<Longrightarrow> b < NBUF \<Longrightarrow> \<not> keyed dev n (bs b)"
  unfolding buf_at_def scan_None_iff by blast

lemma contents_keyed:
  assumes "cache_inv dev tid H P bs d" and "b < NBUF" and "keyed dev n (bs b)" and "b_valid (bs b) \<noteq> 0"
  shows "contents dev bs d n = b_data (bs b)"
  using buf_at_keyed [OF assms(1-3)] assms(4) by (simp add: contents_def)

lemma length_contents:
  assumes "cache_inv dev tid H P bs d"
  shows "length (contents dev bs d n) = BSIZE"
proof (cases "buf_at dev n bs")
  case None
  then show ?thesis using cache_invD(5) [OF assms] by (simp add: contents_def)
next
  case (Some b)
  then show ?thesis using cache_invD(3,5) [OF assms] buf_at_SomeD [OF Some]
    by (auto simp: contents_def buf_ok_def Let_def keyed_def)
qed

text \<open>A block that nobody holds and nobody has pinned is as on the disk.\<close>

lemma contents_clean:
  assumes "cache_inv dev tid H P bs d" and "n \<notin> H" and "n \<notin> P"
  shows "contents dev bs d n = d n"
proof (cases "buf_at dev n bs")
  case (Some b)
  then show ?thesis using cache_invD(3) [OF assms(1)] buf_at_SomeD [OF Some] assms(2,3)
    by (auto simp: contents_def buf_ok_def Let_def keyed_def)
qed (simp add: contents_def)

text \<open>There is a buffer to recycle as long as fewer blocks are in use than there are buffers.\<close>

lemma cache_has_free:
  assumes "cache_inv dev tid H P bs d" and "card (H \<union> P) < NBUF" and "finite (H \<union> P)"
  shows "\<exists>b<NBUF. b_refcnt (bs b) = 0"
proof (rule ccontr)
  assume no: "\<not> ?thesis"
  have k: "b_dev (bs b) = dev \<and> b_blockno (bs b) \<in> H \<union> P" if "b < NBUF" for b
    using cache_invD(3) [OF assms(1) that] no that by (auto simp: buf_ok_def Let_def split: if_splits)
  then have "inj_on (\<lambda>b. b_blockno (bs b)) {0..<NBUF}"
    using cache_invD(2) [OF assms(1)] by (auto simp: inj_on_def keyed_def)
  moreover have "(\<lambda>b. b_blockno (bs b)) ` {0..<NBUF} \<subseteq> H \<union> P" using k by fastforce
  ultimately have "card {0..<NBUF} \<le> card (H \<union> P)" using assms(3) by (metis card_inj_on_le)
  with assms(2) show False by simp
qed

text \<open>
  A buffer gets hold of block \<open>n\<close>: the one that has it already, or one that nobody uses when no buffer
  has it.
\<close>

lemma buf_ok_unused:
  assumes "buf_ok dev tid H P d x" and "b_refcnt x = 0" and "keyed dev m x"
  shows "m \<notin> H" and "m \<notin> P"
  using assms by (cases "m \<in> H"; cases "m \<in> P"; simp add: buf_ok_def keyed_def)+

lemma buf_ok_other:
  assumes "buf_ok dev tid H P d x" and "\<not> keyed dev n x"
  shows "buf_ok dev tid (insert n H) P d x"
proof -
  have "b_dev x = dev \<and> b_blockno x \<in> insert n H \<longleftrightarrow> b_dev x = dev \<and> b_blockno x \<in> H"
    using assms(2) by (auto simp: keyed_def)
  with assms(1) show ?thesis by (simp add: buf_ok_def)
qed

lemma lru_list_upd:
  assumes "lru_list bs xs" and "b_next x = b_next (bs b)" and "b_prev x = b_prev (bs b)"
  shows "lru_list (bs(b := x)) xs"
  using assms unfolding lru_list_def by (auto intro: linked_frame)

definition loadable :: "uint \<Rightarrow> uint \<Rightarrow> (nat \<Rightarrow> buf) \<Rightarrow> nat \<Rightarrow> bool" where
  "loadable dev n bs b \<longleftrightarrow> b < NBUF \<and>
     (keyed dev n (bs b) \<or> b_refcnt (bs b) = 0 \<and> (\<forall>c<NBUF. \<not> keyed dev n (bs c)))"

lemma cache_inv_load:
  assumes inv: "cache_inv dev tid H P bs d" and "n \<notin> H" and l: "loadable dev n bs b"
    and x: "keyed dev n x" "b_refcnt x = 1 + of_bool (n \<in> P)" "sl_locked (b_lock x) \<noteq> 0" "sl_pid (b_lock x) = tid"
      "b_valid x \<noteq> 0" "b_data x = contents dev bs d n"
      "b_next x = b_next (bs b)" "b_prev x = b_prev (bs b)"
  shows "cache_inv dev tid (insert n H) P (bs(b := x)) d"
proof -
  note I = cache_invD [OF inv]
  have b: "b < NBUF" using l by (simp add: loadable_def)
  have nk: "\<not> keyed dev n (bs c)" if "c < NBUF" "c \<noteq> b" for c
    using l that I(2) [of c b n] by (auto simp: loadable_def)
  have u: "c = e" if "c < NBUF" "e < NBUF" "keyed dev m ((bs(b := x)) c)" "keyed dev m ((bs(b := x)) e)" for c e m
  proof (cases "c = b \<or> e = b")
    case True
    then have "m = n" using x(1) that by (auto simp: keyed_def)
    with True that nk show ?thesis by (metis fun_upd_apply)
  next
    case False
    with that I(2) show ?thesis by (metis fun_upd_apply)
  qed
  have ok: "buf_ok dev tid (insert n H) P d ((bs(b := x)) c)" if "c < NBUF" for c
  proof (cases "c = b")
    case True
    with x length_contents [OF inv] show ?thesis by (simp add: buf_ok_def Let_def keyed_def)
  next
    case False
    with buf_ok_other [OF I(3) [OF that] nk [OF that False]] show ?thesis by simp
  qed
  have ex: "\<exists>c<NBUF. keyed dev m ((bs(b := x)) c)" if "m \<in> insert n H \<union> P" for m
  proof (cases "m = n")
    case True
    with x(1) b show ?thesis by (metis fun_upd_same)
  next
    case False
    with that I(4) obtain c where c: "c < NBUF" "keyed dev m (bs c)" by blast
    have "c \<noteq> b"
    proof
      assume "c = b"
      with l c False have "b_refcnt (bs b) = 0" by (auto simp: loadable_def keyed_def)
      with buf_ok_unused [OF I(3) [OF b]] c(2) \<open>c = b\<close> False that show False by blast
    qed
    with c show ?thesis by (metis fun_upd_other)
  qed
  have "\<exists>xs. lru_list (bs(b := x)) xs \<and> set xs = {0..<NBUF}" using I(1) lru_list_upd x(7,8) by blast
  with u ok ex I(5) show ?thesis unfolding cache_inv_def by (metis keyed_def)
qed

lemma contents_load:
  assumes inv: "cache_inv dev tid H P bs d" and "n \<notin> H" and l: "loadable dev n bs b"
    and inv': "cache_inv dev tid (insert n H) P (bs(b := x)) d"
    and x: "keyed dev n x" "b_valid x \<noteq> 0" "b_data x = contents dev bs d n"
  shows "contents dev (bs(b := x)) d = contents dev bs d"
proof
  fix m
  have b: "b < NBUF" using l by (simp add: loadable_def)
  show "contents dev (bs(b := x)) d m = contents dev bs d m"
  proof (cases "m = n")
    case True
    have "contents dev (bs(b := x)) d n = b_data x" using contents_keyed [OF inv' b, of n] x(1,2) by simp
    with True x(3) show ?thesis by simp
  next
    case ne: False
    show ?thesis
    proof (cases "buf_at dev m (bs(b := x))")
      case (Some c)
      note c = buf_at_SomeD [OF Some]
      have "c \<noteq> b" using c(2) x(1) ne by (metis fun_upd_same keyed_def)
      then have "buf_at dev m bs = Some c" using c buf_at_keyed [OF inv c(1), of m] by simp
      with Some \<open>c \<noteq> b\<close> show ?thesis unfolding contents_def by simp
    next
      case None
      show ?thesis
      proof (cases "buf_at dev m bs")
        case (Some c)
        note c = buf_at_SomeD [OF Some]
        have "c = b" using buf_at_NoneD [OF None c(1)] c(2) by (metis fun_upd_other)
        then have "b_refcnt (bs b) = 0" using l c(2) ne by (auto simp: loadable_def keyed_def)
        with c(2) \<open>c = b\<close> have "m \<notin> H" "m \<notin> P"
          using buf_ok_unused [OF cache_invD(3) [OF inv b]] by blast+
        then have "contents dev bs d m = d m" by (rule contents_clean [OF inv])
        moreover have "contents dev (bs(b := x)) d m = d m" using None by (simp add: contents_def)
        ultimately show ?thesis by simp
      qed (use None in \<open>simp add: contents_def\<close>)
    qed
  qed
qed

lemma contents_cong:
  assumes "\<And>b. b < NBUF \<Longrightarrow> b_dev (bs' b) = b_dev (bs b) \<and> b_blockno (bs' b) = b_blockno (bs b)
      \<and> b_valid (bs' b) = b_valid (bs b) \<and> b_data (bs' b) = b_data (bs b)"
  shows "contents dev bs' d = contents dev bs d"
proof
  fix n
  have "buf_at dev n bs' = buf_at dev n bs"
    unfolding buf_at_def by (rule scan_cong) (use assms in \<open>simp add: keyed_def\<close>)
  then show "contents dev bs' d n = contents dev bs d n"
    using assms by (auto simp: contents_def split: option.splits dest: buf_at_SomeD(1))
qed

lemma buf_ok_cong:
  assumes "b_dev x' = b_dev x" "b_blockno x' = b_blockno x" "b_valid x' = b_valid x" "b_data x' = b_data x"
    "b_refcnt x' = b_refcnt x" "b_lock x' = b_lock x"
  shows "buf_ok dev tid H P d x' = buf_ok dev tid H P d x"
  using assms by (simp add: buf_ok_def)

text \<open>The invariant does not depend on the order of the list.\<close>

definition same_buf :: "buf \<Rightarrow> buf \<Rightarrow> bool" where
  "same_buf x y \<longleftrightarrow> x\<lparr>b_next := 0, b_prev := 0\<rparr> = y\<lparr>b_next := 0, b_prev := 0\<rparr>"

lemma same_bufD:
  assumes "same_buf x y"
  shows "b_dev x = b_dev y" "b_blockno x = b_blockno y" "b_valid x = b_valid y" "b_data x = b_data y"
    "b_refcnt x = b_refcnt y" "b_lock x = b_lock y"
  using assms by (cases x; cases y; simp add: same_buf_def)+

lemma cache_inv_links:
  assumes "cache_inv dev tid H P bs d" and "\<And>b. same_buf (bs' b) (bs b)" and "lru_list bs' xs" and "set xs = {0..<NBUF}"
  shows "cache_inv dev tid H P bs' d" and "contents dev bs' d = contents dev bs d"
proof -
  note sm = same_bufD [OF assms(2)]
  have "keyed dev' n (bs' b) = keyed dev' n (bs b)" for dev' n b by (simp add: keyed_def sm)
  moreover have "buf_ok dev tid H P d (bs' b) = buf_ok dev tid H P d (bs b)" for b by (rule buf_ok_cong) (simp_all add: sm)
  ultimately show "cache_inv dev tid H P bs' d"
    using assms(1,3,4) unfolding cache_inv_def by (auto simp: sm)
  show "contents dev bs' d = contents dev bs d" by (rule contents_cong) (simp add: sm)
qed

lemma same_buf_unlink: "same_buf (unlink b bs c) (bs c)"
  by (auto simp: unlink_def Let_def same_buf_def)

lemma same_buf_push_front: "same_buf (push_front b bs c) (bs c)"
  by (auto simp: push_front_def Let_def same_buf_def)

lemma same_buf_trans: "same_buf x y \<Longrightarrow> same_buf y z \<Longrightarrow> same_buf x z"
  by (simp add: same_buf_def)

lemma cache_inv_to_front:
  assumes "cache_inv dev tid H P bs d" and "b < NBUF"
  shows "cache_inv dev tid H P (push_front b (unlink b bs)) d"
    and "contents dev (push_front b (unlink b bs)) d = contents dev bs d"
proof -
  from cache_invD(1) [OF assms(1)] obtain xs where xs: "lru_list bs xs" "set xs = {0..<NBUF}" by blast
  with assms(2) obtain ys zs where yz: "xs = ys @ b # zs" by (metis atLeastLessThan_iff in_set_conv_decomp le0)
  have d: "distinct xs" using xs by (simp add: lru_list_def)
  have "lru_list (unlink b bs) (ys @ zs)" using xs(1) yz lru_unlink by blast
  then have "lru_list (push_front b (unlink b bs)) (b # ys @ zs)"
    by (rule lru_push_front) (use d yz assms(2) in auto)
  moreover have "set (b # ys @ zs) = {0..<NBUF}" using xs(2) yz by auto
  moreover have "same_buf (push_front b (unlink b bs) c) (bs c)" for c
    by (rule same_buf_trans [OF same_buf_push_front same_buf_unlink])
  ultimately show "cache_inv dev tid H P (push_front b (unlink b bs)) d"
    "contents dev (push_front b (unlink b bs)) d = contents dev bs d"
    using cache_inv_links [OF assms(1)] by blast+
qed

text \<open>A change of a buffer in place: its key, and so the other buffers and the list, stay as they are.\<close>

lemma cache_inv_upd:
  assumes inv: "cache_inv dev tid H P bs d" and b: "b < NBUF"
    and x: "b_dev x = b_dev (bs b)" "b_blockno x = b_blockno (bs b)" "b_next x = b_next (bs b)" "b_prev x = b_prev (bs b)"
    and ok: "\<And>c. c < NBUF \<Longrightarrow> buf_ok dev tid H' P' d' ((bs(b := x)) c)"
    and sub: "H' \<union> P' \<subseteq> H \<union> P" and d': "\<And>n. length (d' n) = BSIZE"
  shows "cache_inv dev tid H' P' (bs(b := x)) d'"
proof -
  note I = cache_invD [OF inv]
  have k: "keyed dev' n ((bs(b := x)) c) = keyed dev' n (bs c)" for dev' n c by (simp add: keyed_def x)
  have dv: "b_dev ((bs(b := x)) c) = b_dev (bs c)" "b_blockno ((bs(b := x)) c) = b_blockno (bs c)" for c
    by (simp_all add: x)
  have "\<exists>xs. lru_list (bs(b := x)) xs \<and> set xs = {0..<NBUF}" using I(1) lru_list_upd x(3,4) by blast
  moreover have "\<forall>c<NBUF. \<forall>e<NBUF. b_dev (bs c) = dev \<longrightarrow> keyed dev (b_blockno (bs c)) (bs e) \<longrightarrow> c = e"
    using inv by (simp add: cache_inv_def)
  moreover have "\<forall>n\<in>H' \<union> P'. \<exists>c<NBUF. keyed dev n (bs c)" using I(4) sub by blast
  ultimately show ?thesis unfolding cache_inv_def k dv using ok d' by blast
qed

lemma buf_ok_elsewhere:
  assumes "buf_ok dev tid H P d x" and "\<not> keyed dev n x"
    and "H' - {n} = H - {n}" and "P' - {n} = P - {n}" and "\<And>m. m \<noteq> n \<Longrightarrow> d' m = d m"
  shows "buf_ok dev tid H' P' d' x"
proof (cases "b_dev x = dev")
  case True
  with assms(2) have n: "b_blockno x \<noteq> n" by (simp add: keyed_def)
  then have "b_blockno x \<in> H' \<longleftrightarrow> b_blockno x \<in> H" "b_blockno x \<in> P' \<longleftrightarrow> b_blockno x \<in> P"
    using assms(3,4) by blast+
  with assms(1) assms(5) [OF n] True show ?thesis by (simp add: buf_ok_def)
next
  case False
  with assms(1) show ?thesis by (simp add: buf_ok_def)
qed

text \<open>The four changes a thread makes to the buffer of block \<open>n\<close> that it holds.\<close>

lemma cache_inv_here:
  assumes inv: "cache_inv dev tid H P bs d" and "buf_at dev n bs = Some b"
    and x: "b_dev x = b_dev (bs b)" "b_blockno x = b_blockno (bs b)" "b_next x = b_next (bs b)" "b_prev x = b_prev (bs b)"
    and ok: "buf_ok dev tid H' P' d' x"
    and "H' - {n} = H - {n}" and "P' - {n} = P - {n}" and "\<And>m. m \<noteq> n \<Longrightarrow> d' m = d m"
    and "length (d' n) = BSIZE" and sub: "H' \<union> P' \<subseteq> H \<union> P"
  shows "cache_inv dev tid H' P' (bs(b := x)) d'"
proof (rule cache_inv_upd [OF inv _ x _ sub])
  note b = buf_at_SomeD [OF assms(2)]
  show "b < NBUF" by (rule b(1))
  show "length (d' m) = BSIZE" for m using assms(10,11) cache_invD(5) [OF inv] by (cases "m = n") auto
  fix c assume c: "c < NBUF"
  show "buf_ok dev tid H' P' d' ((bs(b := x)) c)"
  proof (cases "c = b")
    case False
    then have "\<not> keyed dev n (bs c)" using cache_invD(2) [OF inv c b(1)] b(2) by blast
    with False buf_ok_elsewhere [OF cache_invD(3) [OF inv c]] assms(8-10) show ?thesis by auto
  qed (use ok in simp)
qed

subsection \<open>What the operations do\<close>

definition bview :: "uint \<Rightarrow> 'a bcache_scheme \<Rightarrow> uint \<Rightarrow> uchar list" where
  "bview dev s = contents dev (bufs s) (disk s)"

definition cache_ok :: "uint \<Rightarrow> nat \<Rightarrow> nat \<Rightarrow> uint set \<Rightarrow> uint set \<Rightarrow> 'a bcache_scheme \<Rightarrow> bool" where
  "cache_ok dev p i H P s \<longleftrightarrow> running p i s \<and> cache_inv dev (t_id (thr p i s)) H P (bufs s) (disk s)"

text \<open>The states of threads apart, which a wakeup changes, nothing but the cache and the disk has changed.\<close>

definition stateless :: "proc \<Rightarrow> proc" where
  "stateless pr = pr\<lparr>threads := \<lambda>i. (threads pr i)\<lparr>t_state := UNUSED\<rparr>\<rparr>"

definition calm :: "'a bcache_scheme \<Rightarrow> 'a bcache_scheme \<Rightarrow> bool" where
  "calm s t \<longleftrightarrow> t = s\<lparr>procs := procs t, bufs := bufs t, disk := disk t, dtrace := dtrace t\<rparr>
     \<and> (\<forall>q. stateless (procs t q) = stateless (procs s q))"

lemma calm_refl [simp]: "calm s s"
  by (simp add: calm_def)

lemma calm_trans [trans]:
  assumes "calm s t" and "calm t u"
  shows "calm s u"
proof -
  let ?put = "\<lambda>s. s\<lparr>procs := procs u, bufs := bufs u, disk := disk u, dtrace := dtrace u\<rparr>"
  have "u = ?put t" using assms(2) unfolding calm_def by blast
  also have "?put t = ?put (s\<lparr>procs := procs t, bufs := bufs t, disk := disk t, dtrace := dtrace t\<rparr>)"
    by (rule arg_cong [of _ _ ?put]) (use assms(1) in \<open>simp add: calm_def\<close>)
  also have "\<dots> = ?put s" by simp
  finally show ?thesis using assms unfolding calm_def by simp
qed

lemma running_bcache [simp]:
  "running p i (upd_buf b f s) = running p i s" "running p i (s\<lparr>bufs := B\<rparr>) = running p i s"
  "running p i (s\<lparr>disk := D\<rparr>) = running p i s" "running p i (s\<lparr>dtrace := T\<rparr>) = running p i s"
  by (rule running_cong; simp add: upd_buf_def)+

lemma thr_bcache [simp]:
  "thr p i (upd_buf b f s) = thr p i s" "thr p i (s\<lparr>bufs := B\<rparr>) = thr p i s"
  "thr p i (s\<lparr>disk := D\<rparr>) = thr p i s" "thr p i (s\<lparr>dtrace := T\<rparr>) = thr p i s"
  by (simp_all add: thr_def upd_buf_def)

lemma upd_buf_fields [simp]:
  "bufs (upd_buf b f s) = (bufs s)(b := f (bufs s b))" "disk (upd_buf b f s) = disk s"
  "dtrace (upd_buf b f s) = dtrace s"
  by (simp_all add: upd_buf_def)

lemma woken_bcache [simp]:
  "bufs (woken ch s) = bufs s" "disk (woken ch s) = disk s" "dtrace (woken ch s) = dtrace s"
  by (simp_all add: woken_def)

lemma calm_upd_buf [simp]: "calm s (upd_buf b f s)"
  by (simp add: calm_def upd_buf_def)

lemma calm_woken [simp]: "calm s (woken ch s)"
  by (simp add: calm_def woken_def stateless_def wake_proc_def wake_thread_def fun_eq_iff)

lemma lock_buf_free:
  assumes "running p i s" and "sl_locked (b_lock (bufs s b)) = 0"
  shows "lock_buf b s = Ok (b, upd_buf b (\<lambda>x. x\<lparr>b_lock := (b_lock x)\<lparr>sl_locked := 1, sl_pid := t_id (thr p i s)\<rparr>\<rparr>) s)"
  using assms by (simp add: lock_buf_def acquiresleep_free upd_buf_def)

lemma find_SomeD: "find P xs = Some x \<Longrightarrow> P x \<and> x \<in> set xs"
  by (auto simp: find_Some_iff)

lemma bget_ok:
  assumes ok: "cache_ok dev p i H P s" and n: "n \<notin> H" and room: "card (insert n (H \<union> P)) \<le> NBUF" "finite (H \<union> P)"
  shows "\<exists>b t. bget dev n s = Ok (b, t) \<and> loadable dev n (bufs s) b \<and> calm s t
    \<and> t = upd_buf b (\<lambda>x. bufs t b) s \<and> keyed dev n (bufs t b)
    \<and> b_refcnt (bufs t b) = 1 + of_bool (n \<in> P) \<and> sl_locked (b_lock (bufs t b)) \<noteq> 0
    \<and> sl_pid (b_lock (bufs t b)) = t_id (thr p i s)
    \<and> (if keyed dev n (bufs s b) then b_valid (bufs t b) = b_valid (bufs s b) \<and> b_data (bufs t b) = b_data (bufs s b)
       else b_valid (bufs t b) = 0)
    \<and> b_next (bufs t b) = b_next (bufs s b) \<and> b_prev (bufs t b) = b_prev (bufs s b)"
proof -
  have r: "running p i s" and inv: "cache_inv dev (t_id (thr p i s)) H P (bufs s) (disk s)"
    using ok by (simp_all add: cache_ok_def)
  note I = cache_invD [OF inv]
  from I(1) obtain xs where xs: "lru_list (bufs s) xs" "set xs = {0..<NBUF}" by blast
  have len: "length xs < Suc NBUF" using xs distinct_card [of xs] by (simp add: lru_list_def)
  have w1: "bwalk (Suc NBUF) b_next Q (bufs s) (b_next (bufs s NBUF)) = Ok (find (\<lambda>b. Q (bufs s b)) xs)" for Q
    by (rule bwalk_next) (use xs(1) len in \<open>simp_all add: lru_list_def\<close>)
  have w2: "bwalk (Suc NBUF) b_prev Q (bufs s) (b_prev (bufs s NBUF)) = Ok (find (\<lambda>b. Q (bufs s b)) (rev xs))" for Q
    by (rule bwalk_prev) (use xs(1) len in \<open>simp_all add: lru_list_def\<close>)
  show ?thesis
  proof (cases "find (\<lambda>b. b_dev (bufs s b) = dev \<and> b_blockno (bufs s b) = n) xs")
    case (Some b)
    then have b: "b < NBUF" "keyed dev n (bufs s b)"
      using xs(2) find_SomeD [OF Some] by (auto simp: keyed_def)
    from I(3) [OF b(1)] b(2) n have x: "sl_locked (b_lock (bufs s b)) = 0" "b_refcnt (bufs s b) = of_bool (n \<in> P)"
      by (simp_all add: buf_ok_def keyed_def Let_def)
    let ?t = "upd_buf b (\<lambda>x. x\<lparr>b_refcnt := b_refcnt x + 1, b_lock := (b_lock x)\<lparr>sl_locked := 1, sl_pid := t_id (thr p i s)\<rparr>\<rparr>) s"
    have "bget dev n s = Ok (b, ?t)"
      unfolding bget_def w1 Some using r x by (simp add: lock_buf_free upd_buf_def)
    then show ?thesis using b x by (intro exI [of _ b] exI [of _ ?t]) (simp add: loadable_def keyed_def, simp add: upd_buf_def)
  next
    case None
    then have none: "\<not> keyed dev n (bufs s c)" if "c < NBUF" for c
      using xs(2) that by (auto simp: find_None_iff keyed_def)
    then have "n \<notin> H \<union> P" using I(4) by blast
    then have "card (H \<union> P) < NBUF" using room by simp
    with cache_has_free [OF inv] room(2) obtain c where c: "c < NBUF" "b_refcnt (bufs s c) = 0" by blast
    then have "find (\<lambda>b. b_refcnt (bufs s b) = 0) (rev xs) \<noteq> None" using xs(2) by (auto simp: find_None_iff)
    then obtain b where bf: "find (\<lambda>b. b_refcnt (bufs s b) = 0) (rev xs) = Some b" by blast
    then have b: "b < NBUF" "b_refcnt (bufs s b) = 0"
      using xs(2) find_SomeD [OF bf] by auto
    have "\<not> (b_dev (bufs s b) = dev \<and> b_blockno (bufs s b) \<in> H)"
      using buf_ok_unused(1) [OF I(3) [OF b(1)] b(2)] by (auto simp: keyed_def)
    with I(3) [OF b(1)] have x: "sl_locked (b_lock (bufs s b)) = 0" by (simp add: buf_ok_def Let_def)
    let ?t = "upd_buf b (\<lambda>x. x\<lparr>b_dev := dev, b_blockno := n, b_valid := 0, b_refcnt := 1,
        b_lock := (b_lock x)\<lparr>sl_locked := 1, sl_pid := t_id (thr p i s)\<rparr>\<rparr>) s"
    have "bget dev n s = Ok (b, ?t)"
      unfolding bget_def w1 None bindR.simps option.case w2 bf using r x by (simp add: lock_buf_free upd_buf_def)
    moreover have "n \<notin> P" using \<open>n \<notin> H \<union> P\<close> by blast
    ultimately show ?thesis using b x none none [OF b(1)]
      by (intro exI [of _ b] exI [of _ ?t]) (simp add: loadable_def keyed_def, auto simp: upd_buf_def)
  qed
qed

text \<open>
  \<^verbatim>\<open>bread\<close> returns the buffer of the block with its contents; the contents of no block change, and
  neither does the disk.
\<close>

lemma bread_ok:
  assumes ok: "cache_ok dev p i H P s" and n: "n \<notin> H" and room: "card (insert n (H \<union> P)) \<le> NBUF" "finite (H \<union> P)"
  shows "\<exists>b t. bread dev n s = Ok (b, t) \<and> cache_ok dev p i (insert n H) P t \<and> buf_at dev n (bufs t) = Some b
    \<and> b_data (bufs t b) = bview dev s n \<and> bview dev t = bview dev s \<and> disk t = disk s \<and> dtrace t = dtrace s \<and> calm s t
    \<and> (\<forall>m \<in> H. buf_at dev m (bufs t) = buf_at dev m (bufs s))"
proof -
  have r: "running p i s" and inv: "cache_inv dev (t_id (thr p i s)) H P (bufs s) (disk s)"
    using ok by (simp_all add: cache_ok_def)
  from bget_ok [OF assms] obtain b u where u: "bget dev n s = Ok (b, u)" "loadable dev n (bufs s) b" "calm s u"
    "u = upd_buf b (\<lambda>x. bufs u b) s" "keyed dev n (bufs u b)" "b_refcnt (bufs u b) = 1 + of_bool (n \<in> P)"
    "sl_locked (b_lock (bufs u b)) \<noteq> 0" "sl_pid (b_lock (bufs u b)) = t_id (thr p i s)"
    "if keyed dev n (bufs s b) then b_valid (bufs u b) = b_valid (bufs s b) \<and> b_data (bufs u b) = b_data (bufs s b)
       else b_valid (bufs u b) = 0"
    "b_next (bufs u b) = b_next (bufs s b)" "b_prev (bufs u b) = b_prev (bufs s b)" by blast
  define x where "x = bufs u b"
  define y where "y = (if b_valid x = 0 then x\<lparr>b_data := disk s n, b_valid := 1\<rparr> else x)"
  have bn: "b_blockno x = n" using u(5) by (simp add: x_def keyed_def)
  have us: "u = upd_buf b (\<lambda>_. x) s" using u(4) by (simp add: x_def)
  have b: "b < NBUF" using u(2) by (simp add: loadable_def)
  have nov: "buf_at dev n (bufs s) = None" if "\<not> keyed dev n (bufs s b)"
    using u(2) that by (simp add: loadable_def buf_at_def scan_None_iff)
  have data: "b_data y = contents dev (bufs s) (disk s) n"
  proof (cases "keyed dev n (bufs s b)")
    case True
    have "buf_at dev n (bufs s) = Some b" by (rule buf_at_keyed [OF inv b True])
    with True u(9) show ?thesis by (simp add: y_def x_def contents_def)
  next
    case False
    with nov u(9) show ?thesis by (simp add: y_def x_def contents_def)
  qed
  have y: "keyed dev n y" "b_refcnt y = 1 + of_bool (n \<in> P)" "sl_locked (b_lock y) \<noteq> 0" "sl_pid (b_lock y) = t_id (thr p i s)"
    "b_valid y \<noteq> 0" "b_next y = b_next (bufs s b)" "b_prev y = b_prev (bufs s b)"
    using u(5-8,10,11) by (auto simp: y_def x_def keyed_def)
  let ?t = "upd_buf b (\<lambda>_. y) s"
  have "bread dev n s = Ok (b, ?t)"
    using u(1) bn unfolding bread_def y_def by (auto simp: us virtio_disk_rw_def upd_buf_def)
  moreover have inv': "cache_inv dev (t_id (thr p i s)) (insert n H) P ((bufs s)(b := y)) (disk s)"
    using cache_inv_load [OF inv n u(2) y(1-5) data y(6,7)] .
  moreover have "contents dev ((bufs s)(b := y)) (disk s) = contents dev (bufs s) (disk s)"
    using contents_load [OF inv n u(2) inv' y(1,5) data] .
  moreover have "buf_at dev n ((bufs s)(b := y)) = Some b" by (rule buf_at_keyed [OF inv' b]) (simp add: y(1))
  moreover have "buf_at dev m ((bufs s)(b := y)) = buf_at dev m (bufs s)" if "m \<in> H" for m
  proof -
    obtain c where c: "c < NBUF" "keyed dev m (bufs s c)" using cache_invD(4) [OF inv] \<open>m \<in> H\<close> by blast
    have "m \<noteq> n" using n that by blast
    have "c \<noteq> b"
    proof
      assume "c = b"
      with c(2) \<open>m \<noteq> n\<close> u(2) have "b_refcnt (bufs s b) = 0" by (auto simp: loadable_def keyed_def)
      with buf_ok_unused(1) [OF cache_invD(3) [OF inv b]] c(2) \<open>c = b\<close> that show False by blast
    qed
    then show ?thesis using buf_at_keyed [OF inv c] buf_at_keyed [OF inv' c(1)] c(2) by simp
  qed
  ultimately show ?thesis using r data by (intro exI [of _ b] exI [of _ ?t]) (simp add: cache_ok_def bview_def)
qed

lemma held_buf:
  assumes "cache_ok dev p i H P s" and "n \<in> H" and "buf_at dev n (bufs s) = Some b"
  shows "b < NBUF" and "b_dev (bufs s b) = dev" and "b_blockno (bufs s b) = n" and "b_valid (bufs s b) \<noteq> 0"
    and "b_refcnt (bufs s b) = 1 + of_bool (n \<in> P)" and "owned p i (b_lock (bufs s b)) s"
    and "b_data (bufs s b) = bview dev s n" and "length (b_data (bufs s b)) = BSIZE"
proof -
  note k = buf_at_SomeD [OF assms(3)]
  have inv: "cache_inv dev (t_id (thr p i s)) H P (bufs s) (disk s)" using assms(1) by (simp add: cache_ok_def)
  note o = cache_invD(3) [OF inv k(1)]
  show "b < NBUF" "b_dev (bufs s b) = dev" "b_blockno (bufs s b) = n" using k by (simp_all add: keyed_def)
  show v: "b_valid (bufs s b) \<noteq> 0" "b_refcnt (bufs s b) = 1 + of_bool (n \<in> P)" "owned p i (b_lock (bufs s b)) s"
    "length (b_data (bufs s b)) = BSIZE"
    using o k assms(2) by (simp_all add: buf_ok_def keyed_def Let_def owned_def)
  show "b_data (bufs s b) = bview dev s n" using contents_keyed [OF inv k v(1)] by (simp add: bview_def)
qed

text \<open>\<^verbatim>\<open>bwrite\<close> puts the contents of the block on the disk.\<close>

lemma bwrite_ok:
  assumes ok: "cache_ok dev p i H P s" and n: "n \<in> H" and b: "buf_at dev n (bufs s) = Some b"
  shows "bwrite b s = Ok (s\<lparr>disk := (disk s)(n := bview dev s n), dtrace := dtrace s @ [(n, bview dev s n)]\<rparr>)"
    and "cache_ok dev p i H P (s\<lparr>disk := (disk s)(n := bview dev s n), dtrace := dtrace s @ [(n, bview dev s n)]\<rparr>)"
    and "bview dev (s\<lparr>disk := (disk s)(n := bview dev s n), dtrace := dtrace s @ [(n, bview dev s n)]\<rparr>) = bview dev s"
proof -
  let ?d = "(disk s)(n := bview dev s n)"
  have r: "running p i s" and inv: "cache_inv dev (t_id (thr p i s)) H P (bufs s) (disk s)"
    using ok by (simp_all add: cache_ok_def)
  note h = held_buf [OF ok n b]
  show "bwrite b s = Ok (s\<lparr>disk := ?d, dtrace := dtrace s @ [(n, bview dev s n)]\<rparr>)"
    using holdingsleep_owned [OF r h(6)] h by (simp add: bwrite_def virtio_disk_rw_def Let_def)
  have "cache_inv dev (t_id (thr p i s)) H P ((bufs s)(b := bufs s b)) ?d"
  proof (rule cache_inv_here [OF inv b])
    show "buf_ok dev (t_id (thr p i s)) H P ?d (bufs s b)"
      using cache_invD(3) [OF inv h(1)] n h(2,3) by (simp add: buf_ok_def)
    show "length (?d n) = BSIZE" using h(7,8) by simp
  qed simp_all
  then show "cache_ok dev p i H P (s\<lparr>disk := ?d, dtrace := dtrace s @ [(n, bview dev s n)]\<rparr>)"
    using r by (simp add: cache_ok_def)
  have "contents dev (bufs s) ?d m = contents dev (bufs s) (disk s) m" for m
    using b h(4) by (cases "m = n") (simp_all add: contents_def split: option.splits)
  then show "bview dev (s\<lparr>disk := ?d, dtrace := dtrace s @ [(n, bview dev s n)]\<rparr>) = bview dev s"
    by (auto simp: bview_def)
qed

text \<open>A change of the contents of a buffer that the thread holds.\<close>

lemma modify_ok:
  assumes ok: "cache_ok dev p i H P s" and n: "n \<in> H" and b: "buf_at dev n (bufs s) = Some b" and d: "length d = BSIZE"
  shows "cache_ok dev p i H P (upd_buf b (\<lambda>x. x\<lparr>b_data := d\<rparr>) s)"
    and "bview dev (upd_buf b (\<lambda>x. x\<lparr>b_data := d\<rparr>) s) = (bview dev s)(n := d)"
    and "buf_at dev m (bufs (upd_buf b (\<lambda>x. x\<lparr>b_data := d\<rparr>) s)) = buf_at dev m (bufs s)"
proof -
  let ?B = "(bufs s)(b := (bufs s b)\<lparr>b_data := d\<rparr>)"
  have r: "running p i s" and inv: "cache_inv dev (t_id (thr p i s)) H P (bufs s) (disk s)"
    using ok by (simp_all add: cache_ok_def)
  note h = held_buf [OF ok n b]
  have "cache_inv dev (t_id (thr p i s)) H P ?B (disk s)"
  proof (rule cache_inv_here [OF inv b])
    show "buf_ok dev (t_id (thr p i s)) H P (disk s) ((bufs s b)\<lparr>b_data := d\<rparr>)"
      using cache_invD(3) [OF inv h(1)] n h(2,3) d by (simp add: buf_ok_def Let_def)
    show "length (disk s n) = BSIZE" by (rule cache_invD(5) [OF inv])
  qed simp_all
  then show "cache_ok dev p i H P (upd_buf b (\<lambda>x. x\<lparr>b_data := d\<rparr>) s)" using r by (simp add: cache_ok_def)
  have at: "buf_at dev m ?B = buf_at dev m (bufs s)" for m
    unfolding buf_at_def by (rule scan_cong) (simp add: keyed_def)
  then show "buf_at dev m (bufs (upd_buf b (\<lambda>x. x\<lparr>b_data := d\<rparr>) s)) = buf_at dev m (bufs s)" by simp
  have "contents dev ?B (disk s) m = ((contents dev (bufs s) (disk s))(n := d)) m" for m
  proof (cases "m = n")
    case True
    with b h(4) show ?thesis by (simp add: contents_def at)
  next
    case False
    then have "buf_at dev m (bufs s) \<noteq> Some b" using h(2,3) buf_at_SomeD(2) [of dev m "bufs s" b] by (auto simp: keyed_def)
    with False show ?thesis by (auto simp: contents_def at split: option.splits)
  qed
  then show "bview dev (upd_buf b (\<lambda>x. x\<lparr>b_data := d\<rparr>) s) = (bview dev s)(n := d)" by (auto simp: bview_def)
qed

text \<open>Pinning and unpinning the buffer of a block that the thread holds.\<close>

lemma recount_ok:
  assumes ok: "cache_ok dev p i H P s" and n: "n \<in> H" and b: "buf_at dev n (bufs s) = Some b"
    and P': "P' - {n} = P - {n}" and c: "c = 1 + of_bool (n \<in> P')"
  shows "cache_ok dev p i H P' (upd_buf b (\<lambda>x. x\<lparr>b_refcnt := c\<rparr>) s)"
    and "bview dev (upd_buf b (\<lambda>x. x\<lparr>b_refcnt := c\<rparr>) s) = bview dev s"
    and "buf_at dev m (bufs (upd_buf b (\<lambda>x. x\<lparr>b_refcnt := c\<rparr>) s)) = buf_at dev m (bufs s)"
proof -
  let ?B = "(bufs s)(b := (bufs s b)\<lparr>b_refcnt := c\<rparr>)"
  have r: "running p i s" and inv: "cache_inv dev (t_id (thr p i s)) H P (bufs s) (disk s)"
    using ok by (simp_all add: cache_ok_def)
  note h = held_buf [OF ok n b]
  have "cache_inv dev (t_id (thr p i s)) H P' ?B (disk s)"
  proof (rule cache_inv_here [OF inv b])
    show "buf_ok dev (t_id (thr p i s)) H P' (disk s) ((bufs s b)\<lparr>b_refcnt := c\<rparr>)"
      using cache_invD(3) [OF inv h(1)] n h(2,3) c by (simp add: buf_ok_def Let_def)
    show "length (disk s n) = BSIZE" by (rule cache_invD(5) [OF inv])
    show "H \<union> P' \<subseteq> H \<union> P" using n P' by blast
  qed (use P' in simp_all)
  then show "cache_ok dev p i H P' (upd_buf b (\<lambda>x. x\<lparr>b_refcnt := c\<rparr>) s)" using r by (simp add: cache_ok_def)
  show "bview dev (upd_buf b (\<lambda>x. x\<lparr>b_refcnt := c\<rparr>) s) = bview dev s"
    unfolding bview_def by (simp, rule contents_cong) simp
  show "buf_at dev m (bufs (upd_buf b (\<lambda>x. x\<lparr>b_refcnt := c\<rparr>) s)) = buf_at dev m (bufs s)"
    unfolding buf_at_def by (rule scan_cong) (simp add: keyed_def)
qed

lemma link_front_eq: "link_front b s = s\<lparr>bufs := push_front b (bufs s)\<rparr>"
  by (simp add: link_front_def push_front_def Let_def upd_buf_def)

lemma relink_eq:
  "(let nxt = b_next (bufs s b); prv = b_prev (bufs s b);
        s = upd_buf nxt (\<lambda>x. x\<lparr>b_prev := prv\<rparr>) s;
        s = upd_buf prv (\<lambda>x. x\<lparr>b_next := nxt\<rparr>) s
    in Ok (link_front b s)) = Ok (s\<lparr>bufs := push_front b (unlink b (bufs s))\<rparr>)"
  by (simp add: link_front_eq unlink_def Let_def upd_buf_def)

lemma buf_at_links:
  assumes "\<And>b. same_buf (bs' b) (bs b)"
  shows "buf_at dev m bs' = buf_at dev m bs"
  unfolding buf_at_def by (rule scan_cong) (simp add: keyed_def same_bufD(1,2) [OF assms])

text \<open>\<^verbatim>\<open>brelse\<close> gives the buffer back; it must be pinned or agree with the disk.\<close>

lemma brelse_ok:
  assumes ok: "cache_ok dev p i (insert n H) P s" and n: "n \<notin> H" and b: "buf_at dev n (bufs s) = Some b"
    and clean: "n \<in> P \<or> bview dev s n = disk s n"
  shows "\<exists>t. brelse b s = Ok t \<and> cache_ok dev p i H P t \<and> bview dev t = bview dev s
    \<and> disk t = disk s \<and> dtrace t = dtrace s \<and> calm s t \<and> (\<forall>m. buf_at dev m (bufs t) = buf_at dev m (bufs s))"
proof -
  have r: "running p i s" and inv: "cache_inv dev (t_id (thr p i s)) (insert n H) P (bufs s) (disk s)"
    using ok by (simp_all add: cache_ok_def)
  note h = held_buf [OF ok _ b, simplified]
  let ?x = "(bufs s b)\<lparr>b_lock := (b_lock (bufs s b))\<lparr>sl_locked := 0, sl_pid := 0\<rparr>, b_refcnt := b_refcnt (bufs s b) - 1\<rparr>"
  let ?B = "(bufs s)(b := ?x)"
  have i1: "cache_inv dev (t_id (thr p i s)) H P ?B (disk s)"
  proof (rule cache_inv_here [OF inv b])
    show "buf_ok dev (t_id (thr p i s)) H P (disk s) ?x"
      using h n clean by (auto simp: buf_ok_def Let_def)
    show "length (disk s n) = BSIZE" by (rule cache_invD(5) [OF inv])
  qed (use n in auto)
  have v1: "contents dev ?B (disk s) = bview dev s" unfolding bview_def by (rule contents_cong) simp
  have at1: "buf_at dev m ?B = buf_at dev m (bufs s)" for m
    unfolding buf_at_def by (rule scan_cong) (simp add: keyed_def)
  let ?B' = "if b_refcnt ?x = 0 then push_front b (unlink b ?B) else ?B"
  have i2: "cache_inv dev (t_id (thr p i s)) H P ?B' (disk s)" "contents dev ?B' (disk s) = bview dev s"
    using i1 v1 cache_inv_to_front [OF i1 h(1)] by auto
  have "same_buf (push_front b (unlink b ?B) c) (?B c)" for c
    by (rule same_buf_trans [OF same_buf_push_front same_buf_unlink])
  then have "buf_at dev m (push_front b (unlink b ?B)) = buf_at dev m (bufs s)" for m
    unfolding at1 [symmetric] by (rule buf_at_links)
  with at1 have at2: "buf_at dev m ?B' = buf_at dev m (bufs s)" for m by (cases "b_refcnt ?x = 0") (simp_all del: fun_upd_apply)
  let ?t = "(woken (BufLockChan b) s)\<lparr>bufs := ?B'\<rparr>"
  have "brelse b s = Ok ?t"
    using holdingsleep_owned [OF r h(6)] releasesleep_eq [OF r, of "BufLockChan b" "b_lock (bufs s b)"]
    unfolding brelse_def relink_eq by (simp add: Let_def upd_buf_def)
  moreover have "calm s ?t"
    using calm_trans [OF calm_woken [of s "BufLockChan b"], of ?t] by (simp add: calm_def)
  ultimately show ?thesis using r i2 at2 by (intro exI [of _ ?t]) (simp add: cache_ok_def bview_def)
qed

subsection \<open>The empty cache\<close>

lemma same_buf_lock: "same_buf x y \<Longrightarrow> same_buf (x\<lparr>b_lock := l\<rparr>) (y\<lparr>b_lock := l\<rparr>)"
  by (cases x; cases y) (simp add: same_buf_def)

lemma fold_link_front:
  assumes "k \<le> NBUF"
  shows "lru_list (bufs (fold (\<lambda>b s. link_front b (upd_buf b (\<lambda>x. x\<lparr>b_lock := initsleeplock ''buffer''\<rparr>) s)) [0..<k]
      (upd_buf NBUF (\<lambda>x. x\<lparr>b_prev := NBUF, b_next := NBUF\<rparr>) s))) (rev [0..<k])
    \<and> (\<forall>b. same_buf (bufs (fold (\<lambda>b s. link_front b (upd_buf b (\<lambda>x. x\<lparr>b_lock := initsleeplock ''buffer''\<rparr>) s)) [0..<k]
        (upd_buf NBUF (\<lambda>x. x\<lparr>b_prev := NBUF, b_next := NBUF\<rparr>) s)) b)
      (if b < k then (bufs s b)\<lparr>b_lock := initsleeplock ''buffer''\<rparr> else bufs s b))"
  using assms
proof (induction k)
  case 0
  show ?case by (simp add: lru_list_def same_buf_def)
next
  case (Suc k)
  let ?s = "fold (\<lambda>b s. link_front b (upd_buf b (\<lambda>x. x\<lparr>b_lock := initsleeplock ''buffer''\<rparr>) s)) [0..<k]
      (upd_buf NBUF (\<lambda>x. x\<lparr>b_prev := NBUF, b_next := NBUF\<rparr>) s)"
  let ?B = "(bufs ?s)(k := (bufs ?s k)\<lparr>b_lock := initsleeplock ''buffer''\<rparr>)"
  have IH: "lru_list (bufs ?s) (rev [0..<k])" "same_buf (bufs ?s b) (if b < k then (bufs s b)\<lparr>b_lock := initsleeplock ''buffer''\<rparr> else bufs s b)" for b
    using Suc by auto
  have "lru_list ?B (rev [0..<k])" by (rule lru_list_upd [OF IH(1)]) simp_all
  then have "lru_list (push_front k ?B) (k # rev [0..<k])" by (rule lru_push_front) (use Suc in auto)
  moreover have "same_buf (?B b) (if b < Suc k then (bufs s b)\<lparr>b_lock := initsleeplock ''buffer''\<rparr> else bufs s b)" for b
    using IH(2) [of b] by (cases "b = k") (simp_all add: same_buf_lock less_Suc_eq)
  then have "same_buf (push_front k ?B b) (if b < Suc k then (bufs s b)\<lparr>b_lock := initsleeplock ''buffer''\<rparr> else bufs s b)" for b
    by (rule same_buf_trans [OF same_buf_push_front])
  ultimately show ?case by (simp add: link_front_eq upd_buf_def)
qed

lemma binit_frame: "binit s = s\<lparr>bufs := bufs (binit s)\<rparr>"
proof -
  have fr: "fold (\<lambda>b s. link_front b (upd_buf b (\<lambda>x. x\<lparr>b_lock := initsleeplock ''buffer''\<rparr>) s)) bs s
      = s\<lparr>bufs := bufs (fold (\<lambda>b s. link_front b (upd_buf b (\<lambda>x. x\<lparr>b_lock := initsleeplock ''buffer''\<rparr>) s)) bs s)\<rparr>" for bs s
  proof (induction bs arbitrary: s)
    case (Cons b bs)
    show ?case unfolding fold_simps comp_def by (subst Cons.IH) (simp add: link_front_eq upd_buf_def)
  qed simp
  show ?thesis unfolding binit_def by (subst fr) (simp add: upd_buf_def [of NBUF])
qed

lemma binit_ok:
  assumes "running p i s" and "dev \<noteq> 0" and "\<And>n. length (disk s n) = BSIZE"
    and "\<And>b. b < NBUF \<Longrightarrow> b_dev (bufs s b) = 0 \<and> b_refcnt (bufs s b) = 0"
  shows "cache_ok dev p i {} {} (binit s)" and "bview dev (binit s) = disk s" and "disk (binit s) = disk s"
    and "dtrace (binit s) = dtrace s"
proof -
  let ?B = "bufs (binit s)"
  note f = fold_link_front [OF order_refl, of s, folded binit_def]
  have x: "b_dev (?B b) = 0" "b_refcnt (?B b) = 0" "sl_locked (b_lock (?B b)) = 0" if "b < NBUF" for b
  proof -
    have "same_buf (?B b) ((bufs s b)\<lparr>b_lock := initsleeplock ''buffer''\<rparr>)" 
      using conjunct2 [OF f, rule_format, of b] that by simp
    from same_bufD [OF this] show "b_dev (?B b) = 0" "b_refcnt (?B b) = 0" "sl_locked (b_lock (?B b)) = 0"
      using assms(4) [OF that] by (simp_all add: initsleeplock_def)
  qed
  have d: "disk (binit s) = disk s" "dtrace (binit s) = dtrace s" by (subst binit_frame, simp)+
  then show "disk (binit s) = disk s" "dtrace (binit s) = dtrace s" .
  have nk: "\<not> keyed dev n (?B b)" if "b < NBUF" for n b using x [OF that] assms(2) by (simp add: keyed_def)
  have "cache_inv dev tid {} {} ?B (disk s)" for tid
    unfolding cache_inv_def
  proof (intro conjI allI impI)
    show "\<exists>xs. lru_list ?B xs \<and> set xs = {0..<NBUF}" using f by (intro exI [of _ "rev [0..<NBUF]"]) simp
    show "buf_ok dev tid {} {} (disk s) (?B b)" if "b < NBUF" for b
      using x [OF that] assms(2) by (simp add: buf_ok_def)
  qed (use x nk assms(2,3) in auto)
  moreover have "running p i (binit s)" by (subst binit_frame) (simp add: assms(1))
  ultimately show "cache_ok dev p i {} {} (binit s)" using d by (simp add: cache_ok_def)
  have "buf_at dev n ?B = None" for n using nk by (simp add: buf_at_def scan_None_iff)
  then show "bview dev (binit s) = disk s" using d by (auto simp: bview_def contents_def)
qed

subsection \<open>Copying blocks\<close>

text \<open>The disk after a sequence of writes.\<close>

definition apply_writes :: "(uint \<times> uchar list) list \<Rightarrow> (uint \<Rightarrow> uchar list) \<Rightarrow> uint \<Rightarrow> uchar list" where
  "apply_writes ws d = fold (\<lambda>(n, x) d. d(n := x)) ws d"

lemma apply_writes_simps [simp]:
  "apply_writes [] d = d" "apply_writes ((n, x) # ws) d = apply_writes ws (d(n := x))"
  "apply_writes (ws @ vs) d = apply_writes vs (apply_writes ws d)"
  by (simp_all add: apply_writes_def)

lemma apply_writes_other: "n \<notin> fst ` set ws \<Longrightarrow> apply_writes ws d n = d n"
  by (induction ws arbitrary: d) auto

lemma apply_writes_in: "distinct (map fst ws) \<Longrightarrow> (n, x) \<in> set ws \<Longrightarrow> apply_writes ws d n = x"
proof (induction ws arbitrary: d)
  case (Cons w ws)
  then show ?case by (cases w) (auto simp: apply_writes_other image_iff)
qed simp

text \<open>
  What the log asks of an operation that copies one block over another through the cache and writes it
  to the disk: given the blocks that are pinned, it leaves the copy in the cache and on the disk and
  may unpin the target.
\<close>

locale block_copier =
  fixes ok :: "uint set \<Rightarrow> 's \<Rightarrow> bool" and view :: "'s \<Rightarrow> uint \<Rightarrow> uchar list"
    and stored :: "'s \<Rightarrow> uint \<Rightarrow> uchar list" and trace :: "'s \<Rightarrow> (uint \<times> uchar list) list"
    and same :: "'s \<Rightarrow> 's \<Rightarrow> bool" and pins :: "uint \<Rightarrow> uint set \<Rightarrow> uint set" and may :: "uint set \<Rightarrow> uint \<Rightarrow> bool"
    and copy :: "uint \<Rightarrow> uint \<Rightarrow> 's \<Rightarrow> 's result"
  assumes copy_ok: "\<lbrakk>ok P s; finite P; may P dst; src \<noteq> dst; card (insert src (insert dst P)) \<le> NBUF\<rbrakk> \<Longrightarrow>
      \<exists>t. copy src dst s = Ok t \<and> ok (pins dst P) t \<and> view t = (view s)(dst := view s src)
        \<and> stored t = (stored s)(dst := view s src) \<and> trace t = trace s @ [(dst, view s src)] \<and> same s t"
    and pins_sub: "pins n P \<subseteq> P"
    and may_pins: "may P m \<Longrightarrow> m \<noteq> n \<Longrightarrow> may (pins n P) m"
    and same_refl: "same s s"
    and same_trans: "same s t \<Longrightarrow> same t u \<Longrightarrow> same s u"
begin

lemma copies:
  assumes "ok P s" and "finite P" and "set (map fst ps) \<inter> set (map snd ps) = {}"
    and "\<And>src dst. (src, dst) \<in> set ps \<Longrightarrow> card (insert src (insert dst P)) \<le> NBUF"
    and "distinct (map snd ps)" and "\<And>src dst. (src, dst) \<in> set ps \<Longrightarrow> may P dst"
  shows "\<exists>t. foldR (\<lambda>(src, dst). copy src dst) ps s = Ok t \<and> ok (fold pins (map snd ps) P) t
    \<and> view t = apply_writes (map (\<lambda>(src, dst). (dst, view s src)) ps) (view s)
    \<and> stored t = apply_writes (map (\<lambda>(src, dst). (dst, view s src)) ps) (stored s)
    \<and> trace t = trace s @ map (\<lambda>(src, dst). (dst, view s src)) ps \<and> same s t"
  using assms
proof (induction ps arbitrary: P s)
  case Nil
  then show ?case by (simp add: same_refl)
next
  case (Cons p ps)
  obtain src dst where p: "p = (src, dst)" by (cases p)
  from copy_ok [OF Cons.prems(1,2), of dst src] Cons.prems(3,4,6) p obtain u where
    u: "copy src dst s = Ok u" "ok (pins dst P) u" "view u = (view s)(dst := view s src)"
      "stored u = (stored s)(dst := view s src)" "trace u = trace s @ [(dst, view s src)]" "same s u" by fastforce
  have fin: "finite (pins dst P)" using pins_sub Cons.prems(2) finite_subset by blast
  have card: "card (insert a (insert b (pins dst P))) \<le> NBUF" if "(a, b) \<in> set ps" for a b
  proof -
    have "card (insert a (insert b (pins dst P))) \<le> card (insert a (insert b P))"
      by (rule card_mono) (use Cons.prems(2) pins_sub in auto)
    also have "\<dots> \<le> NBUF" using Cons.prems(4) [of a b] that by simp
    finally show ?thesis .
  qed
  have vs: "map (\<lambda>(a, b). (b, view u a)) ps = map (\<lambda>(a, b). (b, view s a)) ps"
    using Cons.prems(3) p u(3) by force
  have "set (map fst ps) \<inter> set (map snd ps) = {}" using Cons.prems(3) by auto
  moreover have "distinct (map snd ps)" using Cons.prems(5) by simp
  moreover have "may (pins dst P) b" if "(a, b) \<in> set ps" for a b
    by (rule may_pins) (use Cons.prems(5,6) that p in \<open>auto simp: rev_image_eqI\<close>)
  ultimately obtain t where
    "foldR (\<lambda>(src, dst). copy src dst) ps u = Ok t" "ok (fold pins (map snd ps) (pins dst P)) t"
      "view t = apply_writes (map (\<lambda>(a, b). (b, view s a)) ps) (view u)"
      "stored t = apply_writes (map (\<lambda>(a, b). (b, view s a)) ps) (stored u)"
      "trace t = trace u @ map (\<lambda>(a, b). (b, view s a)) ps" "same u t"
    using Cons.IH [OF u(2) fin _ card, unfolded vs] by blast
  then show ?case using u p same_trans [OF u(6)] by auto
qed

end

subsection \<open>Correctness\<close>

text \<open>
  C9. \<^verbatim>\<open>bread\<close> on a block that the thread does not hold returns, as long as there is room for one more
  buffer in use: the buffer is locked by the thread and has the contents of the block, the contents of
  no block and nothing on the disk change, no block ever has two buffers, and every buffer that is
  recycled agrees with the disk.
\<close>

theorem bread_correct:
  assumes "cache_ok dev p i H P s" and "n \<notin> H" and "card (insert n (H \<union> P)) \<le> NBUF" and "finite (H \<union> P)"
  shows "\<exists>b t. bread dev n s = Ok (b, t) \<and> cache_ok dev p i (insert n H) P t \<and> owned p i (b_lock (bufs t b)) t
    \<and> b_data (bufs t b) = bview dev s n \<and> bview dev t = bview dev s \<and> disk t = disk s"
proof -
  from bread_ok [OF assms] obtain b t where "bread dev n s = Ok (b, t)" "cache_ok dev p i (insert n H) P t"
    "buf_at dev n (bufs t) = Some b" "b_data (bufs t b) = bview dev s n" "bview dev t = bview dev s" "disk t = disk s"
    by blast
  with held_buf(6) [OF this(2), of n b] show ?thesis by auto
qed

text \<open>A machine that has just initialised its cache, with block numbers in the blocks of its disk.\<close>

definition bcache_example :: bcache where
  "bcache_example = binit (kernel.extend kernel_example
     \<lparr>bufs = (\<lambda>_. \<lparr>b_valid = 0, b_dev = 0, b_blockno = 0, b_lock = initsleeplock [], b_refcnt = 0,
        b_prev = 0, b_next = 0, b_data = replicate BSIZE 0\<rparr>),
      disk = (\<lambda>n. replicate BSIZE (ucast n)), dtrace = []\<rparr>)"

lemma bcache_example_ok:
  "cache_ok 1 2 0 {} {} bcache_example" "bview 1 bcache_example = (\<lambda>n. replicate BSIZE (ucast n))"
proof -
  let ?s = "kernel.extend kernel_example
     \<lparr>bufs = (\<lambda>_. \<lparr>b_valid = 0, b_dev = 0, b_blockno = 0, b_lock = initsleeplock [], b_refcnt = 0,
        b_prev = 0, b_next = 0, b_data = replicate BSIZE 0\<rparr>),
      disk = (\<lambda>n. replicate BSIZE (ucast n)), dtrace = []\<rparr> :: bcache"
  have "running 2 0 ?s = running 2 0 kernel_example" by (rule running_cong) (simp_all add: kernel.defs)
  then have "running 2 0 ?s" using kernel_example_running by simp
  then show "cache_ok 1 2 0 {} {} bcache_example" "bview 1 bcache_example = (\<lambda>n. replicate BSIZE (ucast n))"
    using binit_ok [of 2 0 ?s 1] by (simp_all add: bcache_example_def kernel.defs)
qed

theorem bread_correct_witness:
  "\<exists>b t. bread 1 7 bcache_example = Ok (b, t) \<and> b_data (bufs t b) = replicate 1024 7"
  using bread_correct [OF bcache_example_ok(1), of 7] by (auto simp: bcache_example_ok(2) BSIZE_def NBUF_def MAXOPBLOCKS_def)

end
