(* ===== verification/Log.thy ===== *)
theory Log
  imports Bio
begin

text \<open>
  The redo log (\<^verbatim>\<open>kernel/log.c\<close>): transactions, the commit and the recovery after a crash. The block
  numbers of \<^verbatim>\<open>struct logheader\<close> are kept as the unsigned numbers that \<^verbatim>\<open>bread\<close> takes. On the disk the
  header is the little-endian image of the structure at the start of the first block of the log.

  The two loops of a commit and the loop of the recovery are instances of the locale \<open>block_copier\<close>;
  from their effect on the cache and on the sequence of writes follows that a commit is atomic.
\<close>

subsection \<open>Data\<close>

record log =
  l_start :: uint
  l_size :: int
  outstanding :: int
  committing :: int
  l_dev :: uint
  lh_n :: int
  lh_block :: "nat \<Rightarrow> uint"

record fslog = bcache +
  klog :: log

definition upd_log :: "(log \<Rightarrow> log) \<Rightarrow> 'a fslog_scheme \<Rightarrow> 'a fslog_scheme" where
  "upd_log f s = s\<lparr>klog := f (klog s)\<rparr>"

text \<open>The log block that is to hold entry \<open>tail\<close>, and word \<open>i\<close> of a block.\<close>

definition log_slot :: "uint \<Rightarrow> nat \<Rightarrow> uint" where
  "log_slot start tail = start + of_nat tail + 1"

definition word_at :: "nat \<Rightarrow> uchar list \<Rightarrow> uint" where
  "word_at i data = le_word (take 4 (drop (4 * i) data))"

definition put_word :: "nat \<Rightarrow> uint \<Rightarrow> uchar list \<Rightarrow> uchar list" where
  "put_word i w data = take (4 * i) data @ le_bytes 4 w @ drop (4 * i + 4) data"

subsection \<open>Operations\<close>

text \<open>Nothing in the bodies of the loops over the log changes \<^verbatim>\<open>log\<close>, so they read it once.\<close>

definition install_block :: "bool \<Rightarrow> uint \<Rightarrow> uint \<Rightarrow> uint \<Rightarrow> 'a bcache_scheme \<Rightarrow> 'a bcache_scheme result" where
  "install_block recovering dev slot home s =
     bindR (bread dev slot s) (\<lambda>(lbuf, s).
     bindR (bread dev home s) (\<lambda>(dbuf, s).
       let s = upd_buf dbuf (\<lambda>x. x\<lparr>b_data := b_data (bufs s lbuf)\<rparr>) s
       in bindR (bwrite dbuf s) (\<lambda>s.
          let s = (if recovering then s else bunpin dbuf s)
          in bindR (brelse lbuf s) (brelse dbuf))))"

definition install_trans :: "bool \<Rightarrow> 'a fslog_scheme \<Rightarrow> 'a fslog_scheme result" where
  "install_trans recovering s =
     (let l = klog s
      in foldR (\<lambda>tail. install_block recovering (l_dev l) (log_slot (l_start l) tail) (lh_block l tail)) [0..<nat (lh_n l)] s)"

definition read_head :: "'a fslog_scheme \<Rightarrow> 'a fslog_scheme result" where
  "read_head s =
     bindR (bread (l_dev (klog s)) (l_start (klog s)) s) (\<lambda>(b, s).
       let data = b_data (bufs s b); n = sint (word_at 0 data)
       in if n > int LOGSIZE then Undef ''log.lh.block''
          else brelse b (upd_log (\<lambda>l. l\<lparr>lh_n := n,
            lh_block := (\<lambda>i. if int i < n then word_at (Suc i) data else lh_block l i)\<rparr>) s))"

definition write_head :: "'a fslog_scheme \<Rightarrow> 'a fslog_scheme result" where
  "write_head s =
     bindR (bread (l_dev (klog s)) (l_start (klog s)) s) (\<lambda>(b, s).
       let l = klog s;
           data = fold (\<lambda>i. put_word (Suc i) (lh_block l i)) [0..<nat (lh_n l)]
             (put_word 0 (word_of_int (lh_n l)) (b_data (bufs s b)));
           s = upd_buf b (\<lambda>x. x\<lparr>b_data := data\<rparr>) s
       in bindR (bwrite b s) (brelse b))"

definition recover_from_log :: "'a fslog_scheme \<Rightarrow> 'a fslog_scheme result" where
  "recover_from_log s =
     bindR (read_head s) (\<lambda>s.
     bindR (install_trans True s) (\<lambda>s. write_head (upd_log (\<lambda>l. l\<lparr>lh_n := 0\<rparr>) s)))"

definition initlog :: "uint \<Rightarrow> uint \<Rightarrow> uint \<Rightarrow> 'a fslog_scheme \<Rightarrow> 'a fslog_scheme result" where
  "initlog dev logstart nlog s =
     (if 4 * (1 + LOGSIZE) \<ge> BSIZE then Panic ''initlog: too big logheader''
      else recover_from_log (upd_log (\<lambda>l. l\<lparr>l_start := logstart, l_size := sint nlog, l_dev := dev\<rparr>) s))"

text \<open>\<^verbatim>\<open>begin_op\<close> waits on the log while a commit is under way or the transaction might not fit.\<close>

definition begin_op :: "'a fslog_scheme \<Rightarrow> 'a fslog_scheme result" where
  "begin_op s =
     (let l = klog s
      in if committing l \<noteq> 0 then Sleep LogChan
         else if lh_n l + (outstanding l + 1) * int MAXOPBLOCKS > int LOGSIZE then Sleep LogChan
         else Ok (upd_log (\<lambda>l. l\<lparr>outstanding := outstanding l + 1\<rparr>) s))"

definition write_log_block :: "uint \<Rightarrow> uint \<Rightarrow> uint \<Rightarrow> 'a bcache_scheme \<Rightarrow> 'a bcache_scheme result" where
  "write_log_block dev slot home s =
     bindR (bread dev slot s) (\<lambda>(to, s).
     bindR (bread dev home s) (\<lambda>(from, s).
       let s = upd_buf to (\<lambda>x. x\<lparr>b_data := b_data (bufs s from)\<rparr>) s
       in bindR (bwrite to s) (\<lambda>s. bindR (brelse from s) (brelse to))))"

definition write_log :: "'a fslog_scheme \<Rightarrow> 'a fslog_scheme result" where
  "write_log s =
     (let l = klog s
      in foldR (\<lambda>tail. write_log_block (l_dev l) (log_slot (l_start l) tail) (lh_block l tail)) [0..<nat (lh_n l)] s)"

definition commit :: "'a fslog_scheme \<Rightarrow> 'a fslog_scheme result" where
  "commit s =
     (if lh_n (klog s) > 0
      then bindR (write_log s) (\<lambda>s.
           bindR (write_head s) (\<lambda>s.
           bindR (install_trans False s) (\<lambda>s. write_head (upd_log (\<lambda>l. l\<lparr>lh_n := 0\<rparr>) s))))
      else Ok s)"

definition end_op :: "'a fslog_scheme \<Rightarrow> 'a fslog_scheme result" where
  "end_op s =
     (let s = upd_log (\<lambda>l. l\<lparr>outstanding := outstanding l - 1\<rparr>) s
      in if committing (klog s) \<noteq> 0 then Panic ''log.committing''
         else if outstanding (klog s) = 0
         then bindR (commit (upd_log (\<lambda>l. l\<lparr>committing := 1\<rparr>) s)) (\<lambda>s.
                wakeup LogChan (upd_log (\<lambda>l. l\<lparr>committing := 0\<rparr>) s))
         else wakeup LogChan s)"

definition log_write :: "nat \<Rightarrow> 'a fslog_scheme \<Rightarrow> 'a fslog_scheme result" where
  "log_write b s =
     (let l = klog s; n = b_blockno (bufs s b)
      in if lh_n l \<ge> int LOGSIZE \<or> lh_n l \<ge> l_size l - 1 then Panic ''too big a transaction''
         else if outstanding l < 1 then Panic ''log_write outside of trans''
         else case scan (nat (lh_n l)) (\<lambda>i. lh_block l i = n) of
           Some i \<Rightarrow> Ok s
         | None \<Rightarrow> Ok (bpin b (upd_log (\<lambda>l. l\<lparr>lh_block := (lh_block l)(nat (lh_n l) := n), lh_n := lh_n l + 1\<rparr>) s)))"

subsection \<open>The copies\<close>

text \<open>Both loops of a commit read two blocks, overwrite one with the other and write it.\<close>

lemma two_breads:
  assumes "cache_ok dev p i {} P s" and "finite P" and "src \<noteq> dst" and "card (insert src (insert dst P)) \<le> NBUF"
  shows "\<exists>a b t u. bread dev src s = Ok (a, t) \<and> bread dev dst t = Ok (b, u) \<and> cache_ok dev p i {src, dst} P u
    \<and> buf_at dev src (bufs u) = Some a \<and> buf_at dev dst (bufs u) = Some b \<and> bview dev u = bview dev s
    \<and> disk u = disk s \<and> dtrace u = dtrace s \<and> calm s u \<and> b_data (bufs u a) = bview dev s src \<and> b_data (bufs u b) = bview dev s dst"
proof -
  have "insert src P \<subseteq> insert src (insert dst P)" by auto
  from card_mono [OF _ this] assms(2,4) have c1: "card (insert src ({} \<union> P)) \<le> NBUF" by simp
  from bread_ok [OF assms(1) _ c1] assms(2) obtain a t where
    t: "bread dev src s = Ok (a, t)" "cache_ok dev p i {src} P t" "buf_at dev src (bufs t) = Some a"
       "bview dev t = bview dev s" "disk t = disk s" "dtrace t = dtrace s" "calm s t" by auto
  have c2: "card (insert dst ({src} \<union> P)) \<le> NBUF" using assms(4) by (simp add: insert_commute)
  from bread_ok [OF t(2) _ c2] assms(2,3) obtain b u where
    u: "bread dev dst t = Ok (b, u)" "cache_ok dev p i {dst, src} P u" "buf_at dev dst (bufs u) = Some b"
       "bview dev u = bview dev t" "disk u = disk t" "dtrace u = dtrace t" "calm t u"
       "buf_at dev src (bufs u) = buf_at dev src (bufs t)" by auto
  have ok: "cache_ok dev p i {src, dst} P u" using u(2) by (simp add: insert_commute)
  have at: "buf_at dev src (bufs u) = Some a" using u(8) t(3) by simp
  have "b_data (bufs u a) = bview dev s src" "b_data (bufs u b) = bview dev s dst"
    using held_buf(7) [OF ok _ at] held_buf(7) [OF ok _ u(3)] u(4) t(4) by simp_all
  then show ?thesis using t u ok at calm_trans [OF t(7) u(7)] by auto
qed

lemma calm_disk: "calm s (s\<lparr>disk := D, dtrace := T\<rparr>)"
  by (simp add: calm_def)

lemma write_log_block_ok:
  assumes "cache_ok dev p i {} P s" and "finite P" and "home \<noteq> slot" and "card (insert home (insert slot P)) \<le> NBUF"
  shows "\<exists>t. write_log_block dev slot home s = Ok t \<and> cache_ok dev p i {} P t
    \<and> bview dev t = (bview dev s)(slot := bview dev s home) \<and> disk t = (disk s)(slot := bview dev s home)
    \<and> dtrace t = dtrace s @ [(slot, bview dev s home)] \<and> calm s t"
proof -
  have "card (insert slot (insert home P)) \<le> NBUF" using assms(4) by (simp add: insert_commute)
  with two_breads [OF assms(1,2), of slot home] assms(3) obtain a b t u where
    u: "bread dev slot s = Ok (a, t)" "bread dev home t = Ok (b, u)" "cache_ok dev p i {slot, home} P u"
       "buf_at dev slot (bufs u) = Some a" "buf_at dev home (bufs u) = Some b" "bview dev u = bview dev s"
       "disk u = disk s" "dtrace u = dtrace s" "calm s u" "b_data (bufs u b) = bview dev s home" by auto
  let ?d = "bview dev s home"
  have len: "length ?d = BSIZE" using held_buf(8) [OF u(3) _ u(5)] u(10) by simp
  define v where "v = upd_buf a (\<lambda>x. x\<lparr>b_data := ?d\<rparr>) u"
  note m = modify_ok [OF u(3) _ u(4) len, folded v_def, simplified]
  have va: "buf_at dev slot (bufs v) = Some a" "buf_at dev home (bufs v) = Some b" using m(3) u(4,5) by auto
  have vv: "bview dev v slot = ?d" "bview dev v home = ?d" using m(2) u(6) by auto
  define w where "w = v\<lparr>disk := (disk v)(slot := ?d), dtrace := dtrace v @ [(slot, ?d)]\<rparr>"
  note wr = bwrite_ok [OF m(1) _ va(1), simplified vv, folded w_def, simplified]
  have wa: "buf_at dev slot (bufs w) = Some a" "buf_at dev home (bufs w) = Some b" using va by (simp_all add: w_def)
  have hs: "{slot, home} = insert home {slot}" by auto
  have clean: "home \<in> P \<or> bview dev w home = disk w home"
    using contents_clean [of dev "t_id (thr p i s)" "{}" P "bufs s" "disk s" home] assms(1,3) wr(3) vv(2) u(7)
    by (auto simp: w_def v_def cache_ok_def bview_def)
  from brelse_ok [OF wr(2) [unfolded hs] _ wa(2) clean] assms(3) obtain x where
    x: "brelse b w = Ok x" "cache_ok dev p i {slot} P x" "bview dev x = bview dev w" "disk x = disk w" "dtrace x = dtrace w"
       "calm w x" "buf_at dev slot (bufs x) = Some a" using wa by auto
  have "bview dev x slot = disk x slot" using x(3,4) wr(3) vv(1) by (simp add: w_def)
  with brelse_ok [of dev p i slot "{}" P x a] x obtain y where
    y: "brelse a x = Ok y" "cache_ok dev p i {} P y" "bview dev y = bview dev x" "disk y = disk x" "dtrace y = dtrace x" "calm x y"
    by auto
  have "calm u w" unfolding w_def v_def by (rule calm_trans [OF calm_upd_buf calm_disk])
  then have "calm s y" using u(9) x(6) y(6) calm_trans by blast
  moreover have "write_log_block dev slot home s = Ok y"
    using u(1,2,10) wr(1) x(1) y(1) by (simp add: write_log_block_def v_def)
  moreover have "bview dev y = (bview dev s)(slot := ?d)" using y(3) x(3) wr(3) m(2) u(6) by simp
  moreover have "disk y = (disk s)(slot := ?d)" "dtrace y = dtrace s @ [(slot, ?d)]"
    using y(4,5) x(4,5) u(7,8) by (simp_all add: w_def v_def)
  ultimately show ?thesis using y(2) by blast
qed

lemma install_block_ok:
  assumes "cache_ok dev p i {} P s" and "finite P" and "recovering \<or> home \<in> P" and "slot \<noteq> home"
    and "card (insert slot (insert home P)) \<le> NBUF"
  shows "\<exists>t. install_block recovering dev slot home s = Ok t
    \<and> cache_ok dev p i {} (if recovering then P else P - {home}) t
    \<and> bview dev t = (bview dev s)(home := bview dev s slot) \<and> disk t = (disk s)(home := bview dev s slot)
    \<and> dtrace t = dtrace s @ [(home, bview dev s slot)] \<and> calm s t"
proof -
  from two_breads [OF assms(1,2,4,5)] obtain a b t u where
    u: "bread dev slot s = Ok (a, t)" "bread dev home t = Ok (b, u)" "cache_ok dev p i {slot, home} P u"
       "buf_at dev slot (bufs u) = Some a" "buf_at dev home (bufs u) = Some b" "bview dev u = bview dev s"
       "disk u = disk s" "dtrace u = dtrace s" "calm s u" "b_data (bufs u a) = bview dev s slot" by auto
  let ?d = "bview dev s slot"
  have len: "length ?d = BSIZE" using held_buf(8) [OF u(3) _ u(4)] u(10) by simp
  define v where "v = upd_buf b (\<lambda>x. x\<lparr>b_data := ?d\<rparr>) u"
  note m = modify_ok [OF u(3) _ u(5) len, folded v_def, simplified]
  have va: "buf_at dev slot (bufs v) = Some a" "buf_at dev home (bufs v) = Some b" using m(3) u(4,5) by auto
  have vv: "bview dev v slot = ?d" "bview dev v home = ?d" using m(2) u(6) by auto
  define w where "w = v\<lparr>disk := (disk v)(home := ?d), dtrace := dtrace v @ [(home, ?d)]\<rparr>"
  note wr = bwrite_ok [OF m(1) _ va(2), simplified vv, folded w_def, simplified]
  have wa: "buf_at dev slot (bufs w) = Some a" "buf_at dev home (bufs w) = Some b" using va by (simp_all add: w_def)
  let ?P = "if recovering then P else P - {home}"
  let ?z = "if recovering then w else bunpin b w"
  have ref: "b_refcnt (bufs w b) = 1 + of_bool (home \<in> P)" using held_buf(5) [OF wr(2) _ wa(2)] by simp
  have "bunpin b w = upd_buf b (\<lambda>x. x\<lparr>b_refcnt := 1 + of_bool (home \<in> P - {home})\<rparr>) w" if "\<not> recovering"
    using that assms(3) ref by (simp add: bunpin_def upd_buf_def)
  with recount_ok [OF wr(2) _ wa(2), of "P - {home}"] wa wr(2)
  have z: "cache_ok dev p i {slot, home} ?P ?z" "bview dev ?z = bview dev w" "buf_at dev slot (bufs ?z) = Some a"
    "buf_at dev home (bufs ?z) = Some b"
    by (cases recovering; simp)+
  have z': "disk ?z = disk w" "dtrace ?z = dtrace w" "calm w ?z" by (simp_all add: bunpin_def)
  have clean: "slot \<in> ?P \<or> bview dev ?z slot = disk ?z slot"
    using contents_clean [of dev "t_id (thr p i s)" "{}" P "bufs s" "disk s" slot] assms(1,4) wr(3) vv(1) u(7) z(2) z'(1)
    by (auto simp: w_def v_def cache_ok_def bview_def)
  from brelse_ok [OF z(1) _ z(3) clean] assms(4) obtain x where
    x: "brelse a ?z = Ok x" "cache_ok dev p i {home} ?P x" "bview dev x = bview dev w" "disk x = disk w" "dtrace x = dtrace w"
       "calm ?z x" "buf_at dev home (bufs x) = Some b" using z z' by auto
  have "bview dev x home = disk x home" using x(3,4) wr(3) vv(2) by (simp add: w_def)
  with brelse_ok [of dev p i home "{}" ?P x b] x obtain y where
    y: "brelse b x = Ok y" "cache_ok dev p i {} ?P y" "bview dev y = bview dev x" "disk y = disk x" "dtrace y = dtrace x" "calm x y"
    by auto
  have "calm u w" unfolding w_def v_def by (rule calm_trans [OF calm_upd_buf calm_disk])
  then have "calm s y" using u(9) z'(3) x(6) y(6) calm_trans by blast
  moreover have "install_block recovering dev slot home s = Ok y"
    using u(1,2,10) wr(1) x(1) y(1) by (simp add: install_block_def v_def Let_def)
  moreover have "bview dev y = (bview dev s)(home := ?d)" using y(3) x(3) wr(3) m(2) u(6) by simp
  moreover have "disk y = (disk s)(home := ?d)" "dtrace y = dtrace s @ [(home, ?d)]"
    using y(4,5) x(4,5) u(7,8) by (simp_all add: w_def v_def)
  ultimately show ?thesis using y(2) by blast
qed

interpretation wl: block_copier "\<lambda>P s. cache_ok dev p i {} P s" "bview dev" disk dtrace calm "\<lambda>n P. P" "\<lambda>P n. True"
    "\<lambda>home slot. write_log_block dev slot home" for dev p i
  by unfold_locales (use write_log_block_ok calm_refl calm_trans in \<open>blast+\<close>)

interpretation it: block_copier "\<lambda>P s. cache_ok dev p i {} P s" "bview dev" disk dtrace calm "\<lambda>n P. P - {n}" "\<lambda>P n. n \<in> P"
    "install_block False dev" for dev p i
proof unfold_locales
  show "\<exists>t. install_block False dev src dst s = Ok t \<and> cache_ok dev p i {} (P - {dst}) t
      \<and> bview dev t = (bview dev s)(dst := bview dev s src) \<and> disk t = (disk s)(dst := bview dev s src)
      \<and> dtrace t = dtrace s @ [(dst, bview dev s src)] \<and> calm s t"
    if "cache_ok dev p i {} P s" "finite P" "dst \<in> P" "src \<noteq> dst" "card (insert src (insert dst P)) \<le> NBUF" for P s src dst
    using install_block_ok [of dev p i P s False dst src] that by auto
qed (auto intro: calm_trans)

interpretation rt: block_copier "\<lambda>P s. cache_ok dev p i {} P s" "bview dev" disk dtrace calm "\<lambda>n P. P" "\<lambda>P n. True"
    "install_block True dev" for dev p i
proof unfold_locales
  show "\<exists>t. install_block True dev src dst s = Ok t \<and> cache_ok dev p i {} P t
      \<and> bview dev t = (bview dev s)(dst := bview dev s src) \<and> disk t = (disk s)(dst := bview dev s src)
      \<and> dtrace t = dtrace s @ [(dst, bview dev s src)] \<and> calm s t"
    if "cache_ok dev p i {} P s" "finite P" "True" "src \<noteq> dst" "card (insert src (insert dst P)) \<le> NBUF" for P s src dst
    using install_block_ok [of dev p i P s True dst src] that by auto
qed (auto intro: calm_trans)

lemma foldR_map: "foldR f (map g xs) s = foldR (\<lambda>x. f (g x)) xs s"
  by (induction xs arbitrary: s) (auto intro: bindR_cong)

subsection \<open>The header on the disk\<close>

lemma length_put_word: "4 * i + 4 \<le> length data \<Longrightarrow> length (put_word i w data) = length data"
  by (simp add: put_word_def)

lemma word_at_put_word:
  assumes "4 * i + 4 \<le> length data" and "4 * j + 4 \<le> length data"
  shows "word_at j (put_word i w data) = (if j = i then w else word_at j data)"
proof -
  consider "j = i" | "j < i" | "i < j" by linarith
  then show ?thesis
  proof cases
    case 1
    with assms show ?thesis by (simp add: word_at_def put_word_def le_word_le_bytes)
  next
    case 2
    then have "4 * j + 4 \<le> 4 * i" by simp
    then have "take 4 (drop (4 * j) (put_word i w data)) = take 4 (drop (4 * j) data)"
      using assms by (simp add: put_word_def take_drop min_def)
    with 2 show ?thesis by (simp add: word_at_def)
  next
    case 3
    then obtain k where "4 * j = 4 * i + 4 + k" by (metis Suc_leI add.commute le_Suc_ex mult_Suc_right mult_le_mono2)
    with 3 assms show ?thesis by (simp add: word_at_def put_word_def ac_simps)
  qed
qed

definition head_data :: "log \<Rightarrow> uchar list \<Rightarrow> uchar list" where
  "head_data l data = fold (\<lambda>i. put_word (Suc i) (lh_block l i)) [0..<nat (lh_n l)] (put_word 0 (word_of_int (lh_n l)) data)"

lemma fold_put_words:
  assumes "4 * Suc n \<le> length data" and "4 * j + 4 \<le> length data"
  shows "length (fold (\<lambda>i. put_word (Suc i) (f i)) [0..<n] data) = length data
    \<and> word_at j (fold (\<lambda>i. put_word (Suc i) (f i)) [0..<n] data) = (if 0 < j \<and> j \<le> n then f (j - 1) else word_at j data)"
  using assms(1)
proof (induction n)
  case (Suc n)
  then show ?case using assms(2) by (auto simp: length_put_word word_at_put_word le_Suc_eq)
qed auto

lemma head_data:
  assumes "length data = BSIZE" and "0 \<le> lh_n l" and "lh_n l \<le> int LOGSIZE"
  shows "length (head_data l data) = BSIZE" and "sint (word_at 0 (head_data l data)) = lh_n l"
    and "\<And>i. i < nat (lh_n l) \<Longrightarrow> word_at (Suc i) (head_data l data) = lh_block l i"
proof -
  have n: "nat (lh_n l) \<le> 30" "lh_n l \<le> 30" using assms by (simp_all add: LOGSIZE_def MAXOPBLOCKS_def)
  let ?d = "put_word 0 (word_of_int (lh_n l)) data"
  have len: "length ?d = 1024" using assms(1) by (simp add: length_put_word BSIZE_def)
  have s: "4 * Suc (nat (lh_n l)) \<le> length ?d" using n len by simp
  show "length (head_data l data) = BSIZE"
    using fold_put_words [OF s, of 0] len by (simp add: head_data_def BSIZE_def)
  have "word_at 0 (head_data l data) = word_of_int (lh_n l)"
    using fold_put_words [OF s, of 0] len assms(1) by (simp add: head_data_def word_at_put_word BSIZE_def)
  moreover have "sint (word_of_int (lh_n l) :: uint) = lh_n l"
    using n(2) assms(2) by (simp add: sint_word_ariths signed_take_bit_int_eq_self sint_sbintrunc' )
  ultimately show "sint (word_at 0 (head_data l data)) = lh_n l" by simp
  fix i assume "i < nat (lh_n l)"
  then show "word_at (Suc i) (head_data l data) = lh_block l i"
    using fold_put_words [OF s, of "Suc i"] len n by (simp add: head_data_def)
qed

subsection \<open>Reading and writing the header\<close>

lemma upd_log_fields [simp]:
  "bufs (upd_log f s) = bufs s" "disk (upd_log f s) = disk s" "dtrace (upd_log f s) = dtrace s" "klog (upd_log f s) = f (klog s)"
  "thr p i (upd_log f s) = thr p i s" "running p i (upd_log f s) = running p i s"
  by (simp_all add: upd_log_def thr_def) (rule running_cong, simp_all)

lemma cache_ok_upd_log [simp]: "cache_ok dev p i H P (upd_log f s) = cache_ok dev p i H P s" "bview dev (upd_log f s) = bview dev s"
  by (simp_all add: cache_ok_def bview_def)

lemma calm_klog:
  assumes "calm s t"
  shows "klog t = klog s"
proof -
  have "klog t = klog (s\<lparr>procs := procs t, bufs := bufs t, disk := disk t, dtrace := dtrace t\<rparr>)"
    by (rule arg_cong [of _ _ klog]) (use assms in \<open>unfold calm_def, blast\<close>)
  then show ?thesis by simp
qed

text \<open>A block is read, changed, written and released.\<close>

lemma rewrite_block_ok:
  assumes "cache_ok dev p i {} P s" and "finite P" and "card (insert n P) \<le> NBUF" and "n \<notin> P"
    and "length (f (bview dev s n)) = BSIZE"
  shows "\<exists>b t u v. bread dev n s = Ok (b, t) \<and> b_data (bufs t b) = bview dev s n
    \<and> bwrite b (upd_buf b (\<lambda>x. x\<lparr>b_data := f (bview dev s n)\<rparr>) t) = Ok u \<and> brelse b u = Ok v
    \<and> calm s t \<and> cache_ok dev p i {} P v \<and> bview dev v = (bview dev s)(n := f (bview dev s n))
    \<and> disk v = (disk s)(n := f (bview dev s n)) \<and> dtrace v = dtrace s @ [(n, f (bview dev s n))] \<and> calm s v"
proof -
  let ?d = "f (bview dev s n)"
  from bread_ok [OF assms(1), of n] assms(2,3) obtain b t where
    t: "bread dev n s = Ok (b, t)" "cache_ok dev p i {n} P t" "buf_at dev n (bufs t) = Some b" "b_data (bufs t b) = bview dev s n"
       "bview dev t = bview dev s" "disk t = disk s" "dtrace t = dtrace s" "calm s t" by auto
  define v where "v = upd_buf b (\<lambda>x. x\<lparr>b_data := ?d\<rparr>) t"
  note m = modify_ok [OF t(2) _ t(3) assms(5), folded v_def, simplified]
  have va: "buf_at dev n (bufs v) = Some b" and vn: "bview dev v n = ?d" using m(2,3) t(3) by auto
  define w where "w = v\<lparr>disk := (disk v)(n := ?d), dtrace := dtrace v @ [(n, ?d)]\<rparr>"
  note wr = bwrite_ok [OF m(1) _ va, simplified vn, folded w_def, simplified]
  have wa: "buf_at dev n (bufs w) = Some b" using va by (simp add: w_def)
  have "bview dev w n = disk w n" using wr(3) vn by (simp add: w_def)
  with brelse_ok [of dev p i n "{}" P w b] wr(2) wa obtain y where
    y: "brelse b w = Ok y" "cache_ok dev p i {} P y" "bview dev y = bview dev w" "disk y = disk w" "dtrace y = dtrace w" "calm w y"
    by auto
  have "calm t w" unfolding w_def v_def by (rule calm_trans [OF calm_upd_buf calm_disk])
  then have "calm s y" using t(8) y(6) calm_trans by blast
  moreover have "bview dev y = (bview dev s)(n := ?d)" using y(3) wr(3) m(2) t(5) by simp
  moreover have "disk y = (disk s)(n := ?d)" "dtrace y = dtrace s @ [(n, ?d)]"
    using y(4,5) t(6,7) by (simp_all add: w_def v_def)
  ultimately show ?thesis using t(1,4,8) wr(1) [unfolded v_def] y(1,2) by blast
qed

lemma write_head_ok:
  assumes "cache_ok dev p i {} P s" and "finite P" and "card (insert (l_start (klog s)) P) \<le> NBUF" and "l_start (klog s) \<notin> P"
    and "l_dev (klog s) = dev" and "0 \<le> lh_n (klog s)" and "lh_n (klog s) \<le> int LOGSIZE"
  defines "h \<equiv> head_data (klog s) (bview dev s (l_start (klog s)))"
  shows "\<exists>t. write_head s = Ok t \<and> cache_ok dev p i {} P t \<and> bview dev t = (bview dev s)(l_start (klog s) := h)
    \<and> disk t = (disk s)(l_start (klog s) := h) \<and> dtrace t = dtrace s @ [(l_start (klog s), h)] \<and> calm s t"
proof -
  let ?n = "l_start (klog s)"
  have inv: "cache_inv dev (t_id (thr p i s)) {} P (bufs s) (disk s)" using assms(1) by (simp add: cache_ok_def)
  have len: "length (head_data (klog s) (bview dev s ?n)) = BSIZE"
    by (rule head_data(1)) (use length_contents [OF inv] assms(6,7) in \<open>simp_all add: bview_def\<close>)
  from rewrite_block_ok [where f = "head_data (klog s)", OF assms(1-4) len] obtain b t u v where
    t: "bread dev ?n s = Ok (b, t)" "b_data (bufs t b) = bview dev s ?n"
       "bwrite b (upd_buf b (\<lambda>x. x\<lparr>b_data := h\<rparr>) t) = Ok u" "brelse b u = Ok v" "calm s t"
       "cache_ok dev p i {} P v" "bview dev v = (bview dev s)(?n := h)"
       "disk v = (disk s)(?n := h)" "dtrace v = dtrace s @ [(?n, h)]" "calm s v" unfolding h_def by blast
  have "klog t = klog s" by (rule calm_klog [OF t(5)])
  with t(1-4) assms(5) have "write_head s = Ok v"
    by (simp add: write_head_def Let_def head_data_def [symmetric] h_def)
  with t show ?thesis by blast
qed

definition read_log :: "uchar list \<Rightarrow> log \<Rightarrow> log" where
  "read_log data l = l\<lparr>lh_n := sint (word_at 0 data),
     lh_block := (\<lambda>i. if int i < sint (word_at 0 data) then word_at (Suc i) data else lh_block l i)\<rparr>"

lemma read_head_ok:
  assumes "cache_ok dev p i {} P s" and "finite P" and "card (insert (l_start (klog s)) P) \<le> NBUF" and "l_dev (klog s) = dev"
    and "l_start (klog s) \<notin> P" and "sint (word_at 0 (bview dev s (l_start (klog s)))) \<le> int LOGSIZE"
  shows "\<exists>t. read_head s = Ok t \<and> cache_ok dev p i {} P t \<and> bview dev t = bview dev s
    \<and> disk t = disk s \<and> dtrace t = dtrace s \<and> klog t = read_log (bview dev s (l_start (klog s))) (klog s)"
proof -
  let ?n = "l_start (klog s)" and ?d = "bview dev s (l_start (klog s))"
  from bread_ok [OF assms(1), of ?n] assms(2,3) obtain b t where
    t: "bread dev ?n s = Ok (b, t)" "cache_ok dev p i {?n} P t" "buf_at dev ?n (bufs t) = Some b" "b_data (bufs t b) = ?d"
       "bview dev t = bview dev s" "disk t = disk s" "dtrace t = dtrace s" "calm s t" by auto
  let ?u = "upd_log (read_log ?d) t"
  have "?d = disk s ?n"
    using contents_clean [of dev "t_id (thr p i s)" "{}" P "bufs s" "disk s" ?n] assms(1,5) by (simp add: cache_ok_def bview_def)
  then have "bview dev ?u ?n = disk ?u ?n" using t(5,6) by simp
  with brelse_ok [of dev p i ?n "{}" P ?u b] t obtain v where
    v: "brelse b ?u = Ok v" "cache_ok dev p i {} P v" "bview dev v = bview dev ?u" "disk v = disk ?u" "dtrace v = dtrace ?u" "calm ?u v"
    by auto
  have "read_head s = Ok v"
    using t(1,4) v(1) assms(4,6) by (simp add: read_head_def Let_def read_log_def [abs_def] cong: if_cong)
  moreover have "klog v = read_log ?d (klog s)" using calm_klog [OF v(6)] calm_klog [OF t(8)] by simp
  ultimately show ?thesis using v t by auto
qed

subsection \<open>The commit\<close>

text \<open>The blocks of the transaction and the slots of the log they go to; the log is apart from them.\<close>

definition tx_blocks :: "log \<Rightarrow> uint list" where
  "tx_blocks l = map (lh_block l) [0..<nat (lh_n l)]"

definition tx_slots :: "log \<Rightarrow> uint list" where
  "tx_slots l = map (log_slot (l_start l)) [0..<nat (lh_n l)]"

definition tx_ok :: "log \<Rightarrow> bool" where
  "tx_ok l \<longleftrightarrow> 0 \<le> lh_n l \<and> lh_n l < int LOGSIZE \<and> distinct (tx_blocks l) \<and> distinct (l_start l # tx_slots l)
     \<and> set (tx_blocks l) \<inter> set (l_start l # tx_slots l) = {}"

lemma card_room:
  assumes "length xs < NBUF" and "a \<in> set xs"
  shows "card (insert b (insert a (set xs))) \<le> NBUF" and "card (insert a (insert b (set xs))) \<le> NBUF"
    and "card (insert b (set xs)) \<le> NBUF"
proof -
  have "insert a (set xs) = set xs" "insert a (insert b (set xs)) = insert b (set xs)" using assms(2) by auto
  moreover have "card (insert b (set xs)) \<le> Suc (length xs)"
    by (metis card_length length_Cons list.set(2))
  ultimately show "card (insert b (insert a (set xs))) \<le> NBUF" "card (insert a (insert b (set xs))) \<le> NBUF"
    "card (insert b (set xs)) \<le> NBUF"
    using assms(1) by simp_all
qed

lemma tx_room:
  assumes "tx_ok l"
  shows "length (tx_blocks l) < NBUF" and "length (tx_slots l) = length (tx_blocks l)" and "length (tx_blocks l) = nat (lh_n l)"
  using assms by (auto simp: tx_ok_def tx_blocks_def tx_slots_def NBUF_def LOGSIZE_def)

lemma zip_tx:
  "zip (tx_blocks l) (tx_slots l) = map (\<lambda>k. (lh_block l k, log_slot (l_start l) k)) [0..<nat (lh_n l)]"
  "zip (tx_slots l) (tx_blocks l) = map (\<lambda>k. (log_slot (l_start l) k, lh_block l k)) [0..<nat (lh_n l)]"
  by (simp_all add: tx_blocks_def tx_slots_def zip_map_map zip_same_conv_map comp_def)

definition log_writes :: "log \<Rightarrow> (uint \<Rightarrow> uchar list) \<Rightarrow> (uint \<times> uchar list) list" where
  "log_writes l v = zip (tx_slots l) (map v (tx_blocks l))"

definition home_writes :: "log \<Rightarrow> (uint \<Rightarrow> uchar list) \<Rightarrow> (uint \<times> uchar list) list" where
  "home_writes l v = zip (tx_blocks l) (map v (tx_blocks l))"

lemma map_zip_swap: "length xs = length ys \<Longrightarrow> map (\<lambda>(a, b). (b, f a)) (zip xs ys) = zip ys (map f xs)"
  by (induction xs ys rule: list_induct2) auto

lemma write_log_ok:
  assumes "cache_ok dev p i {} (set (tx_blocks (klog s))) s" and "tx_ok (klog s)" and "l_dev (klog s) = dev"
  defines "ws \<equiv> log_writes (klog s) (bview dev s)"
  shows "\<exists>t. write_log s = Ok t \<and> cache_ok dev p i {} (set (tx_blocks (klog s))) t
    \<and> bview dev t = apply_writes ws (bview dev s) \<and> disk t = apply_writes ws (disk s)
    \<and> dtrace t = dtrace s @ ws \<and> calm s t"
proof -
  let ?l = "klog s" and ?ps = "zip (tx_blocks (klog s)) (tx_slots (klog s))"
  note r = tx_room [OF assms(2)]
  have ps: "set (map fst ?ps) = set (tx_blocks ?l)" "set (map snd ?ps) = set (tx_slots ?l)" "map snd ?ps = tx_slots ?l"
    using r by simp_all
  have w: "write_log s = foldR (\<lambda>(home, slot). write_log_block dev slot home) ?ps s"
    unfolding write_log_def zip_tx foldR_map using assms(3) by (simp add: Let_def)
  have "\<exists>t. foldR (\<lambda>(home, slot). write_log_block dev slot home) ?ps s = Ok t
    \<and> cache_ok dev p i {} (fold (\<lambda>n P. P) (map snd ?ps) (set (tx_blocks ?l))) t
    \<and> bview dev t = apply_writes (map (\<lambda>(src, dst). (dst, bview dev s src)) ?ps) (bview dev s)
    \<and> disk t = apply_writes (map (\<lambda>(src, dst). (dst, bview dev s src)) ?ps) (disk s)
    \<and> dtrace t = dtrace s @ map (\<lambda>(src, dst). (dst, bview dev s src)) ?ps \<and> calm s t"
    by (rule wl.copies [OF assms(1)])
       (use ps assms(2) r(1) in \<open>auto simp: tx_ok_def dest!: set_zip_leftD intro!: card_room(2)\<close>)
  moreover have "fold (\<lambda>n P. P) ns Q = Q" for ns :: "uint list" and Q :: "uint set" by (induction ns) auto
  ultimately show ?thesis unfolding w using r by (simp add: map_zip_swap ws_def log_writes_def)
qed

lemma fold_unpin: "fold (\<lambda>n P. P - {n}) ns Q = Q - set ns"
  by (induction ns arbitrary: Q) auto

lemma install_trans_commit_ok:
  assumes "cache_ok dev p i {} (set (tx_blocks (klog s))) s" and "tx_ok (klog s)" and "l_dev (klog s) = dev"
  defines "ws \<equiv> zip (tx_blocks (klog s)) (map (bview dev s) (tx_slots (klog s)))"
  shows "\<exists>t. install_trans False s = Ok t \<and> cache_ok dev p i {} {} t
    \<and> bview dev t = apply_writes ws (bview dev s) \<and> disk t = apply_writes ws (disk s)
    \<and> dtrace t = dtrace s @ ws \<and> calm s t"
proof -
  let ?l = "klog s" and ?ps = "zip (tx_slots (klog s)) (tx_blocks (klog s))"
  note r = tx_room [OF assms(2)]
  have ps: "set (map fst ?ps) = set (tx_slots ?l)" "set (map snd ?ps) = set (tx_blocks ?l)" "map snd ?ps = tx_blocks ?l"
    using r by simp_all
  have w: "install_trans False s = foldR (\<lambda>(slot, home). install_block False dev slot home) ?ps s"
    unfolding install_trans_def zip_tx foldR_map using assms(3) by (simp add: Let_def)
  have "\<exists>t. foldR (\<lambda>(slot, home). install_block False dev slot home) ?ps s = Ok t
    \<and> cache_ok dev p i {} (fold (\<lambda>n P. P - {n}) (map snd ?ps) (set (tx_blocks ?l))) t
    \<and> bview dev t = apply_writes (map (\<lambda>(src, dst). (dst, bview dev s src)) ?ps) (bview dev s)
    \<and> disk t = apply_writes (map (\<lambda>(src, dst). (dst, bview dev s src)) ?ps) (disk s)
    \<and> dtrace t = dtrace s @ map (\<lambda>(src, dst). (dst, bview dev s src)) ?ps \<and> calm s t"
    by (rule it.copies [OF assms(1)])
       (use ps assms(2) r(1) in \<open>auto simp: tx_ok_def dest!: set_zip_rightD intro!: card_room(1)\<close>)
  then show ?thesis unfolding w fold_unpin using r ps by (simp add: map_zip_swap ws_def)
qed

lemma install_trans_recover_ok:
  assumes "cache_ok dev p i {} {} s" and "tx_ok (klog s)" and "l_dev (klog s) = dev"
  defines "ws \<equiv> zip (tx_blocks (klog s)) (map (bview dev s) (tx_slots (klog s)))"
  shows "\<exists>t. install_trans True s = Ok t \<and> cache_ok dev p i {} {} t
    \<and> bview dev t = apply_writes ws (bview dev s) \<and> disk t = apply_writes ws (disk s)
    \<and> dtrace t = dtrace s @ ws \<and> calm s t"
proof -
  let ?l = "klog s" and ?ps = "zip (tx_slots (klog s)) (tx_blocks (klog s))"
  note r = tx_room [OF assms(2)]
  have ps: "set (map fst ?ps) = set (tx_slots ?l)" "set (map snd ?ps) = set (tx_blocks ?l)" "map snd ?ps = tx_blocks ?l"
    using r by simp_all
  have w: "install_trans True s = foldR (\<lambda>(slot, home). install_block True dev slot home) ?ps s"
    unfolding install_trans_def zip_tx foldR_map using assms(3) by (simp add: Let_def)
  have c: "card {a, b} \<le> NBUF" for a b :: uint
    by (cases "a = b") (simp_all add: NBUF_def MAXOPBLOCKS_def)
  have "\<exists>t. foldR (\<lambda>(slot, home). install_block True dev slot home) ?ps s = Ok t
    \<and> cache_ok dev p i {} (fold (\<lambda>n P. P) (map snd ?ps) {}) t
    \<and> bview dev t = apply_writes (map (\<lambda>(src, dst). (dst, bview dev s src)) ?ps) (bview dev s)
    \<and> disk t = apply_writes (map (\<lambda>(src, dst). (dst, bview dev s src)) ?ps) (disk s)
    \<and> dtrace t = dtrace s @ map (\<lambda>(src, dst). (dst, bview dev s src)) ?ps \<and> calm s t"
    by (rule rt.copies [OF assms(1)]) (use ps assms(2) c in \<open>auto simp: tx_ok_def\<close>)
  moreover have "fold (\<lambda>n P. P) ns Q = Q" for ns :: "uint list" and Q :: "uint set" by (induction ns) auto
  ultimately show ?thesis unfolding w using r by (simp add: map_zip_swap ws_def)
qed

text \<open>
  What a commit writes to the disk, in order: the blocks of the transaction to the log, the header that
  lists them, the blocks to their places, and the header of an empty log.
\<close>

definition commit_writes :: "log \<Rightarrow> (uint \<Rightarrow> uchar list) \<Rightarrow> (uint \<times> uchar list) list" where
  "commit_writes l v =
     (let h = head_data l (v (l_start l))
      in log_writes l v @ [(l_start l, h)] @ home_writes l v @ [(l_start l, head_data (l\<lparr>lh_n := 0\<rparr>) h)])"

lemma fst_writes:
  assumes "tx_ok l"
  shows "map fst (log_writes l v) = tx_slots l" and "map fst (home_writes l v) = tx_blocks l"
  using tx_room [OF assms] by (simp_all add: log_writes_def home_writes_def)

lemma tx_sets:
  assumes "tx_ok l"
  shows "l_start l \<notin> set (tx_slots l)" and "l_start l \<notin> set (tx_blocks l)" and "set (tx_slots l) \<inter> set (tx_blocks l) = {}"
    and "distinct (tx_slots l)" and "distinct (tx_blocks l)"
  using assms by (auto simp: tx_ok_def)

text \<open>In the log the slot of a block holds its contents.\<close>

lemma log_writes_slot:
  assumes "tx_ok l" and "k < length (tx_blocks l)"
  shows "apply_writes (log_writes l v) d (tx_slots l ! k) = v (tx_blocks l ! k)"
proof (rule apply_writes_in)
  show "distinct (map fst (log_writes l v))" using fst_writes [OF assms(1)] tx_sets [OF assms(1)] by simp
  show "(tx_slots l ! k, v (tx_blocks l ! k)) \<in> set (log_writes l v)"
    using assms tx_room [OF assms(1)] by (auto simp: log_writes_def set_zip)
qed

lemma commit_ok:
  assumes "cache_ok dev p i {} (set (tx_blocks (klog s))) s" and "tx_ok (klog s)" and "l_dev (klog s) = dev" and "lh_n (klog s) > 0"
  defines "ws \<equiv> commit_writes (klog s) (bview dev s)"
  shows "\<exists>t. commit s = Ok t \<and> cache_ok dev p i {} {} t \<and> klog t = (klog s)\<lparr>lh_n := 0\<rparr>
    \<and> disk t = apply_writes ws (disk s) \<and> dtrace t = dtrace s @ ws"
proof -
  let ?l = "klog s" and ?v = "bview dev s"
  let ?B = "set (tx_blocks ?l)" and ?h = "head_data ?l (?v (l_start ?l))"
  note sets = tx_sets [OF assms(2)] and room = tx_room [OF assms(2)] and fs = fst_writes [OF assms(2)]
  have n: "0 \<le> lh_n ?l" "lh_n ?l \<le> int LOGSIZE" using assms(2) by (simp_all add: tx_ok_def)
  have "tx_blocks ?l \<noteq> []" using room(3) assms(4) by auto
  then have c: "card (insert b ?B) \<le> NBUF" for b using card_room(3) [OF room(1)] by (metis list.set_sel(1))
  from write_log_ok [OF assms(1-3)] obtain t where
    t: "write_log s = Ok t" "cache_ok dev p i {} ?B t" "bview dev t = apply_writes (log_writes ?l ?v) ?v"
       "disk t = apply_writes (log_writes ?l ?v) (disk s)" "dtrace t = dtrace s @ log_writes ?l ?v" "klog t = ?l"
    using calm_klog by blast
  have ts: "bview dev t (l_start ?l) = ?v (l_start ?l)"
    using apply_writes_other fs sets(1) unfolding t(3) by (metis set_map)
  from write_head_ok [OF t(2), unfolded t(6) ts, OF finite_set c sets(2) assms(3) n] obtain u where
    u: "write_head t = Ok u" "cache_ok dev p i {} ?B u" "bview dev u = (bview dev t)(l_start ?l := ?h)"
       "disk u = (disk t)(l_start ?l := ?h)" "dtrace u = dtrace t @ [(l_start ?l, ?h)]" "klog u = ?l"
    using calm_klog t(6) by metis
  have slots: "map (bview dev u) (tx_slots ?l) = map ?v (tx_blocks ?l)"
  proof (rule nth_equalityI)
    fix k assume "k < length (map (bview dev u) (tx_slots ?l))"
    then have k: "k < length (tx_blocks ?l)" using room(2) by simp
    then have "tx_slots ?l ! k \<noteq> l_start ?l" using sets(1) room(2) by (metis nth_mem)
    then show "map (bview dev u) (tx_slots ?l) ! k = map ?v (tx_blocks ?l) ! k"
      using k room(2) log_writes_slot [OF assms(2) k] by (simp add: u(3) t(3))
  qed (simp add: room(2))
  from install_trans_commit_ok [of dev p i u] u(2,6) assms(2,3) slots obtain x where
    x: "install_trans False u = Ok x" "cache_ok dev p i {} {} x"
       "bview dev x = apply_writes (home_writes ?l ?v) (bview dev u)" "disk x = apply_writes (home_writes ?l ?v) (disk u)"
       "dtrace x = dtrace u @ home_writes ?l ?v" "klog x = ?l"
    unfolding home_writes_def using calm_klog by metis
  have xs: "bview dev x (l_start ?l) = ?h"
    using apply_writes_other fs sets(2) u(3) unfolding x(3) by (metis fun_upd_same set_map)
  let ?z = "upd_log (\<lambda>l. l\<lparr>lh_n := 0\<rparr>) x"
  have z: "cache_ok dev p i {} {} ?z" "klog ?z = ?l\<lparr>lh_n := 0\<rparr>" "bview dev ?z (l_start ?l) = ?h"
    "disk ?z = disk x" "dtrace ?z = dtrace x"
    using x(2,6) xs by simp_all
  have c0: "card {b :: uint} \<le> NBUF" for b by (simp add: NBUF_def MAXOPBLOCKS_def)
  have l: "l_start (klog ?z) = l_start ?l" "l_dev (klog ?z) = dev" "lh_n (klog ?z) = 0" using z(2) assms(3) by simp_all
  from write_head_ok [OF z(1), unfolded l, unfolded z(2-5), OF finite.emptyI c0] obtain y where
    y: "write_head ?z = Ok y" "cache_ok dev p i {} {} y" "klog y = ?l\<lparr>lh_n := 0\<rparr>"
       "disk y = (disk x)(l_start ?l := head_data (?l\<lparr>lh_n := 0\<rparr>) ?h)"
       "dtrace y = dtrace x @ [(l_start ?l, head_data (?l\<lparr>lh_n := 0\<rparr>) ?h)]"
    using calm_klog z(2) by force
  have "commit s = Ok y" using assms(4) t(1) u(1) x(1) y(1) by (simp add: commit_def)
  moreover have "disk y = apply_writes ws (disk s)" "dtrace y = dtrace s @ ws"
    using y(4,5) x(4,5) u(4,5) t(4,5) by (simp_all add: ws_def commit_writes_def Let_def)
  ultimately show ?thesis using y(2,3) by blast
qed

subsection \<open>Recovery\<close>

lemma recover_ok:
  assumes "cache_ok dev p i {} {} s" and "l_dev (klog s) = dev"
  defines "l \<equiv> read_log (disk s (l_start (klog s))) (klog s)"
  assumes "tx_ok l"
  defines "ws \<equiv> zip (tx_blocks l) (map (disk s) (tx_slots l)) @ [(l_start (klog s), head_data (l\<lparr>lh_n := 0\<rparr>) (disk s (l_start (klog s))))]"
  shows "\<exists>t. recover_from_log s = Ok t \<and> cache_ok dev p i {} {} t \<and> disk t = apply_writes ws (disk s)
    \<and> dtrace t = dtrace s @ ws \<and> lh_n (klog t) = 0"
proof -
  let ?start = "l_start (klog s)"
  have v: "bview dev s = disk s"
    using contents_clean [of dev "t_id (thr p i s)" "{}" "{}" "bufs s" "disk s"] assms(1) by (auto simp: cache_ok_def bview_def)
  have c0: "card {b :: uint} \<le> NBUF" for b by (simp add: NBUF_def MAXOPBLOCKS_def)
  have ls: "l_start l = ?start" "l_dev l = dev" using assms(2) by (simp_all add: l_def read_log_def)
  have "sint (word_at 0 (disk s ?start)) \<le> int LOGSIZE" using assms(4) by (simp add: tx_ok_def l_def read_log_def)
  with read_head_ok [OF assms(1) finite.emptyI c0 assms(2)] v obtain t where
    t: "read_head s = Ok t" "cache_ok dev p i {} {} t" "bview dev t = disk s" "disk t = disk s" "dtrace t = dtrace s" "klog t = l"
    by (auto simp: l_def)
  from install_trans_recover_ok [of dev p i t] t assms(4) ls(2) obtain u where
    u: "install_trans True t = Ok u" "cache_ok dev p i {} {} u"
       "bview dev u = apply_writes (zip (tx_blocks l) (map (disk s) (tx_slots l))) (disk s)"
       "disk u = apply_writes (zip (tx_blocks l) (map (disk s) (tx_slots l))) (disk s)"
       "dtrace u = dtrace s @ zip (tx_blocks l) (map (disk s) (tx_slots l))" "klog u = l"
    using calm_klog by metis
  have "?start \<notin> fst ` set (zip (tx_blocks l) (map (disk s) (tx_slots l)))"
    using tx_sets(2) [OF assms(4)] ls(1) by (auto dest: set_zip_leftD)
  then have us: "bview dev u ?start = disk s ?start" unfolding u(3) by (rule apply_writes_other)
  let ?z = "upd_log (\<lambda>l. l\<lparr>lh_n := 0\<rparr>) u"
  have z: "cache_ok dev p i {} {} ?z" "klog ?z = l\<lparr>lh_n := 0\<rparr>" "bview dev ?z ?start = disk s ?start"
    "disk ?z = disk u" "dtrace ?z = dtrace u"
    using u(2,6) us by simp_all
  have lz: "l_start (klog ?z) = ?start" "l_dev (klog ?z) = dev" "lh_n (klog ?z) = 0" using z(2) ls by simp_all
  from write_head_ok [OF z(1), unfolded lz, unfolded z(2-5), OF finite.emptyI c0] obtain y where
    y: "write_head ?z = Ok y" "cache_ok dev p i {} {} y" "klog y = l\<lparr>lh_n := 0\<rparr>"
       "disk y = (disk u)(?start := head_data (l\<lparr>lh_n := 0\<rparr>) (disk s ?start))"
       "dtrace y = dtrace u @ [(?start, head_data (l\<lparr>lh_n := 0\<rparr>) (disk s ?start))]"
    using calm_klog z(2) by force
  have "recover_from_log s = Ok y" using t(1) u(1) y(1) by (simp add: recover_from_log_def)
  with y u show ?thesis by (simp add: ws_def)
qed

text \<open>What recovery finds in the header that a commit has written, and in that of an empty log.\<close>

lemma tx_cong:
  assumes "l_start l' = l_start l" and "lh_n l' = lh_n l" and "\<And>k. int k < lh_n l \<Longrightarrow> lh_block l' k = lh_block l k"
  shows "tx_blocks l' = tx_blocks l" and "tx_slots l' = tx_slots l" and "tx_ok l' = tx_ok l"
proof -
  show *: "tx_blocks l' = tx_blocks l" "tx_slots l' = tx_slots l" using assms by (auto simp: tx_blocks_def tx_slots_def)
  show "tx_ok l' = tx_ok l" by (simp add: tx_ok_def * assms(1,2))
qed

lemma read_log_head:
  assumes "tx_ok l" and "length data = BSIZE" and "l_start l' = l_start l"
  shows "tx_blocks (read_log (head_data l data) l') = tx_blocks l"
    and "tx_slots (read_log (head_data l data) l') = tx_slots l" and "tx_ok (read_log (head_data l data) l')"
proof -
  have "0 \<le> lh_n l" "lh_n l \<le> int LOGSIZE" using assms(1) by (simp_all add: tx_ok_def)
  note h = head_data [OF assms(2) this]
  have *: "l_start (read_log (head_data l data) l') = l_start l" "lh_n (read_log (head_data l data) l') = lh_n l"
    "\<And>k. int k < lh_n l \<Longrightarrow> lh_block (read_log (head_data l data) l') k = lh_block l k"
    using h assms(3) by (auto simp: read_log_def)
  from tx_cong [OF *] assms(1) show "tx_blocks (read_log (head_data l data) l') = tx_blocks l"
    "tx_slots (read_log (head_data l data) l') = tx_slots l" "tx_ok (read_log (head_data l data) l')" by simp_all
qed

lemma read_log_empty:
  assumes "sint (word_at 0 data) = 0"
  shows "tx_blocks (read_log data l) = []" and "tx_slots (read_log data l) = []" and "tx_ok (read_log data l)"
  using assms by (simp_all add: read_log_def tx_blocks_def tx_slots_def tx_ok_def LOGSIZE_def MAXOPBLOCKS_def)

text \<open>The disk that recovery leaves, when the log on it is empty and when it lists a transaction.\<close>

lemma recover_empty:
  assumes "cache_ok dev p i {} {} b" and "l_dev (klog b) = dev" and "sint (word_at 0 (disk b (l_start (klog b)))) = 0"
  shows "\<exists>u. recover_from_log b = Ok u \<and> (\<forall>m. m \<noteq> l_start (klog b) \<longrightarrow> disk u m = disk b m)"
  using recover_ok [OF assms(1,2)] read_log_empty [OF assms(3)] by auto

lemma recover_committed:
  assumes "cache_ok dev p i {} {} b" and "l_dev (klog b) = dev" and "l_start (klog b) = l_start l"
    and "tx_ok l" and "length data = BSIZE" and "disk b (l_start l) = head_data l data"
    and "map (disk b) (tx_slots l) = map v (tx_blocks l)"
  shows "\<exists>u. recover_from_log b = Ok u
    \<and> (\<forall>m. m \<noteq> l_start l \<longrightarrow> disk u m = (if m \<in> set (tx_blocks l) then v m else disk b m))"
proof -
  note r = read_log_head [OF assms(4,5,3)]
  from recover_ok [OF assms(1,2)] r assms(3,6,7) obtain u where
    u: "recover_from_log b = Ok u" "\<And>m. m \<noteq> l_start l \<Longrightarrow> disk u m = apply_writes (home_writes l v) (disk b) m"
    by (auto simp: home_writes_def)
  have "apply_writes (home_writes l v) (disk b) m = (if m \<in> set (tx_blocks l) then v m else disk b m)" for m
  proof (cases "m \<in> set (tx_blocks l)")
    case True
    then have "(m, v m) \<in> set (home_writes l v)" by (auto simp: home_writes_def in_set_conv_nth set_zip)
    with True apply_writes_in [of "home_writes l v"] fst_writes [OF assms(4)] tx_sets [OF assms(4)] show ?thesis by simp
  next
    case False
    with apply_writes_other [of m "home_writes l v"] fst_writes(2) [OF assms(4)] show ?thesis by (simp flip: set_map)
  qed
  with u show ?thesis by auto
qed

subsection \<open>Atomicity of a commit\<close>

lemma take_commit_writes:
  fixes v :: "uint \<Rightarrow> uchar list"
  assumes "tx_ok l" and "n = length (tx_blocks l)"
  defines "h \<equiv> head_data l (v (l_start l))"
  shows "k \<le> n \<Longrightarrow> take k (commit_writes l v) = take k (log_writes l v)"
    and "n < k \<Longrightarrow> k \<le> 2 * n + 1 \<Longrightarrow> take k (commit_writes l v) = log_writes l v @ (l_start l, h) # take (k - n - 1) (home_writes l v)"
    and "2 * n + 1 < k \<Longrightarrow> take k (commit_writes l v)
      = log_writes l v @ (l_start l, h) # home_writes l v @ [(l_start l, head_data (l\<lparr>lh_n := 0\<rparr>) h)]"
proof -
  have len: "length (log_writes l v) = n" "length (home_writes l v) = n"
    using tx_room [OF assms(1)] assms(2) by (simp_all add: log_writes_def home_writes_def)
  have cw: "commit_writes l v = log_writes l v @ (l_start l, h) # home_writes l v @ [(l_start l, head_data (l\<lparr>lh_n := 0\<rparr>) h)]"
    by (simp add: commit_writes_def h_def Let_def)
  show "k \<le> n \<Longrightarrow> take k (commit_writes l v) = take k (log_writes l v)" unfolding cw by (simp add: len)
  show "take k (commit_writes l v) = log_writes l v @ (l_start l, h) # take (k - n - 1) (home_writes l v)"
    if "n < k" "k \<le> 2 * n + 1"
  proof -
    define m where "m = k - n - 1"
    have "k = Suc (n + m)" "m \<le> n" using that by (simp_all add: m_def)
    then show ?thesis unfolding cw by (simp add: len)
  qed
  show "take k (commit_writes l v)
      = log_writes l v @ (l_start l, h) # home_writes l v @ [(l_start l, head_data (l\<lparr>lh_n := 0\<rparr>) h)]"
    if "2 * n + 1 < k"
    unfolding cw by (rule take_all) (use len that in simp)
qed

lemma apply_writes_outside: "set (map fst ws) \<subseteq> N \<Longrightarrow> m \<notin> N \<Longrightarrow> apply_writes ws d m = d m"
  by (rule apply_writes_other) auto

lemma map_fst_take: "set (map fst (take k ws)) \<subseteq> set (map fst ws)"
  by (metis set_take_subset take_map)

text \<open>The disk at a crash before the header has been written, after that, and at the end.\<close>

lemma crash_before:
  assumes "tx_ok l" and "k \<le> length (tx_blocks l)" and "m \<notin> set (tx_slots l)"
  shows "apply_writes (take k (commit_writes l v)) d m = d m"
  unfolding take_commit_writes(1) [OF assms(1) refl assms(2)]
  by (rule apply_writes_outside [OF map_fst_take]) (use assms(3) fst_writes(1) [OF assms(1)] in simp)

lemma crash_between:
  fixes v d :: "uint \<Rightarrow> uchar list"
  assumes "tx_ok l" and "length (tx_blocks l) < k" and "k \<le> 2 * length (tx_blocks l) + 1"
  defines "e \<equiv> apply_writes (take k (commit_writes l v)) d"
  shows "e (l_start l) = head_data l (v (l_start l))" and "map e (tx_slots l) = map v (tx_blocks l)"
    and "\<And>m. m \<notin> set (l_start l # tx_slots l) \<Longrightarrow> m \<notin> set (tx_blocks l) \<Longrightarrow> e m = d m"
proof -
  note sets = tx_sets [OF assms(1)] and fs = fst_writes [OF assms(1)]
  let ?d1 = "apply_writes (log_writes l v) d" and ?h = "head_data l (v (l_start l))"
  have e: "e = apply_writes (take (k - length (tx_blocks l) - 1) (home_writes l v)) (?d1(l_start l := ?h))"
    unfolding e_def take_commit_writes(2) [OF assms(1) refl assms(2,3)] by simp
  have off: "e m = (?d1(l_start l := ?h)) m" if "m \<notin> set (tx_blocks l)" for m
    unfolding e by (rule apply_writes_outside [OF map_fst_take]) (use that fs(2) in simp)
  show "e (l_start l) = ?h" using off sets(2) by simp
  show "map e (tx_slots l) = map v (tx_blocks l)"
  proof (rule nth_equalityI)
    fix j assume "j < length (map e (tx_slots l))"
    then have j: "j < length (tx_blocks l)" "tx_slots l ! j \<in> set (tx_slots l)" using tx_room(2) [OF assms(1)] by simp_all
    then have "tx_slots l ! j \<noteq> l_start l" "tx_slots l ! j \<notin> set (tx_blocks l)" using sets by auto
    with off [of "tx_slots l ! j"] log_writes_slot [OF assms(1) j(1)] j tx_room(2) [OF assms(1)]
    show "map e (tx_slots l) ! j = map v (tx_blocks l) ! j" by simp
  qed (simp add: tx_room(2) [OF assms(1)])
  fix m assume "m \<notin> set (l_start l # tx_slots l)" "m \<notin> set (tx_blocks l)"
  then show "e m = d m" using off apply_writes_outside [of "log_writes l v" "set (tx_slots l)" m d] fs(1) by simp
qed

lemma crash_after:
  assumes "tx_ok l" and "2 * length (tx_blocks l) + 1 < k" and "length (v (l_start l)) = BSIZE"
    and "\<And>m. m \<notin> set (tx_blocks l) \<Longrightarrow> v m = d m"
  defines "e \<equiv> apply_writes (take k (commit_writes l v)) d"
  shows "sint (word_at 0 (e (l_start l))) = 0" and "\<And>m. m \<notin> set (l_start l # tx_slots l) \<Longrightarrow> e m = v m"
proof -
  note sets = tx_sets [OF assms(1)] and fs = fst_writes [OF assms(1)]
  let ?h = "head_data l (v (l_start l))"
  let ?d2 = "apply_writes (home_writes l v) ((apply_writes (log_writes l v) d)(l_start l := ?h))"
  have e: "e = ?d2(l_start l := head_data (l\<lparr>lh_n := 0\<rparr>) ?h)"
    unfolding e_def take_commit_writes(3) [OF assms(1) refl assms(2)] by simp
  have "length ?h = BSIZE" using head_data(1) [OF assms(3)] assms(1) by (simp add: tx_ok_def)
  from head_data(2) [OF this, of "l\<lparr>lh_n := 0\<rparr>"] show "sint (word_at 0 (e (l_start l))) = 0" by (simp add: e)
  fix m assume m: "m \<notin> set (l_start l # tx_slots l)"
  show "e m = v m"
  proof (cases "m \<in> set (tx_blocks l)")
    case True
    then have "(m, v m) \<in> set (home_writes l v)" by (auto simp: home_writes_def in_set_conv_nth set_zip)
    then have "?d2 m = v m" using apply_writes_in [of "home_writes l v"] fs(2) sets(5) by simp
    with m show ?thesis by (simp add: e)
  next
    case False
    then have "?d2 m = ((apply_writes (log_writes l v) d)(l_start l := ?h)) m"
      using apply_writes_outside [of "home_writes l v" "set (tx_blocks l)"] fs(2) by simp
    also have "\<dots> = d m" using m apply_writes_outside [of "log_writes l v" "set (tx_slots l)" m d] fs(1) by simp
    finally show ?thesis using m False assms(4) by (simp add: e)
  qed
qed

subsection \<open>Adding a block to the transaction\<close>

lemma tx_blocks_absorb:
  "scan (nat (lh_n l)) (\<lambda>i. lh_block l i = n) = None \<longleftrightarrow> n \<notin> set (tx_blocks l)"
  by (auto simp: scan_None_iff tx_blocks_def)

lemma tx_blocks_add:
  assumes "0 \<le> lh_n l"
  shows "tx_blocks (l\<lparr>lh_block := (lh_block l)(nat (lh_n l) := n), lh_n := lh_n l + 1\<rparr>) = tx_blocks l @ [n]"
  using assms by (simp add: tx_blocks_def nat_add_distrib)

lemma log_write_ok:
  assumes ok: "cache_ok dev p i H (set (tx_blocks (klog s))) s" and n: "n \<in> H" and b: "buf_at dev n (bufs s) = Some b"
    and l: "0 \<le> lh_n (klog s)" "lh_n (klog s) < int LOGSIZE" "lh_n (klog s) < l_size (klog s) - 1" "1 \<le> outstanding (klog s)"
  shows "\<exists>t. log_write b s = Ok t \<and> cache_ok dev p i H (set (tx_blocks (klog t))) t \<and> bview dev t = bview dev s
    \<and> disk t = disk s \<and> dtrace t = dtrace s \<and> (\<forall>m. buf_at dev m (bufs t) = buf_at dev m (bufs s))
    \<and> tx_blocks (klog t) = (if n \<in> set (tx_blocks (klog s)) then tx_blocks (klog s) else tx_blocks (klog s) @ [n])
    \<and> lh_n (klog t) = (if n \<in> set (tx_blocks (klog s)) then lh_n (klog s) else lh_n (klog s) + 1)
    \<and> t = s\<lparr>bufs := bufs t, klog := (klog s)\<lparr>lh_n := lh_n (klog t), lh_block := lh_block (klog t)\<rparr>\<rparr>"
proof (cases "n \<in> set (tx_blocks (klog s))")
  case True
  then obtain j where "scan (nat (lh_n (klog s))) (\<lambda>i. lh_block (klog s) i = n) = Some j" using tx_blocks_absorb by blast
  then have "log_write b s = Ok s" using l held_buf(3) [OF ok n b] by (simp add: log_write_def Let_def)
  with True ok show ?thesis by simp
next
  case False
  let ?l = "(klog s)\<lparr>lh_block := (lh_block (klog s))(nat (lh_n (klog s)) := n), lh_n := lh_n (klog s) + 1\<rparr>"
  let ?u = "s\<lparr>klog := ?l\<rparr>"
  have h: "b_blockno (bufs s b) = n" "b_refcnt (bufs s b) = 1" using held_buf(3,5) [OF ok n b] False by simp_all
  have none: "scan (nat (lh_n (klog s))) (\<lambda>i. lh_block (klog s) i = n) = None" using False tx_blocks_absorb by blast
  have "log_write b s = Ok (bpin b ?u)" using l h none by (simp add: log_write_def Let_def upd_log_def)
  moreover have pin: "bpin b ?u = upd_buf b (\<lambda>x. x\<lparr>b_refcnt := 2\<rparr>) ?u" using h by (simp add: bpin_def upd_buf_def)
  have u: "cache_ok dev p i H (set (tx_blocks (klog s))) ?u" "buf_at dev n (bufs ?u) = Some b"
    using ok b cache_ok_upd_log(1) [of dev p i H _ "\<lambda>_. ?l" s] by (simp_all add: upd_log_def)
  have tb: "tx_blocks ?l = tx_blocks (klog s) @ [n]" by (rule tx_blocks_add [OF l(1)])
  have "set (tx_blocks ?l) - {n} = set (tx_blocks (klog s)) - {n}" "(2 :: uint) = 1 + of_bool (n \<in> set (tx_blocks ?l))"
    using tb by auto
  note rc = recount_ok [OF u(1) n u(2) this]
  have v: "bview dev ?u = bview dev s" by (simp add: bview_def)
  have kl: "klog (bpin b ?u) = ?l" "bufs (bpin b ?u) = (bufs s)(b := (bufs s b)\<lparr>b_refcnt := 2\<rparr>)"
    using h by (simp_all add: bpin_def upd_buf_def)
  have "cache_ok dev p i H (set (tx_blocks (klog (bpin b ?u)))) (bpin b ?u)" unfolding kl unfolding pin by (rule rc(1))
  moreover have "bview dev (bpin b ?u) = bview dev s" unfolding pin rc(2) v ..
  moreover have "buf_at dev m (bufs (bpin b ?u)) = buf_at dev m (bufs s)" for m unfolding pin rc(3) by simp
  moreover have "disk (bpin b ?u) = disk s" "dtrace (bpin b ?u) = dtrace s" by (simp_all add: bpin_def)
  moreover have "bpin b ?u = s\<lparr>bufs := bufs (bpin b ?u),
      klog := (klog s)\<lparr>lh_n := lh_n (klog (bpin b ?u)), lh_block := lh_block (klog (bpin b ?u))\<rparr>\<rparr>"
    unfolding kl by (simp add: bpin_def upd_buf_def h)
  ultimately show ?thesis using False kl(1) tb by (intro exI [of _ "bpin b ?u"]) simp
qed

text \<open>
  C1. A commit is atomic with respect to crashes. \<^verbatim>\<open>commit\<close> returns and has issued a sequence of block
  writes. If the machine stops after any number \<open>k\<close> of them, and boots with an empty cache from the disk
  as it is then, \<^verbatim>\<open>recover_from_log\<close> returns, and outside of the log every block is as it was before the
  commit when at most the blocks of the log had been written, and as the transaction left it otherwise.
\<close>

theorem commit_atomic:
  fixes s :: "'a fslog_scheme"
  assumes "cache_ok dev p i {} (set (tx_blocks (klog s))) s" and "tx_ok (klog s)" and "l_dev (klog s) = dev"
    and "lh_n (klog s) > 0" and "sint (word_at 0 (disk s (l_start (klog s)))) = 0"
  shows "\<exists>t ws. commit s = Ok t \<and> dtrace t = dtrace s @ ws \<and> disk t = apply_writes ws (disk s) \<and>
    (\<forall>k (b :: 'a fslog_scheme) q j. cache_ok dev q j {} {} b \<and> l_dev (klog b) = dev \<and> l_start (klog b) = l_start (klog s)
        \<and> disk b = apply_writes (take k ws) (disk s) \<longrightarrow>
      (\<exists>u. recover_from_log b = Ok u \<and> (\<forall>m. m \<notin> set (l_start (klog s) # tx_slots (klog s)) \<longrightarrow>
        disk u m = (if int k \<le> lh_n (klog s) then disk s m else bview dev s m))))"
proof -
  let ?l = "klog s" and ?v = "bview dev s"
  let ?n = "length (tx_blocks ?l)" and ?ws = "commit_writes ?l ?v" and ?A = "set (l_start ?l # tx_slots ?l)"
  have inv: "cache_inv dev (t_id (thr p i s)) {} (set (tx_blocks ?l)) (bufs s) (disk s)" using assms(1) by (simp add: cache_ok_def)
  have clean: "?v m = disk s m" if "m \<notin> set (tx_blocks ?l)" for m using contents_clean [OF inv _ that] by (simp add: bview_def)
  have len: "length (?v m) = BSIZE" for m using length_contents [OF inv] by (simp add: bview_def)
  have n: "int k \<le> lh_n ?l \<longleftrightarrow> k \<le> ?n" for k using tx_room(3) [OF assms(2)] assms(4) by auto
  have "\<exists>u. recover_from_log b = Ok u \<and> (\<forall>m. m \<notin> ?A \<longrightarrow> disk u m = (if k \<le> ?n then disk s m else ?v m))"
    if b: "cache_ok dev q j {} {} b" "l_dev (klog b) = dev" "l_start (klog b) = l_start ?l"
      "disk b = apply_writes (take k ?ws) (disk s)" for k q j and b :: "'a fslog_scheme"
  proof -
    consider "k \<le> ?n" | "?n < k" "k \<le> 2 * ?n + 1" | "2 * ?n + 1 < k" by linarith
    then show ?thesis
    proof cases
      case 1
      have d: "disk b m = disk s m" if "m \<notin> set (tx_slots ?l)" for m
        unfolding b(4) by (rule crash_before [OF assms(2) 1 that])
      with recover_empty [OF b(1,2)] b(3) assms(5) tx_sets(1) [OF assms(2)] 1 show ?thesis by auto
    next
      case 2
      note c = crash_between [OF assms(2) 2, where v = ?v and d = "disk s", folded b(4)]
      from recover_committed [OF b(1-3) assms(2) len c(1,2)] c(3) clean 2 show ?thesis by auto
    next
      case 3
      note c = crash_after [where v = ?v and d = "disk s", OF assms(2) 3 len clean, folded b(4)]
      from recover_empty [OF b(1,2)] c b(3) 3 show ?thesis by auto
    qed
  qed
  moreover from commit_ok [OF assms(1-4)] obtain t where
    "commit s = Ok t" "dtrace t = dtrace s @ ?ws" "disk t = apply_writes ?ws (disk s)" by blast
  ultimately show ?thesis unfolding n by (intro exI [of _ t] exI [of _ ?ws]) blast
qed

text \<open>A transaction that has changed block 40, with the log at block 256.\<close>

definition log_example :: fslog where
  "log_example = bcache.extend bcache_example
     \<lparr>klog = \<lparr>l_start = 256, l_size = 30, outstanding = 1, committing = 0, l_dev = 1, lh_n = 0, lh_block = (\<lambda>_. 0)\<rparr>\<rparr>"

lemma log_example_ok:
  "cache_ok 1 2 0 {} {} log_example" "bview 1 log_example = (\<lambda>n. replicate BSIZE (ucast n))"
  "disk log_example = (\<lambda>n. replicate BSIZE (ucast n))"
  "klog log_example = \<lparr>l_start = 256, l_size = 30, outstanding = 1, committing = 0, l_dev = 1, lh_n = 0, lh_block = (\<lambda>_. 0)\<rparr>"
proof -
  have b: "bufs log_example = bufs bcache_example" "disk log_example = disk bcache_example"
    "thr p i log_example = thr p i bcache_example" for p i
    by (simp_all add: log_example_def bcache.defs thr_def)
  have "running 2 0 log_example = running 2 0 bcache_example"
    by (rule running_cong) (simp_all add: log_example_def bcache.defs)
  with bcache_example_ok b show "cache_ok 1 2 0 {} {} log_example" "bview 1 log_example = (\<lambda>n. replicate BSIZE (ucast n))"
    by (simp_all add: cache_ok_def bview_def)
  show "disk log_example = (\<lambda>n. replicate BSIZE (ucast n))"
    unfolding b(2) bcache_example_def by (subst binit_frame) (simp add: kernel.defs)
  show "klog log_example = \<lparr>l_start = 256, l_size = 30, outstanding = 1, committing = 0, l_dev = 1, lh_n = 0, lh_block = (\<lambda>_. 0)\<rparr>"
    by (simp add: log_example_def bcache.defs)
qed

lemma log_example_tx:
  "\<exists>s :: fslog. cache_ok 1 2 0 {} (set (tx_blocks (klog s))) s \<and> tx_blocks (klog s) = [40] \<and> lh_n (klog s) = 1 \<and> l_start (klog s) = 256
    \<and> l_dev (klog s) = 1 \<and> disk s = (\<lambda>n. replicate BSIZE (ucast n)) \<and> bview 1 s 40 = replicate BSIZE 9"
proof -
  note e = log_example_ok
  have c: "card (insert 40 ({} \<union> {} :: uint set)) \<le> NBUF" by (simp add: NBUF_def MAXOPBLOCKS_def)
  from bread_ok [OF e(1) _ c] obtain b t where
    t: "bread 1 40 log_example = Ok (b, t)" "cache_ok 1 2 0 {40} {} t" "buf_at 1 40 (bufs t) = Some b"
       "disk t = disk log_example" "klog t = klog log_example" using calm_klog by auto
  let ?d = "replicate BSIZE 9 :: uchar list" and ?u = "upd_buf b (\<lambda>x. x\<lparr>b_data := replicate BSIZE 9\<rparr>) t"
  note m = modify_ok [OF t(2) _ t(3), of ?d, simplified]
  have k: "klog ?u = klog log_example" using t(5) by (simp add: upd_buf_def)
  have tb: "tx_blocks (klog log_example) = []" by (simp add: e(4) tx_blocks_def)
  from log_write_ok [of 1 2 0 "{40}" ?u 40 b] m t(3) k tb obtain w where
    w: "log_write b ?u = Ok w" "cache_ok 1 2 0 {40} (set (tx_blocks (klog w))) w" "bview 1 w = bview 1 ?u" "disk w = disk t"
       "buf_at 1 40 (bufs w) = Some b" "tx_blocks (klog w) = [40]" "lh_n (klog w) = 1"
       "w = ?u\<lparr>bufs := bufs w, klog := (klog ?u)\<lparr>lh_n := lh_n (klog w), lh_block := lh_block (klog w)\<rparr>\<rparr>"
    by (auto simp: e(4) LOGSIZE_def MAXOPBLOCKS_def)
  have kw: "klog w = (klog log_example)\<lparr>lh_n := lh_n (klog w), lh_block := lh_block (klog w)\<rparr>"
    using arg_cong [OF w(8), of klog] k by simp
  from brelse_ok [of 1 2 0 40 "{}" "set (tx_blocks (klog w))" w b] w obtain x where
    x: "brelse b w = Ok x" "cache_ok 1 2 0 {} {40} x" "bview 1 x = bview 1 w" "disk x = disk w" "klog x = klog w"
    using calm_klog by auto
  have "l_start (klog x) = 256" "l_dev (klog x) = 1" using x(5) arg_cong [OF kw, of l_start] arg_cong [OF kw, of l_dev] by (simp_all add: e(4))
  moreover have "bview 1 x 40 = ?d" using x(3) w(3) m(2) by simp
  ultimately show ?thesis using x w t(4) e(3) by (intro exI [of _ x]) simp
qed

lemma le_word_zeros: "le_word (replicate n 0) = 0"
  by (induction n) simp_all

theorem commit_atomic_witness:
  "\<exists>(s :: fslog) t. disk s 40 = replicate BSIZE 40 \<and> commit s = Ok t \<and>
    (\<exists>ws. dtrace t = dtrace s @ ws \<and> (\<exists>u. recover_from_log log_example = Ok u \<and> disk u 40 = replicate BSIZE 40))"
proof -
  from log_example_tx obtain s :: fslog where s: "cache_ok 1 2 0 {} (set (tx_blocks (klog s))) s" "tx_blocks (klog s) = [40]"
    "lh_n (klog s) = 1" "l_start (klog s) = 256" "l_dev (klog s) = 1" "disk s = (\<lambda>n. replicate BSIZE (ucast n))" by blast
  have sl: "tx_slots (klog s) = [257]" by (simp add: tx_slots_def s(3,4) log_slot_def)
  have tx: "tx_ok (klog s)" by (simp add: tx_ok_def s sl LOGSIZE_def MAXOPBLOCKS_def)
  have z: "sint (word_at 0 (disk s (l_start (klog s)))) = 0"
  proof -
    have e: "(256 :: uchar) = 0" by simp
    have "le_word (replicate 4 (256 :: uchar)) = (0 :: uint)" unfolding e by (rule le_word_zeros)
    then show ?thesis by (simp add: s word_at_def BSIZE_def)
  qed
  have "lh_n (klog s) > 0" using s(3) by simp
  from commit_atomic [OF s(1) tx s(5) this z] obtain t ws where
    t: "commit s = Ok t" "dtrace t = dtrace s @ ws"
      "\<And>k (b :: fslog) q j. cache_ok 1 q j {} {} b \<and> l_dev (klog b) = 1 \<and> l_start (klog b) = l_start (klog s)
        \<and> disk b = apply_writes (take k ws) (disk s) \<Longrightarrow>
      \<exists>u. recover_from_log b = Ok u \<and> (\<forall>m. m \<notin> set (l_start (klog s) # tx_slots (klog s)) \<longrightarrow>
        disk u m = (if int k \<le> lh_n (klog s) then disk s m else bview 1 s m))" by metis
  from t(3) [of 2 0 log_example 0] log_example_ok s sl
  have "\<exists>u. recover_from_log log_example = Ok u \<and> disk u 40 = replicate BSIZE 40" by force
  with t(1,2) s(6) show ?thesis by (intro exI [of _ s] exI [of _ t]) auto
qed

end
