(* ===== verification/Inode.thy ===== *)
theory Inode
  imports Log Signal
begin

text \<open>
  The lower half of the file system (\<^verbatim>\<open>kernel/fs.c\<close>): the super block, the free map, and inodes, on disk
  and in memory. A \<^verbatim>\<open>struct inode *\<close> is an index into \<^verbatim>\<open>itable.inode\<close>. Structures on the disk are the
  little-endian images that the casts of \<^verbatim>\<open>bp->data\<close> read and write. The critical sections under
  \<^verbatim>\<open>itable.lock\<close> are single steps. A copy into or out of a variable on the kernel stack returns or takes
  its bytes.
\<close>

subsection \<open>Data (kernel/fs.h, kernel/file.h, kernel/stat.h)\<close>

definition ROOTINO :: uint where "ROOTINO = 1"
definition FSMAGIC :: uint where "FSMAGIC = 0x10203040"
definition NDIRECT :: nat where "NDIRECT = 12"
definition NINDIRECT :: nat where "NINDIRECT = BSIZE div 4"
definition MAXFILE :: nat where "MAXFILE = NDIRECT + NINDIRECT"
definition DIRSIZ :: nat where "DIRSIZ = 14"
definition T_DIR :: ushort where "T_DIR = 1"
definition T_FILE :: ushort where "T_FILE = 2"
definition T_DEVICE :: ushort where "T_DEVICE = 3"

record superblock =
  sb_magic :: uint
  sb_size :: uint
  sb_nblocks :: uint
  sb_ninodes :: uint
  sb_nlog :: uint
  sb_logstart :: uint
  sb_inodestart :: uint
  sb_bmapstart :: uint

record dinode =
  di_type :: ushort
  di_major :: ushort
  di_minor :: ushort
  di_nlink :: ushort
  di_size :: uint
  di_addrs :: "uint list"

record inode =
  i_dev :: uint
  i_inum :: uint
  i_ref :: int
  i_lock :: sleeplock
  i_valid :: int
  i_type :: ushort
  i_major :: ushort
  i_minor :: ushort
  i_nlink :: ushort
  i_size :: uint
  i_addrs :: "uint list"

record stat =
  st_dev :: uint
  st_ino :: uint
  st_type :: ushort
  st_nlink :: ushort
  st_size :: uint64

record fsys = fslog +
  sb :: superblock
  inodes :: "nat \<Rightarrow> inode"

definition upd_inode :: "nat \<Rightarrow> (inode \<Rightarrow> inode) \<Rightarrow> 'a fsys_scheme \<Rightarrow> 'a fsys_scheme" where
  "upd_inode ip f s = s\<lparr>inodes := (inodes s)(ip := f (inodes s ip))\<rparr>"

definition set_data :: "nat \<Rightarrow> uchar list \<Rightarrow> 'a bcache_scheme \<Rightarrow> 'a bcache_scheme" where
  "set_data bp d s = upd_buf bp (\<lambda>x. x\<lparr>b_data := d\<rparr>) s"

subsection \<open>Images on the disk\<close>

definition DINODE_SIZE :: nat where "DINODE_SIZE = 64"
definition IPB :: nat where "IPB = BSIZE div DINODE_SIZE"
definition BPB :: nat where "BPB = BSIZE * 8"

definition IBLOCK :: "uint \<Rightarrow> superblock \<Rightarrow> uint" where
  "IBLOCK i x = i div of_nat IPB + sb_inodestart x"

definition BBLOCK :: "uint \<Rightarrow> superblock \<Rightarrow> uint" where
  "BBLOCK b x = b div of_nat BPB + sb_bmapstart x"

definition dinode_bytes :: "dinode \<Rightarrow> uchar list" where
  "dinode_bytes d = le_bytes 2 (di_type d) @ le_bytes 2 (di_major d) @ le_bytes 2 (di_minor d) @ le_bytes 2 (di_nlink d)
     @ le_bytes 4 (di_size d) @ concat (map (le_bytes 4) (di_addrs d))"

definition bytes_dinode :: "uchar list \<Rightarrow> dinode" where
  "bytes_dinode bs = \<lparr>di_type = le_word (take 2 bs), di_major = le_word (take 2 (drop 2 bs)),
     di_minor = le_word (take 2 (drop 4 bs)), di_nlink = le_word (take 2 (drop 6 bs)), di_size = le_word (take 4 (drop 8 bs)),
     di_addrs = map (\<lambda>i. le_word (take 4 (drop (12 + 4 * i) bs))) [0..<NDIRECT + 1]\<rparr>"

definition get_dinode :: "nat \<Rightarrow> uchar list \<Rightarrow> dinode" where
  "get_dinode i data = bytes_dinode (take DINODE_SIZE (drop (DINODE_SIZE * i) data))"

definition put_dinode :: "nat \<Rightarrow> dinode \<Rightarrow> uchar list \<Rightarrow> uchar list" where
  "put_dinode i d data = take (DINODE_SIZE * i) data @ dinode_bytes d @ drop (DINODE_SIZE * i + DINODE_SIZE) data"

definition bytes_superblock :: "uchar list \<Rightarrow> superblock" where
  "bytes_superblock d = \<lparr>sb_magic = word_at 0 d, sb_size = word_at 1 d, sb_nblocks = word_at 2 d, sb_ninodes = word_at 3 d,
     sb_nlog = word_at 4 d, sb_logstart = word_at 5 d, sb_inodestart = word_at 6 d, sb_bmapstart = word_at 7 d\<rparr>"

subsection \<open>Super block and free map\<close>

definition readsb :: "uint \<Rightarrow> 'a fsys_scheme \<Rightarrow> 'a fsys_scheme result" where
  "readsb dev s = bindR (bread dev 1 s) (\<lambda>(bp, s). brelse bp (s\<lparr>sb := bytes_superblock (b_data (bufs s bp))\<rparr>))"

definition fsinit :: "uint \<Rightarrow> 'a fsys_scheme \<Rightarrow> 'a fsys_scheme result" where
  "fsinit dev s =
     bindR (readsb dev s) (\<lambda>s.
       if sb_magic (sb s) \<noteq> FSMAGIC then Panic ''invalid file system''
       else initlog dev (sb_logstart (sb s)) (sb_nlog (sb s)) s)"

definition bzero :: "uint \<Rightarrow> uint \<Rightarrow> 'a fsys_scheme \<Rightarrow> 'a fsys_scheme result" where
  "bzero dev bno s =
     bindR (bread dev bno s) (\<lambda>(bp, s).
     bindR (log_write bp (set_data bp (replicate BSIZE 0) s)) (brelse bp))"

definition bit_mask :: "nat \<Rightarrow> uchar" where
  "bit_mask bi = push_bit (bi mod 8) 1"

text \<open>
  The loop over the blocks of the free map; \<open>k\<close> counts them, and \<open>b\<close> is the variable of the loop, an int in C,
  which is enough for \<open>2 ^ 31\<close> blocks.
\<close>

fun balloc_loop :: "uint \<Rightarrow> nat list \<Rightarrow> 'a fsys_scheme \<Rightarrow> (uint \<times> 'a fsys_scheme) result" where
  "balloc_loop dev [] s = Panic ''balloc: out of blocks''"
| "balloc_loop dev (k # ks) s =
     (let b = k * BPB
      in bindR (bread dev (BBLOCK (of_nat b) (sb s)) s) (\<lambda>(bp, s).
         let data = b_data (bufs s bp)
         in case scan (min BPB (unat (sb_size (sb s)) - b)) (\<lambda>bi. data ! (bi div 8) AND bit_mask bi = 0) of
              Some bi \<Rightarrow>
                let data = data[bi div 8 := data ! (bi div 8) OR bit_mask bi]
                in bindR (log_write bp (set_data bp data s)) (\<lambda>s.
                   bindR (brelse bp s) (\<lambda>s.
                   bindR (bzero dev (of_nat (b + bi)) s) (\<lambda>s. Ok (of_nat (b + bi), s))))
            | None \<Rightarrow> bindR (brelse bp s) (balloc_loop dev ks)))"

definition balloc :: "uint \<Rightarrow> 'a fsys_scheme \<Rightarrow> (uint \<times> 'a fsys_scheme) result" where
  "balloc dev s = balloc_loop dev [0..<(unat (sb_size (sb s)) + BPB - 1) div BPB] s"

definition bfree :: "uint \<Rightarrow> uint \<Rightarrow> 'a fsys_scheme \<Rightarrow> 'a fsys_scheme result" where
  "bfree dev b s =
     bindR (bread dev (BBLOCK b (sb s)) s) (\<lambda>(bp, s).
       let bi = unat b mod BPB; data = b_data (bufs s bp)
       in if data ! (bi div 8) AND bit_mask bi = 0 then Panic ''freeing free block''
          else bindR (log_write bp (set_data bp (data[bi div 8 := data ! (bi div 8) AND NOT (bit_mask bi)]) s)) (brelse bp))"

subsection \<open>Inodes\<close>

definition iinit :: "'a fsys_scheme \<Rightarrow> 'a fsys_scheme" where
  "iinit s = s\<lparr>inodes := (\<lambda>i. if i < NINODE then (inodes s i)\<lparr>i_lock := initsleeplock ''inode''\<rparr> else inodes s i)\<rparr>"

definition iget :: "uint \<Rightarrow> uint \<Rightarrow> 'a fsys_scheme \<Rightarrow> (nat \<times> 'a fsys_scheme) result" where
  "iget dev inum s =
     (case scan NINODE (\<lambda>i. i_ref (inodes s i) > 0 \<and> i_dev (inodes s i) = dev \<and> i_inum (inodes s i) = inum) of
        Some i \<Rightarrow> Ok (i, upd_inode i (\<lambda>ip. ip\<lparr>i_ref := i_ref ip + 1\<rparr>) s)
      | None \<Rightarrow>
          (case scan NINODE (\<lambda>i. i_ref (inodes s i) = 0) of
             None \<Rightarrow> Panic ''iget: no inodes''
           | Some i \<Rightarrow> Ok (i, upd_inode i (\<lambda>ip. ip\<lparr>i_dev := dev, i_inum := inum, i_ref := 1, i_valid := 0\<rparr>) s)))"

fun ialloc_loop :: "uint \<Rightarrow> ushort \<Rightarrow> nat list \<Rightarrow> 'a fsys_scheme \<Rightarrow> (nat \<times> 'a fsys_scheme) result" where
  "ialloc_loop dev type [] s = Panic ''ialloc: no inodes''"
| "ialloc_loop dev type (inum # is) s =
     bindR (bread dev (IBLOCK (of_nat inum) (sb s)) s) (\<lambda>(bp, s).
       let data = b_data (bufs s bp)
       in if di_type (get_dinode (inum mod IPB) data) = 0
          then let d = \<lparr>di_type = type, di_major = 0, di_minor = 0, di_nlink = 0, di_size = 0, di_addrs = replicate (NDIRECT + 1) 0\<rparr>
               in bindR (log_write bp (set_data bp (put_dinode (inum mod IPB) d data) s)) (\<lambda>s.
                  bindR (brelse bp s) (iget dev (of_nat inum)))
          else bindR (brelse bp s) (ialloc_loop dev type is))"

definition ialloc :: "uint \<Rightarrow> ushort \<Rightarrow> 'a fsys_scheme \<Rightarrow> (nat \<times> 'a fsys_scheme) result" where
  "ialloc dev type s = ialloc_loop dev type [1..<unat (sb_ninodes (sb s))] s"

definition iupdate :: "nat \<Rightarrow> 'a fsys_scheme \<Rightarrow> 'a fsys_scheme result" where
  "iupdate ip s =
     (let i = inodes s ip
      in bindR (bread (i_dev i) (IBLOCK (i_inum i) (sb s)) s) (\<lambda>(bp, s).
           let d = \<lparr>di_type = i_type i, di_major = i_major i, di_minor = i_minor i, di_nlink = i_nlink i,
                    di_size = i_size i, di_addrs = i_addrs i\<rparr>
           in bindR (log_write bp (set_data bp (put_dinode (unat (i_inum i) mod IPB) d (b_data (bufs s bp))) s)) (brelse bp)))"

definition idup :: "nat \<Rightarrow> 'a fsys_scheme \<Rightarrow> 'a fsys_scheme" where
  "idup ip s = upd_inode ip (\<lambda>i. i\<lparr>i_ref := i_ref i + 1\<rparr>) s"

definition load_inode :: "nat \<Rightarrow> 'a fsys_scheme \<Rightarrow> 'a fsys_scheme result" where
  "load_inode ip s =
     (let i = inodes s ip
      in bindR (bread (i_dev i) (IBLOCK (i_inum i) (sb s)) s) (\<lambda>(bp, s).
           let d = get_dinode (unat (i_inum i) mod IPB) (b_data (bufs s bp));
               s = upd_inode ip (\<lambda>i. i\<lparr>i_type := di_type d, i_major := di_major d, i_minor := di_minor d,
                 i_nlink := di_nlink d, i_size := di_size d, i_addrs := di_addrs d\<rparr>) s
           in bindR (brelse bp s) (\<lambda>s.
                let s = upd_inode ip (\<lambda>i. i\<lparr>i_valid := 1\<rparr>) s
                in if i_type (inodes s ip) = 0 then Panic ''ilock: no type'' else Ok s)))"

definition ilock :: "nat \<Rightarrow> 'a fsys_scheme \<Rightarrow> 'a fsys_scheme result" where
  "ilock ip s =
     (if i_ref (inodes s ip) < 1 then Panic ''ilock''
      else bindR (acquiresleep (InodeLockChan ip) (i_lock (inodes s ip)) s) (\<lambda>(lk, s).
        let s = upd_inode ip (\<lambda>i. i\<lparr>i_lock := lk\<rparr>) s
        in if i_valid (inodes s ip) = 0 then load_inode ip s else Ok s))"

definition iunlock :: "nat \<Rightarrow> 'a fsys_scheme \<Rightarrow> 'a fsys_scheme result" where
  "iunlock ip s =
     bindR (holdingsleep (i_lock (inodes s ip)) s) (\<lambda>(h, s).
       if \<not> h \<or> i_ref (inodes s ip) < 1 then Panic ''iunlock''
       else bindR (releasesleep (InodeLockChan ip) (i_lock (inodes s ip)) s) (\<lambda>(lk, s).
         Ok (upd_inode ip (\<lambda>i. i\<lparr>i_lock := lk\<rparr>) s)))"

definition itrunc :: "nat \<Rightarrow> 'a fsys_scheme \<Rightarrow> 'a fsys_scheme result" where
  "itrunc ip s =
     bindR (foldR (\<lambda>i s. let a = i_addrs (inodes s ip) ! i
         in if a \<noteq> 0
            then bindR (bfree (i_dev (inodes s ip)) a s) (\<lambda>s.
                   Ok (upd_inode ip (\<lambda>x. x\<lparr>i_addrs := (i_addrs x)[i := 0]\<rparr>) s))
            else Ok s) [0..<NDIRECT] s) (\<lambda>s.
     bindR (let ind = i_addrs (inodes s ip) ! NDIRECT; dev = i_dev (inodes s ip)
            in if ind \<noteq> 0
               then bindR (bread dev ind s) (\<lambda>(bp, s).
                    let a = b_data (bufs s bp)
                    in bindR (foldR (\<lambda>j s. if word_at j a \<noteq> 0 then bfree dev (word_at j a) s else Ok s) [0..<NINDIRECT] s) (\<lambda>s.
                       bindR (brelse bp s) (\<lambda>s.
                       bindR (bfree dev ind s) (\<lambda>s.
                         Ok (upd_inode ip (\<lambda>x. x\<lparr>i_addrs := (i_addrs x)[NDIRECT := 0]\<rparr>) s)))))
               else Ok s) (\<lambda>s.
       iupdate ip (upd_inode ip (\<lambda>x. x\<lparr>i_size := 0\<rparr>) s)))"

definition iput :: "nat \<Rightarrow> 'a fsys_scheme \<Rightarrow> 'a fsys_scheme result" where
  "iput ip s =
     (let i = inodes s ip
      in bindR (if i_ref i = 1 \<and> i_valid i \<noteq> 0 \<and> i_nlink i = 0
           then bindR (acquiresleep (InodeLockChan ip) (i_lock i) s) (\<lambda>(lk, s).
                bindR (itrunc ip (upd_inode ip (\<lambda>x. x\<lparr>i_lock := lk\<rparr>) s)) (\<lambda>s.
                bindR (iupdate ip (upd_inode ip (\<lambda>x. x\<lparr>i_type := 0\<rparr>) s)) (\<lambda>s.
                let s = upd_inode ip (\<lambda>x. x\<lparr>i_valid := 0\<rparr>) s
                in bindR (releasesleep (InodeLockChan ip) (i_lock (inodes s ip)) s) (\<lambda>(lk, s).
                     Ok (upd_inode ip (\<lambda>x. x\<lparr>i_lock := lk\<rparr>) s)))))
           else Ok s) (\<lambda>s.
         Ok (upd_inode ip (\<lambda>x. x\<lparr>i_ref := i_ref x - 1\<rparr>) s)))"

definition iunlockput :: "nat \<Rightarrow> 'a fsys_scheme \<Rightarrow> 'a fsys_scheme result" where
  "iunlockput ip s = bindR (iunlock ip s) (iput ip)"

subsection \<open>Contents of inodes\<close>

definition bmap :: "nat \<Rightarrow> nat \<Rightarrow> 'a fsys_scheme \<Rightarrow> (uint \<times> 'a fsys_scheme) result" where
  "bmap ip bn s =
     (let dev = i_dev (inodes s ip)
      in if bn < NDIRECT
         then let addr = i_addrs (inodes s ip) ! bn
              in if addr = 0
                 then bindR (balloc dev s) (\<lambda>(addr, s).
                        Ok (addr, upd_inode ip (\<lambda>x. x\<lparr>i_addrs := (i_addrs x)[bn := addr]\<rparr>) s))
                 else Ok (addr, s)
         else let bn = bn - NDIRECT
              in if bn < NINDIRECT
                 then bindR (let addr = i_addrs (inodes s ip) ! NDIRECT
                             in if addr = 0
                                then bindR (balloc dev s) (\<lambda>(addr, s).
                                       Ok (addr, upd_inode ip (\<lambda>x. x\<lparr>i_addrs := (i_addrs x)[NDIRECT := addr]\<rparr>) s))
                                else Ok (addr, s)) (\<lambda>(addr, s).
                      bindR (bread dev addr s) (\<lambda>(bp, s).
                        let addr = word_at bn (b_data (bufs s bp))
                        in bindR (if addr = 0
                             then bindR (balloc dev s) (\<lambda>(addr, s).
                                  bindR (log_write bp (set_data bp (put_word bn addr (b_data (bufs s bp))) s)) (\<lambda>s. Ok (addr, s)))
                             else Ok (addr, s)) (\<lambda>(addr, s).
                           bindR (brelse bp s) (\<lambda>s. Ok (addr, s)))))
                 else Panic ''bmap: out of range'')"

definition stati :: "nat \<Rightarrow> 'a fsys_scheme \<Rightarrow> stat" where
  "stati ip s = (let i = inodes s ip
     in \<lparr>st_dev = i_dev i, st_ino = i_inum i, st_type = i_type i, st_nlink = i_nlink i, st_size = ucast (i_size i)\<rparr>)"

text \<open>
  The memory that \<^verbatim>\<open>readi\<close> copies to and \<^verbatim>\<open>writei\<close> copies from: user memory or kernel memory at an address,
  or a variable on the kernel stack.
\<close>

datatype place = At bool uint64 | Local "uchar list"

definition copy_to :: "place \<Rightarrow> nat \<Rightarrow> uchar list \<Rightarrow> 'a kernel_scheme \<Rightarrow> (int \<times> place \<times> 'a kernel_scheme) result" where
  "copy_to pl tot bs s =
     (case pl of
        At user a \<Rightarrow> bindR (either_copyout user (a + of_nat tot) bs s) (\<lambda>(r, s). Ok (r, pl, s))
      | Local v \<Rightarrow> Ok (0, Local (v @ bs), s))"

definition copy_from :: "place \<Rightarrow> nat \<Rightarrow> nat \<Rightarrow> 'a kernel_scheme \<Rightarrow> (int \<times> uchar list) result" where
  "copy_from pl tot m s =
     (case pl of
        At user a \<Rightarrow> either_copyin user (a + of_nat tot) m s
      | Local v \<Rightarrow> Ok (0, take m (drop tot v)))"

lemma block_rest: "0 < n \<Longrightarrow> 0 < min n (BSIZE - off mod BSIZE)"
  by (simp add: BSIZE_def)

function readi_loop :: "nat \<Rightarrow> place \<Rightarrow> nat \<Rightarrow> nat \<Rightarrow> nat \<Rightarrow> 'a fsys_scheme \<Rightarrow> (int \<times> place \<times> 'a fsys_scheme) result" where
  "readi_loop ip pl off tot left s =
     (if left = 0 then Ok (int tot, pl, s)
      else let m = min left (BSIZE - off mod BSIZE)
           in bindR (bmap ip (off div BSIZE) s) (\<lambda>(addr, s).
              bindR (bread (i_dev (inodes s ip)) addr s) (\<lambda>(bp, s).
              bindR (copy_to pl tot (take m (drop (off mod BSIZE) (b_data (bufs s bp)))) s) (\<lambda>(r, pl, s).
                if r = -1 then bindR (brelse bp s) (\<lambda>s. Ok (-1, pl, s))
                else bindR (brelse bp s) (readi_loop ip pl (off + m) (tot + m) (left - m))))))"
  by pat_completeness auto
termination
  by (relation "measure (\<lambda>(ip, pl, off, tot, left, s). left)") (use block_rest in auto)

declare readi_loop.simps [simp del]

definition readi :: "nat \<Rightarrow> place \<Rightarrow> uint \<Rightarrow> uint \<Rightarrow> 'a fsys_scheme \<Rightarrow> (int \<times> place \<times> 'a fsys_scheme) result" where
  "readi ip pl off n s =
     (let size = i_size (inodes s ip)
      in if off > size \<or> off + n < off then Ok (0, pl, s)
         else readi_loop ip pl (unat off) 0 (unat (if off + n > size then size - off else n)) s)"

text \<open>\<^verbatim>\<open>either_copyin\<close> stores into the buffer directly; when it fails, what it has copied so far stays there.\<close>

function writei_loop :: "nat \<Rightarrow> place \<Rightarrow> nat \<Rightarrow> nat \<Rightarrow> nat \<Rightarrow> 'a fsys_scheme \<Rightarrow> (nat \<times> nat \<times> 'a fsys_scheme) result" where
  "writei_loop ip pl off tot left s =
     (if left = 0 then Ok (tot, off, s)
      else let m = min left (BSIZE - off mod BSIZE)
           in bindR (bmap ip (off div BSIZE) s) (\<lambda>(addr, s).
              bindR (bread (i_dev (inodes s ip)) addr s) (\<lambda>(bp, s).
              bindR (copy_from pl tot m s) (\<lambda>(r, bs).
                let data = b_data (bufs s bp);
                    s = set_data bp (take (off mod BSIZE) data @ bs @ drop (off mod BSIZE + length bs) data) s
                in if r = -1 then bindR (brelse bp s) (\<lambda>s. Ok (tot, off, s))
                   else bindR (log_write bp s) (\<lambda>s.
                        bindR (brelse bp s) (writei_loop ip pl (off + m) (tot + m) (left - m)))))))"
  by pat_completeness auto
termination
  by (relation "measure (\<lambda>(ip, pl, off, tot, left, s). left)") (use block_rest in auto)

declare writei_loop.simps [simp del]

definition writei :: "nat \<Rightarrow> place \<Rightarrow> uint \<Rightarrow> uint \<Rightarrow> 'a fsys_scheme \<Rightarrow> (int \<times> 'a fsys_scheme) result" where
  "writei ip pl off n s =
     (if off > i_size (inodes s ip) \<or> off + n < off then Ok (-1, s)
      else if unat (off + n) > MAXFILE * BSIZE then Ok (-1, s)
      else bindR (writei_loop ip pl (unat off) 0 (unat n) s) (\<lambda>(tot, off', s).
        let s = (if off' > unat (i_size (inodes s ip)) then upd_inode ip (\<lambda>x. x\<lparr>i_size := of_nat off'\<rparr>) s else s)
        in bindR (iupdate ip s) (\<lambda>s. Ok (int tot, s))))"

subsection \<open>A file system for the examples\<close>

text \<open>The file system of \<open>log_example\<close> with inodes from block 32 on, the free map at block 45 and 1000 blocks.\<close>

definition fs_example :: fsys where
  "fs_example = fslog.extend log_example
     \<lparr>sb = \<lparr>sb_magic = FSMAGIC, sb_size = 1000, sb_nblocks = 954, sb_ninodes = 200, sb_nlog = 30, sb_logstart = 256,
            sb_inodestart = 32, sb_bmapstart = 45\<rparr>,
      inodes = (\<lambda>_. \<lparr>i_dev = 1, i_inum = 1, i_ref = 0, i_lock = initsleeplock [], i_valid = 0, i_type = 0, i_major = 0,
            i_minor = 0, i_nlink = 0, i_size = 0, i_addrs = replicate 13 0\<rparr>)\<rparr>"

lemma fs_example_running: "running 2 0 fs_example"
  using log_example_ok(1) running_cong [of fs_example log_example 2 0]
  by (simp add: fs_example_def fslog.defs cache_ok_def)

end
