(* ===== verification/Dir.thy ===== *)
theory Dir
  imports Inode
begin

text \<open>
  Directories and path names, the upper half of \<^verbatim>\<open>kernel/fs.c\<close>. A path is the list of its bytes before the
  terminating NUL, so that the end of the list is where the code finds the NUL; a name is what the code
  has stored in \<^verbatim>\<open>name[DIRSIZ]\<close>, with its NUL when there is room for one.
\<close>

subsection \<open>Directory entries (kernel/fs.h)\<close>

record dirent =
  de_inum :: ushort
  de_name :: "uchar list"

definition DIRENT_SIZE :: nat where "DIRENT_SIZE = 16"

definition bytes_dirent :: "uchar list \<Rightarrow> dirent" where
  "bytes_dirent bs = \<lparr>de_inum = le_word (take 2 bs), de_name = drop 2 bs\<rparr>"

definition dirent_bytes :: "dirent \<Rightarrow> uchar list" where
  "dirent_bytes de = le_bytes 2 (de_inum de) @ de_name de"

fun local_bytes :: "place \<Rightarrow> uchar list" where
  "local_bytes (Local v) = v"
| "local_bytes (At u a) = []"

definition namecmp :: "uchar list \<Rightarrow> uchar list \<Rightarrow> int result" where
  "namecmp s t = strncmp s t DIRSIZ"

text \<open>The offsets that the loops over a directory of a given size visit.\<close>

definition dir_offs :: "uint \<Rightarrow> nat list" where
  "dir_offs sz = map (\<lambda>k. DIRENT_SIZE * k) [0..<(unat sz + DIRENT_SIZE - 1) div DIRENT_SIZE]"

fun dirlookup_loop :: "nat \<Rightarrow> uchar list \<Rightarrow> nat list \<Rightarrow> 'a fsys_scheme \<Rightarrow> ((nat \<times> nat) option \<times> 'a fsys_scheme) result" where
  "dirlookup_loop dp name [] s = Ok (None, s)"
| "dirlookup_loop dp name (off # offs) s =
     bindR (readi dp (Local []) (of_nat off) (of_nat DIRENT_SIZE) s) (\<lambda>(r, pl, s).
       if r \<noteq> int DIRENT_SIZE then Panic ''dirlookup read''
       else let de = bytes_dirent (local_bytes pl)
            in if de_inum de = 0 then dirlookup_loop dp name offs s
               else bindR (namecmp name (de_name de)) (\<lambda>c.
                 if c = 0 then bindR (iget (i_dev (inodes s dp)) (ucast (de_inum de)) s) (\<lambda>(ip, s). Ok (Some (ip, off), s))
                 else dirlookup_loop dp name offs s))"

definition dirlookup :: "nat \<Rightarrow> uchar list \<Rightarrow> 'a fsys_scheme \<Rightarrow> ((nat \<times> nat) option \<times> 'a fsys_scheme) result" where
  "dirlookup dp name s =
     (if i_type (inodes s dp) \<noteq> T_DIR then Panic ''dirlookup not DIR''
      else dirlookup_loop dp name (dir_offs (i_size (inodes s dp))) s)"

fun dirlink_loop :: "nat \<Rightarrow> nat list \<Rightarrow> nat \<Rightarrow> 'a fsys_scheme \<Rightarrow> (nat \<times> 'a fsys_scheme) result" where
  "dirlink_loop dp [] lst s = Ok (lst, s)"
| "dirlink_loop dp (off # offs) lst s =
     bindR (readi dp (Local []) (of_nat off) (of_nat DIRENT_SIZE) s) (\<lambda>(r, pl, s).
       if r \<noteq> int DIRENT_SIZE then Panic ''dirlink read''
       else if de_inum (bytes_dirent (local_bytes pl)) = 0 then Ok (off, s)
       else dirlink_loop dp offs lst s)"

definition dirlink :: "nat \<Rightarrow> uchar list \<Rightarrow> uint \<Rightarrow> 'a fsys_scheme \<Rightarrow> (int \<times> 'a fsys_scheme) result" where
  "dirlink dp name inum s =
     bindR (dirlookup dp name s) (\<lambda>(r, s).
       case r of
         Some (ip, off) \<Rightarrow> bindR (iput ip s) (\<lambda>s. Ok (-1, s))
       | None \<Rightarrow>
           let offs = dir_offs (i_size (inodes s dp))
           in bindR (dirlink_loop dp offs (DIRENT_SIZE * length offs) s) (\<lambda>(off, s).
              bindR (strncpy name DIRSIZ) (\<lambda>nm.
              bindR (writei dp (Local (dirent_bytes \<lparr>de_inum = ucast inum, de_name = nm\<rparr>)) (of_nat off) (of_nat DIRENT_SIZE) s) (\<lambda>(r, s).
                if r \<noteq> int DIRENT_SIZE then Panic ''dirlink'' else Ok (0, s)))))"

subsection \<open>Paths\<close>

definition slash :: uchar where "slash = 47"

definition skipelem :: "uchar list \<Rightarrow> (uchar list \<times> uchar list) option" where
  "skipelem path =
     (let path = dropWhile (\<lambda>c. c = slash) path
      in if path = [] then None
         else let s = takeWhile (\<lambda>c. c \<noteq> slash) path;
                  path = dropWhile (\<lambda>c. c \<noteq> slash) path;
                  name = (if length s \<ge> DIRSIZ then take DIRSIZ s else s @ [0])
              in Some (name, dropWhile (\<lambda>c. c = slash) path))"

lemma skipelem_shorter:
  assumes "skipelem path = Some (name, rest)"
  shows "length rest < length path"
proof -
  let ?p = "dropWhile (\<lambda>c. c = slash) path"
  have ne: "?p \<noteq> []" using assms by (cases "?p = []") (simp_all add: skipelem_def)
  have r: "rest = dropWhile (\<lambda>c. c = slash) (dropWhile (\<lambda>c. c \<noteq> slash) ?p)"
    using assms unfolding skipelem_def Let_def if_not_P [OF ne] by simp
  obtain c cs where c: "?p = c # cs" using ne by (cases ?p) auto
  then have "c \<noteq> slash" using hd_dropWhile [OF ne] by simp
  have "length rest \<le> length (dropWhile (\<lambda>c. c \<noteq> slash) ?p)" unfolding r by (rule length_dropWhile_le)
  also have "\<dots> \<le> length cs" using \<open>c \<noteq> slash\<close> by (simp add: c length_dropWhile_le)
  also have "\<dots> < length path" using length_dropWhile_le [of "\<lambda>c. c = slash" path] by (simp add: c)
  finally show ?thesis .
qed

function namex_loop :: "uchar list \<Rightarrow> bool \<Rightarrow> uchar list \<Rightarrow> nat \<Rightarrow> 'a fsys_scheme \<Rightarrow> (nat option \<times> uchar list \<times> 'a fsys_scheme) result" where
  "namex_loop path nameiparent name ip s =
     (case skipelem path of
        None \<Rightarrow> if nameiparent then bindR (iput ip s) (\<lambda>s. Ok (None, name, s)) else Ok (Some ip, name, s)
      | Some (name, path) \<Rightarrow>
          bindR (ilock ip s) (\<lambda>s.
            if i_type (inodes s ip) \<noteq> T_DIR then bindR (iunlockput ip s) (\<lambda>s. Ok (None, name, s))
            else if nameiparent \<and> path = [] then bindR (iunlock ip s) (\<lambda>s. Ok (Some ip, name, s))
            else bindR (dirlookup ip name s) (\<lambda>(r, s).
              case r of
                None \<Rightarrow> bindR (iunlockput ip s) (\<lambda>s. Ok (None, name, s))
              | Some (next, _) \<Rightarrow> bindR (iunlockput ip s) (namex_loop path nameiparent name next))))"
  by pat_completeness auto
termination
  by (relation "measure (\<lambda>(path, np, name, ip, s). length path)") (auto dest: skipelem_shorter)

declare namex_loop.simps [simp del]

definition namex :: "uchar list \<Rightarrow> bool \<Rightarrow> 'a fsys_scheme \<Rightarrow> (nat option \<times> uchar list \<times> 'a fsys_scheme) result" where
  "namex path nameiparent s =
     bindR (if path \<noteq> [] \<and> hd path = slash then iget (of_nat ROOTDEV) ROOTINO s
            else with_proc (\<lambda>p s. case cwd (procs s p) of None \<Rightarrow> Undef ''no cwd'' | Some ip \<Rightarrow> Ok (ip, idup ip s)) s) (\<lambda>(ip, s).
       namex_loop path nameiparent [] ip s)"

definition namei :: "uchar list \<Rightarrow> 'a fsys_scheme \<Rightarrow> (nat option \<times> 'a fsys_scheme) result" where
  "namei path s = bindR (namex path False s) (\<lambda>(r, _, s). Ok (r, s))"

definition nameiparent :: "uchar list \<Rightarrow> 'a fsys_scheme \<Rightarrow> (nat option \<times> uchar list \<times> 'a fsys_scheme) result" where
  "nameiparent path s = namex path True s"

subsection \<open>The elements of a path\<close>

text \<open>
  The reference: a path is split at its slashes, empty pieces are dropped, and every piece is stored
  into \<^verbatim>\<open>name[DIRSIZ]\<close>, with a NUL when it is shorter.
\<close>

fun split_slash :: "uchar list \<Rightarrow> uchar list list" where
  "split_slash [] = [[]]"
| "split_slash (c # cs) = (if c = slash then [] # split_slash cs else (c # hd (split_slash cs)) # tl (split_slash cs))"

definition stored_name :: "uchar list \<Rightarrow> uchar list" where
  "stored_name e = (if length e \<ge> DIRSIZ then take DIRSIZ e else e @ [0])"

definition path_elements :: "uchar list \<Rightarrow> uchar list list" where
  "path_elements path = map stored_name (filter (\<lambda>e. e \<noteq> []) (split_slash path))"

text \<open>The names that the loop of \<^verbatim>\<open>namex\<close> goes through.\<close>

function path_names :: "uchar list \<Rightarrow> uchar list list" where
  "path_names path = (case skipelem path of None \<Rightarrow> [] | Some (name, rest) \<Rightarrow> name # path_names rest)"
  by pat_completeness auto
termination
  by (relation "measure length") (auto dest: skipelem_shorter)

declare path_names.simps [simp del]

lemma elements_slash [simp]: "path_elements (slash # cs) = path_elements cs"
  by (simp add: path_elements_def)

lemma elements_drop: "path_elements (dropWhile (\<lambda>c. c = slash) cs) = path_elements cs"
  by (induction cs) auto

lemma split_not_Nil: "split_slash cs \<noteq> []"
  by (cases cs) auto

lemma split_piece:
  assumes "slash \<notin> set e"
  shows "split_slash (e @ slash # cs) = e # split_slash cs" and "split_slash e = [e]"
  using assms by (induction e) auto

lemma elements_piece:
  assumes "cs \<noteq> []" and "hd cs \<noteq> slash"
  shows "path_elements cs = stored_name (takeWhile (\<lambda>c. c \<noteq> slash) cs)
     # path_elements (dropWhile (\<lambda>c. c = slash) (dropWhile (\<lambda>c. c \<noteq> slash) cs))"
proof -
  define e where "e = takeWhile (\<lambda>c. c \<noteq> slash) cs"
  define r where "r = dropWhile (\<lambda>c. c \<noteq> slash) cs"
  have e: "slash \<notin> set e" by (auto simp: e_def dest: set_takeWhileD)
  have ne: "e \<noteq> []" using assms by (cases cs) (auto simp: e_def)
  have cs: "cs = e @ r" by (simp add: e_def r_def)
  have "path_elements (e @ r) = stored_name e # path_elements (dropWhile (\<lambda>c. c = slash) r)"
  proof (cases r)
    case Nil
    then show ?thesis using split_piece(2) [OF e] ne by (simp add: path_elements_def)
  next
    case (Cons c rs)
    then have "c = slash" using hd_dropWhile [of "\<lambda>c. c \<noteq> slash" cs] by (auto simp: r_def)
    then show ?thesis using split_piece(1) [OF e, of rs] ne Cons elements_drop [of rs] by (simp add: path_elements_def)
  qed
  then show ?thesis unfolding cs [symmetric] e_def [symmetric] r_def [symmetric] .
qed

text \<open>
  C34. Walking a path: the names that \<^verbatim>\<open>skipelem\<close> hands to \<^verbatim>\<open>namex\<close> one after the other are the pieces of the
  path between slashes, in order; repeated, leading and trailing slashes do not matter, and each name
  is cut at 14 bytes.
\<close>

theorem skipelem_walks_path: "path_names path = path_elements path"
proof (induction path rule: path_names.induct)
  case (1 path)
  let ?p = "dropWhile (\<lambda>c. c = slash) path"
  show ?case
  proof (cases "?p = []")
    case True
    then have "path_elements path = []" using elements_drop [of path] unfolding True by (simp add: path_elements_def)
    moreover have "skipelem path = None" unfolding skipelem_def Let_def if_P [OF True] ..
    ultimately show ?thesis by (simp add: path_names.simps [of path])
  next
    case False
    let ?n = "stored_name (takeWhile (\<lambda>c. c \<noteq> slash) ?p)" and ?r = "dropWhile (\<lambda>c. c = slash) (dropWhile (\<lambda>c. c \<noteq> slash) ?p)"
    have s: "skipelem path = Some (?n, ?r)"
      unfolding skipelem_def Let_def if_not_P [OF False] stored_name_def ..
    have "path_elements path = ?n # path_elements ?r"
      using elements_piece [OF False] hd_dropWhile [OF False] elements_drop [of path] by simp
    then show ?thesis using 1 [OF s refl] by (simp add: path_names.simps [of path] s)
  qed
qed

end
