(* ===== verification/Txn.thy ===== *)
theory Txn
  imports Inode
begin

text \<open>
  What the operations of \<^verbatim>\<open>kernel/fs.c\<close> do within a transaction. Every one of them reads blocks through the
  cache, changes some, and hands the changed ones to the log. \<open>in_tx\<close> describes a thread inside a
  transaction that holds the blocks \<open>H\<close> and may still log \<open>k\<close> blocks; the lemma \<open>tx_block\<close> is the contract of
  one step of reading a block and either releasing it or changing, logging and releasing it. On top of
  it are the free map and the inodes on disk.
\<close>

subsection \<open>One block within a transaction\<close>

definition in_tx :: "uint \<Rightarrow> nat \<Rightarrow> nat \<Rightarrow> uint set \<Rightarrow> nat \<Rightarrow> 'a fslog_scheme \<Rightarrow> bool" where
  "in_tx dev p i H k s \<longleftrightarrow> cache_ok dev p i H (set (tx_blocks (klog s))) s \<and> finite H \<and> distinct (tx_blocks (klog s))
     \<and> 0 \<le> lh_n (klog s) \<and> 1 \<le> outstanding (klog s) \<and> card (H \<union> set (tx_blocks (klog s))) + k < LOGSIZE
     \<and> int (card (H \<union> set (tx_blocks (klog s))) + k) < l_size (klog s) - 1"

text \<open>
  What a step leaves alone: everything but the cache, the log and the states of sleeping threads. The
  disk does not change before the commit.
\<close>

definition tx_frame :: "'a fslog_scheme \<Rightarrow> 'a fslog_scheme \<Rightarrow> bool" where
  "tx_frame s t \<longleftrightarrow> t = s\<lparr>procs := procs t, bufs := bufs t, klog := klog t\<rparr>
     \<and> (\<forall>q. stateless (procs t q) = stateless (procs s q))"

lemma tx_frame_refl [simp]: "tx_frame s s"
  by (simp add: tx_frame_def)

lemma tx_frame_trans [trans]:
  assumes "tx_frame s t" and "tx_frame t u"
  shows "tx_frame s u"
proof -
  let ?put = "\<lambda>s. s\<lparr>procs := procs u, bufs := bufs u, klog := klog u\<rparr>"
  have "u = ?put t" using assms(2) unfolding tx_frame_def by blast
  also have "?put t = ?put (s\<lparr>procs := procs t, bufs := bufs t, klog := klog t\<rparr>)"
    by (rule arg_cong [of _ _ ?put]) (use assms(1) in \<open>unfold tx_frame_def, blast\<close>)
  also have "\<dots> = ?put s" by simp
  finally have e: "u = ?put s" .
  have "stateless (procs u q) = stateless (procs s q)" for q using assms unfolding tx_frame_def by (blast intro: trans)
  with e show ?thesis unfolding tx_frame_def by blast
qed

lemma tx_frame_calm:
  assumes "calm s t" and "disk t = disk s" and "dtrace t = dtrace s"
  shows "tx_frame s t" and "klog t = klog s"
proof -
  have e: "t = s\<lparr>procs := procs t, bufs := bufs t, disk := disk t, dtrace := dtrace t\<rparr>"
    and st: "\<forall>q. stateless (procs t q) = stateless (procs s q)" using assms(1) unfolding calm_def by blast+
  have e': "t = s\<lparr>procs := procs t, bufs := bufs t\<rparr>" by (rule trans [OF e]) (simp add: assms(2,3))
  show k: "klog t = klog s" using arg_cong [OF e', of klog] by simp
  have "s\<lparr>procs := procs t, bufs := bufs t\<rparr> = s\<lparr>procs := procs t, bufs := bufs t, klog := klog t\<rparr>" by (simp add: k)
  from trans [OF e' this] st show "tx_frame s t" unfolding tx_frame_def by blast
qed

lemma tx_frame_fields:
  assumes "tx_frame s t"
  shows "disk t = disk s" and "dtrace t = dtrace s" and "mem t = mem s" and "fslog.more t = fslog.more s"
proof -
  have e: "t = s\<lparr>procs := procs t, bufs := bufs t, klog := klog t\<rparr>" using assms unfolding tx_frame_def by blast
  show "disk t = disk s" "dtrace t = dtrace s" "mem t = mem s" "fslog.more t = fslog.more s"
    using arg_cong [OF e, of disk] arg_cong [OF e, of dtrace] arg_cong [OF e, of mem] arg_cong [OF e, of fslog.more] by simp_all
qed

lemma tx_frame_fsys:
  fixes s t :: "'a fsys_scheme"
  assumes "tx_frame s t"
  shows "sb t = sb s" and "inodes t = inodes s"
proof -
  have e: "t = s\<lparr>procs := procs t, bufs := bufs t, klog := klog t\<rparr>" using assms unfolding tx_frame_def by blast
  show "sb t = sb s" "inodes t = inodes s" using arg_cong [OF e, of sb] arg_cong [OF e, of inodes] by simp_all
qed

text \<open>A step also leaves the blocks that the thread holds in their buffers.\<close>

definition tx_step :: "uint \<Rightarrow> uint set \<Rightarrow> 'a fslog_scheme \<Rightarrow> 'a fslog_scheme \<Rightarrow> bool" where
  "tx_step dev H s t \<longleftrightarrow> tx_frame s t \<and> (\<forall>m \<in> H. buf_at dev m (bufs t) = buf_at dev m (bufs s))"

lemma tx_step_frame: "tx_step dev H s t \<Longrightarrow> tx_frame s t"
  by (simp add: tx_step_def)

lemma tx_step_trans [trans]: "tx_step dev H s t \<Longrightarrow> tx_step dev H t u \<Longrightarrow> tx_step dev H s u"
  unfolding tx_step_def using tx_frame_trans by auto

lemma in_tx_length:
  assumes "in_tx dev p i H k s"
  shows "length (bview dev s n) = BSIZE"
  using assms length_contents unfolding in_tx_def cache_ok_def bview_def by blast

lemma in_tx_mono: "in_tx dev p i H k s \<Longrightarrow> j \<le> k \<Longrightarrow> in_tx dev p i H j s"
  by (auto simp: in_tx_def)

lemma card_insert_tx:
  assumes "in_tx dev p i H k s"
  shows "card (insert n (H \<union> set (tx_blocks (klog s)))) \<le> Suc (card (H \<union> set (tx_blocks (klog s))))"
    and "card (insert n (H \<union> set (tx_blocks (klog s)))) \<le> NBUF"
proof -
  show le: "card (insert n (H \<union> set (tx_blocks (klog s)))) \<le> Suc (card (H \<union> set (tx_blocks (klog s))))" by (rule card_insert_le_m1) simp_all
  have "card (H \<union> set (tx_blocks (klog s))) < NBUF" using assms by (simp add: in_tx_def NBUF_def LOGSIZE_def)
  with le show "card (insert n (H \<union> set (tx_blocks (klog s)))) \<le> NBUF" by linarith
qed

text \<open>The number of blocks in the log.\<close>

lemma in_tx_lh_n:
  assumes "in_tx dev p i H k s"
  shows "lh_n (klog s) = int (card (set (tx_blocks (klog s))))" and "card (set (tx_blocks (klog s))) \<le> card (H \<union> set (tx_blocks (klog s)))"
proof -
  have "card (set (tx_blocks (klog s))) = length (tx_blocks (klog s))" using assms by (simp add: in_tx_def distinct_card)
  then show "lh_n (klog s) = int (card (set (tx_blocks (klog s))))" using assms by (simp add: in_tx_def tx_blocks_def)
  show "card (set (tx_blocks (klog s))) \<le> card (H \<union> set (tx_blocks (klog s)))" using assms by (intro card_mono) (auto simp: in_tx_def)
qed

lemma tx_bread:
  fixes s :: "'a fslog_scheme"
  assumes tx: "in_tx dev p i H (Suc k) s" and n: "n \<notin> H"
  shows "\<exists>b t. bread dev n s = Ok (b, t) \<and> in_tx dev p i (insert n H) k t \<and> buf_at dev n (bufs t) = Some b
    \<and> b_data (bufs t b) = bview dev s n \<and> bview dev t = bview dev s \<and> klog t = klog s \<and> tx_frame s t
    \<and> (n \<in> set (tx_blocks (klog t)) \<or> bview dev t n = disk t n) \<and> (\<forall>m \<in> H. buf_at dev m (bufs t) = buf_at dev m (bufs s))"
proof -
  let ?P = "set (tx_blocks (klog s))"
  have ok: "cache_ok dev p i H ?P s" and fin: "finite (H \<union> ?P)" using tx by (simp_all add: in_tx_def)
  from bread_ok [OF ok n card_insert_tx(2) [OF tx] fin] obtain b t where
    t: "bread dev n s = Ok (b, t)" "cache_ok dev p i (insert n H) ?P t" "buf_at dev n (bufs t) = Some b"
       "b_data (bufs t b) = bview dev s n" "bview dev t = bview dev s" "disk t = disk s" "dtrace t = dtrace s" "calm s t"
       "\<forall>m \<in> H. buf_at dev m (bufs t) = buf_at dev m (bufs s)" by blast
  note ft = tx_frame_calm [OF t(8,6,7)]
  have "n \<in> ?P \<or> bview dev s n = disk s n"
    using contents_clean [of dev "t_id (thr p i s)" H ?P "bufs s" "disk s" n] ok n unfolding cache_ok_def bview_def by blast
  then have "n \<in> set (tx_blocks (klog t)) \<or> bview dev t n = disk t n" using t(5,6) ft(2) by simp
  moreover have "in_tx dev p i (insert n H) k t"
    using tx t(2) card_insert_tx(1) [OF tx, of n] by (auto simp: in_tx_def ft(2))
  ultimately show ?thesis using t(1,3-5,9) ft by blast
qed

lemma tx_modify:
  fixes s :: "'a fslog_scheme"
  assumes tx: "in_tx dev p i H k s" and n: "n \<in> H" and b: "buf_at dev n (bufs s) = Some b" and d: "length d = BSIZE"
  shows "in_tx dev p i H k (set_data b d s)" and "bview dev (set_data b d s) = (bview dev s)(n := d)"
    and "buf_at dev m (bufs (set_data b d s)) = buf_at dev m (bufs s)" and "tx_frame s (set_data b d s)"
    and "klog (set_data b d s) = klog s" and "b_data (bufs (set_data b d s) b) = d"
proof -
  have ok: "cache_ok dev p i H (set (tx_blocks (klog s))) s" using tx by (simp add: in_tx_def)
  note m = modify_ok [OF ok n b d, folded set_data_def]
  show k: "klog (set_data b d s) = klog s" by (simp add: set_data_def upd_buf_def)
  show "in_tx dev p i H k (set_data b d s)" using tx m(1) by (simp add: in_tx_def k)
  show "bview dev (set_data b d s) = (bview dev s)(n := d)" "buf_at dev m (bufs (set_data b d s)) = buf_at dev m (bufs s)"
    using m(2,3) by simp_all
  show "tx_frame s (set_data b d s)" "b_data (bufs (set_data b d s) b) = d" by (simp_all add: tx_frame_def set_data_def upd_buf_def)
qed

lemma tx_log:
  fixes s :: "'a fslog_scheme"
  assumes tx: "in_tx dev p i H k s" and n: "n \<in> H" and b: "buf_at dev n (bufs s) = Some b"
  shows "\<exists>t. log_write b s = Ok t \<and> in_tx dev p i H k t \<and> bview dev t = bview dev s \<and> tx_frame s t
    \<and> (\<forall>m. buf_at dev m (bufs t) = buf_at dev m (bufs s))
    \<and> set (tx_blocks (klog t)) = insert n (set (tx_blocks (klog s)))"
proof -
  let ?P = "set (tx_blocks (klog s))"
  have ok: "cache_ok dev p i H ?P s" and l: "0 \<le> lh_n (klog s)" "1 \<le> outstanding (klog s)" "finite H" "distinct (tx_blocks (klog s))"
    and lim: "card (H \<union> ?P) + k < LOGSIZE" "int (card (H \<union> ?P) + k) < l_size (klog s) - 1"
    using tx by (simp_all add: in_tx_def)
  have room: "lh_n (klog s) < int LOGSIZE" "lh_n (klog s) < l_size (klog s) - 1" using in_tx_lh_n [OF tx] lim by linarith+
  from log_write_ok [OF ok n b l(1) room l(2)] obtain t where
    t: "log_write b s = Ok t" "cache_ok dev p i H (set (tx_blocks (klog t))) t" "bview dev t = bview dev s"
       "\<forall>m. buf_at dev m (bufs t) = buf_at dev m (bufs s)"
       "tx_blocks (klog t) = (if n \<in> ?P then tx_blocks (klog s) else tx_blocks (klog s) @ [n])"
       "lh_n (klog t) = (if n \<in> ?P then lh_n (klog s) else lh_n (klog s) + 1)"
       "t = s\<lparr>bufs := bufs t, klog := (klog s)\<lparr>lh_n := lh_n (klog t), lh_block := lh_block (klog t)\<rparr>\<rparr>"
    by blast
  have kt: "klog t = (klog s)\<lparr>lh_n := lh_n (klog t), lh_block := lh_block (klog t)\<rparr>" using arg_cong [OF t(7), of klog] by simp
  have outs: "outstanding (klog t) = outstanding (klog s)" "l_size (klog t) = l_size (klog s)"
    using arg_cong [OF kt, of outstanding] arg_cong [OF kt, of l_size] by simp_all
  have set: "set (tx_blocks (klog t)) = insert n ?P" using t(5) by auto
  have un: "H \<union> set (tx_blocks (klog t)) = H \<union> ?P" using n by (auto simp: set)
  have "distinct (tx_blocks (klog t))" "0 \<le> lh_n (klog t)" using t(5,6) l(1,4) by simp_all
  then have "in_tx dev p i H k t" unfolding in_tx_def un outs using t(2) l(2,3) lim by blast
  moreover have "tx_frame s t"
  proof -
    have pt: "procs t = procs s" using arg_cong [OF t(7), of procs] by simp
    have "t = s\<lparr>bufs := bufs t, klog := klog t\<rparr>" by (rule trans [OF t(7)]) (simp only: kt [symmetric])
    also have "\<dots> = s\<lparr>procs := procs t, bufs := bufs t, klog := klog t\<rparr>" by (simp add: pt)
    finally show ?thesis using pt unfolding tx_frame_def by metis
  qed
  ultimately show ?thesis using t(1,3,4) set by blast
qed

lemma tx_brelse:
  fixes s :: "'a fslog_scheme"
  assumes tx: "in_tx dev p i (insert n H) k s" and n: "n \<notin> H" and b: "buf_at dev n (bufs s) = Some b"
    and clean: "n \<in> set (tx_blocks (klog s)) \<or> bview dev s n = disk s n"
  shows "\<exists>t. brelse b s = Ok t \<and> in_tx dev p i H k t \<and> (n \<notin> set (tx_blocks (klog s)) \<longrightarrow> in_tx dev p i H (Suc k) t)
    \<and> bview dev t = bview dev s \<and> klog t = klog s \<and> tx_frame s t \<and> (\<forall>m. buf_at dev m (bufs t) = buf_at dev m (bufs s))"
proof -
  let ?P = "set (tx_blocks (klog s))"
  have ok: "cache_ok dev p i (insert n H) ?P s" using tx by (simp add: in_tx_def)
  from brelse_ok [OF ok n b clean] obtain t where
    t: "brelse b s = Ok t" "cache_ok dev p i H ?P t" "bview dev t = bview dev s" "disk t = disk s" "dtrace t = dtrace s" "calm s t"
       "\<forall>m. buf_at dev m (bufs t) = buf_at dev m (bufs s)" by blast
  note ft = tx_frame_calm [OF t(6,4,5)]
  have fin: "finite (H \<union> ?P)" using tx by (simp add: in_tx_def)
  then have le: "card (H \<union> ?P) \<le> card (insert n H \<union> ?P)" by (intro card_mono) auto
  then have "in_tx dev p i H k t" using tx t(2) by (auto simp: in_tx_def ft(2))
  moreover have "in_tx dev p i H (Suc k) t" if "n \<notin> ?P"
  proof -
    have "card (insert n H \<union> ?P) = Suc (card (H \<union> ?P))" using fin n that by simp
    then show ?thesis using tx t(2) by (auto simp: in_tx_def ft(2))
  qed
  ultimately show ?thesis using t(1,3,7) ft by blast
qed

text \<open>The usual step: read a block and release it, or change, log and release it.\<close>

lemma tx_block:
  fixes s :: "'a fslog_scheme"
  assumes tx: "in_tx dev p i H (Suc k) s" and n: "n \<notin> H"
  shows "\<exists>b t. bread dev n s = Ok (b, t) \<and> b_data (bufs t b) = bview dev s n \<and> tx_frame s t
    \<and> (\<exists>u. brelse b t = Ok u \<and> in_tx dev p i H (Suc k) u \<and> bview dev u = bview dev s \<and> tx_step dev H s u)
    \<and> (\<forall>d. length d = BSIZE \<longrightarrow> (\<exists>u v. log_write b (set_data b d t) = Ok u \<and> brelse b u = Ok v \<and> in_tx dev p i H k v
         \<and> bview dev v = (bview dev s)(n := d) \<and> tx_step dev H s v))"
proof -
  from tx_bread [OF tx n] obtain b t where
    t: "bread dev n s = Ok (b, t)" "in_tx dev p i (insert n H) k t" "buf_at dev n (bufs t) = Some b" "b_data (bufs t b) = bview dev s n"
       "bview dev t = bview dev s" "klog t = klog s" "tx_frame s t" "n \<in> set (tx_blocks (klog t)) \<or> bview dev t n = disk t n"
       "\<forall>m \<in> H. buf_at dev m (bufs t) = buf_at dev m (bufs s)" by blast
  from tx_brelse [OF t(2) n t(3,8)] obtain u where
    u: "brelse b t = Ok u" "in_tx dev p i H k u" "n \<notin> set (tx_blocks (klog t)) \<longrightarrow> in_tx dev p i H (Suc k) u"
       "bview dev u = bview dev t" "klog u = klog t" "tx_frame t u" "\<forall>m. buf_at dev m (bufs u) = buf_at dev m (bufs t)" by blast
  have "in_tx dev p i H (Suc k) u" using u(2) tx by (simp add: in_tx_def u(5) t(6))
  then have read: "\<exists>u. brelse b t = Ok u \<and> in_tx dev p i H (Suc k) u \<and> bview dev u = bview dev s \<and> tx_step dev H s u"
    using u(1,4,7) t(5,9) tx_frame_trans [OF t(7) u(6)] by (auto simp: tx_step_def)
  have wr: "\<exists>u v. log_write b (set_data b d t) = Ok u \<and> brelse b u = Ok v \<and> in_tx dev p i H k v
         \<and> bview dev v = (bview dev s)(n := d) \<and> tx_step dev H s v" if d: "length d = BSIZE" for d
  proof -
    note m = tx_modify [OF t(2) insertI1 t(3) d]
    have "buf_at dev n (bufs (set_data b d t)) = Some b" using m(3) t(3) by simp
    from tx_log [OF m(1) insertI1 this] obtain w where
      w: "log_write b (set_data b d t) = Ok w" "in_tx dev p i (insert n H) k w" "bview dev w = bview dev (set_data b d t)"
         "tx_frame (set_data b d t) w" "\<forall>m. buf_at dev m (bufs w) = buf_at dev m (bufs (set_data b d t))"
         "set (tx_blocks (klog w)) = insert n (set (tx_blocks (klog (set_data b d t))))" by blast
    have "buf_at dev n (bufs w) = Some b" using w(5) m(3) t(3) by simp
    moreover have "n \<in> set (tx_blocks (klog w))" using w(6) by simp
    ultimately obtain v where v: "brelse b w = Ok v" "in_tx dev p i H k v" "bview dev v = bview dev w" "tx_frame w v"
         "\<forall>m. buf_at dev m (bufs v) = buf_at dev m (bufs w)"
      using tx_brelse [OF w(2) n] by blast
    have "tx_step dev H s v" using t(7,9) m(3,4) w(4,5) v(4,5) tx_frame_trans unfolding tx_step_def by metis
    then show ?thesis using w(1,3) v(1-3) m(2) t(5) by auto
  qed
  show ?thesis using t(1,4,7) read wr by blast
qed

subsection \<open>The free map\<close>

text \<open>Block \<open>b\<close> is marked in use in the free map that the contents \<open>v\<close> of the blocks hold.\<close>

definition block_used :: "superblock \<Rightarrow> (uint \<Rightarrow> uchar list) \<Rightarrow> nat \<Rightarrow> bool" where
  "block_used x v b = bit (v (BBLOCK (of_nat b) x) ! (b mod BPB div 8)) (b mod 8)"

lemma and_bit_mask: "w AND bit_mask k = 0 \<longleftrightarrow> \<not> bit w (k mod 8)" for w :: uchar
  by (simp add: bit_mask_def bit_iff_and_push_bit_not_eq_0)

lemma bit_bit_mask: "bit (bit_mask k) j \<longleftrightarrow> j = k mod 8"
  by (auto simp: bit_mask_def bit_simps)

lemma mod_BPB: "b mod BPB mod 8 = b mod 8"
  by (simp add: BPB_def BSIZE_def mod_mod_cancel)

lemma unat_of_nat_div: "b < 2 ^ 32 \<Longrightarrow> unat (of_nat (b div m) :: uint) = b div m"
  by (subst unat_of_nat) (simp add: le_less_trans [OF div_le_dividend])

lemma BBLOCK_of_nat:
  assumes "b < 2 ^ 32"
  shows "BBLOCK (of_nat b) x = of_nat (b div BPB) + sb_bmapstart x"
proof -
  have "unat ((of_nat b :: uint) div of_nat BPB) = b div BPB"
    using assms by (simp add: unat_div unat_of_nat BPB_def BSIZE_def)
  moreover have "unat (of_nat (b div BPB) :: uint) = b div BPB"
    by (rule unat_of_nat_div [OF assms])
  ultimately have "(of_nat b :: uint) div of_nat BPB = of_nat (b div BPB)" by (simp add: word_unat_eq_iff)
  then show ?thesis by (simp add: BBLOCK_def)
qed

lemma BBLOCK_eq_iff:
  assumes "b < 2 ^ 32" and "c < 2 ^ 32"
  shows "BBLOCK (of_nat b) x = BBLOCK (of_nat c) x \<longleftrightarrow> b div BPB = c div BPB"
proof -
  have "unat (of_nat (b div BPB) :: uint) = b div BPB" "unat (of_nat (c div BPB) :: uint) = c div BPB"
    using assms by (simp_all only: unat_of_nat_div)
  then show ?thesis unfolding BBLOCK_of_nat [OF assms(1)] BBLOCK_of_nat [OF assms(2)] by (metis add_right_cancel)
qed

text \<open>Setting or clearing the bit of a block changes the entry of that block only.\<close>

definition set_used :: "bool \<Rightarrow> nat \<Rightarrow> uchar list \<Rightarrow> uchar list" where
  "set_used u bi data = data[bi div 8 := (if u then data ! (bi div 8) OR bit_mask bi else data ! (bi div 8) AND NOT (bit_mask bi))]"

lemma length_set_used [simp]: "length (set_used u bi data) = length data"
  by (simp add: set_used_def)

lemma block_used_set:
  assumes "b < 2 ^ 32" and "c < 2 ^ 32" and "length (v (BBLOCK (of_nat b) x)) = BSIZE"
  shows "block_used x (v(BBLOCK (of_nat b) x := set_used u (b mod BPB) (v (BBLOCK (of_nat b) x)))) c = (if c = b then u else block_used x v c)"
proof (cases "b div BPB = c div BPB")
  case False
  then show ?thesis using BBLOCK_eq_iff [OF assms(1,2), of x] by (auto simp: block_used_def)
next
  case True
  let ?d = "v (BBLOCK (of_nat b) x)"
  have e: "BBLOCK (of_nat c) x = BBLOCK (of_nat b) x" using BBLOCK_eq_iff [OF assms(1,2), of x] True by simp
  have bl: "b mod BPB div 8 < length ?d" using assms(3) by (simp add: BPB_def BSIZE_def div_less_iff_less_mult)
  have c8: "c mod 8 < 8" by simp
  show ?thesis
  proof (cases "c mod BPB div 8 = b mod BPB div 8")
    case False
    then have "c \<noteq> b" by auto
    then show ?thesis using False by (simp add: block_used_def e set_used_def)
  next
    case same: True
    have "c = b \<longleftrightarrow> c mod 8 = b mod 8"
    proof
      assume "c mod 8 = b mod 8"
      then have "c mod BPB mod 8 = b mod BPB mod 8" by (simp add: mod_BPB)
      with same have "c mod BPB = b mod BPB" by (metis div_mult_mod_eq)
      with True show "c = b" by (metis div_mult_mod_eq)
    qed simp
    then show ?thesis using same bl c8
      by (auto simp: block_used_def e set_used_def bit_simps bit_bit_mask mod_BPB)
  qed
qed

lemma bzero_ok:
  fixes s :: "'a fsys_scheme"
  assumes tx: "in_tx dev p i H (Suc k) s" and n: "n \<notin> H"
  shows "\<exists>v. bzero dev n s = Ok v \<and> in_tx dev p i H k v \<and> bview dev v = (bview dev s)(n := replicate BSIZE 0) \<and> tx_step dev H s v"
proof -
  have "length (replicate BSIZE (0 :: uchar)) = BSIZE" by simp
  with tx_block [OF tx n] obtain b t u v where "bread dev n s = Ok (b, t)" "log_write b (set_data b (replicate BSIZE 0) t) = Ok u"
    "brelse b u = Ok v" "in_tx dev p i H k v" "bview dev v = (bview dev s)(n := replicate BSIZE 0)" "tx_step dev H s v" by blast
  then show ?thesis by (simp add: bzero_def)
qed

text \<open>
  The free map marks its own blocks in use, so that \<^verbatim>\<open>balloc\<close> never hands one of them out and clears it.
\<close>

definition map_reserved :: "superblock \<Rightarrow> (uint \<Rightarrow> uchar list) \<Rightarrow> bool" where
  "map_reserved x v \<longleftrightarrow> (\<forall>b<unat (sb_size x). \<forall>c<unat (sb_size x). BBLOCK (of_nat b) x = of_nat c \<longrightarrow> block_used x v c)"

lemma block_used_cong:
  "v (BBLOCK (of_nat c) x) = w (BBLOCK (of_nat c) x) \<Longrightarrow> block_used x v c = block_used x w c"
  by (simp add: block_used_def)

lemma fs_size_bound: "b < unat (sb_size x) \<Longrightarrow> b < 2 ^ 32"
  using unsigned_less [of "sb_size x", where ?'a = nat] by simp

lemma map_bit:
  assumes "m * BPB + bi < 2 ^ 32" and "bi < BPB"
  shows "BBLOCK (of_nat (m * BPB)) x = BBLOCK (of_nat (m * BPB + bi)) x"
    and "v (BBLOCK (of_nat (m * BPB)) x) ! (bi div 8) AND bit_mask bi = 0 \<longleftrightarrow> \<not> block_used x v (m * BPB + bi)"
proof -
  have p: "0 < BPB" by (simp add: BPB_def BSIZE_def)
  show e: "BBLOCK (of_nat (m * BPB)) x = BBLOCK (of_nat (m * BPB + bi)) x"
    using assms p by (subst BBLOCK_eq_iff) simp_all
  have "(m * BPB + bi) mod 8 = bi mod 8" using mod_BPB [of "m * BPB + bi"] assms(2) by simp
  then show "v (BBLOCK (of_nat (m * BPB)) x) ! (bi div 8) AND bit_mask bi = 0 \<longleftrightarrow> \<not> block_used x v (m * BPB + bi)"
    using assms(2) unfolding and_bit_mask block_used_def e by simp
qed

lemma scan_map:
  assumes b: "b < unat (sb_size x)" "\<not> block_used x v b" "\<forall>c<b. block_used x v c"
  shows "BBLOCK (of_nat (b div BPB * BPB)) x = BBLOCK (of_nat b) x"
    and "scan (min BPB (unat (sb_size x) - b div BPB * BPB)) (\<lambda>bi. v (BBLOCK (of_nat (b div BPB * BPB)) x) ! (bi div 8) AND bit_mask bi = 0)
      = Some (b mod BPB)"
proof -
  let ?m = "b div BPB" and ?bi = "b mod BPB"
  have e: "?m * BPB + ?bi = b" by simp
  have bl: "?bi < BPB" by (simp add: BPB_def BSIZE_def)
  have lt: "c \<le> ?bi \<Longrightarrow> ?m * BPB + c < 2 ^ 32" for c using fs_size_bound [OF b(1)] e by linarith
  show "BBLOCK (of_nat (?m * BPB)) x = BBLOCK (of_nat b) x" using map_bit(1) [OF lt [OF order_refl] bl, of x] by (simp only: e)
  have "c < ?bi \<Longrightarrow> block_used x v (?m * BPB + c)" for c using b(3) e by (metis add_less_cancel_left)
  then have lo: "\<forall>c<?bi. \<not> (v (BBLOCK (of_nat (?m * BPB)) x) ! (c div 8) AND bit_mask c = 0)"
    using map_bit(2) [OF lt [OF less_imp_le]] bl by (meson less_trans)
  have hi: "v (BBLOCK (of_nat (?m * BPB)) x) ! (?bi div 8) AND bit_mask ?bi = 0"
    using map_bit(2) [OF lt [OF order_refl] bl, of v x, unfolded e] b(2) by blast
  have "?bi < unat (sb_size x) - ?m * BPB" using b(1) e by linarith
  then show "scan (min BPB (unat (sb_size x) - ?m * BPB)) (\<lambda>bi. v (BBLOCK (of_nat (?m * BPB)) x) ! (bi div 8) AND bit_mask bi = 0) = Some ?bi"
    unfolding scan_Some_iff using lo hi bl by simp
qed

lemma balloc_loop_ok:
  fixes s :: "'a fsys_scheme"
  assumes tx: "in_tx dev p i H (Suc (Suc k)) s" and x: "sb s = x"
    and H: "\<forall>c<unat (sb_size x). BBLOCK (of_nat c) x \<notin> H \<and> (\<not> block_used x (bview dev s) c \<longrightarrow> of_nat c \<notin> H)"
    and b: "b < unat (sb_size x)" "\<not> block_used x (bview dev s) b" "\<forall>c<b. block_used x (bview dev s) c"
    and ks: "m \<le> b div BPB" "b div BPB < n"
  shows "\<exists>v. balloc_loop dev [m..<n] s = Ok (of_nat b, v) \<and> in_tx dev p i H k v \<and> tx_step dev H s v
    \<and> bview dev v = ((bview dev s)(BBLOCK (of_nat b) x := set_used True (b mod BPB) (bview dev s (BBLOCK (of_nat b) x))))
        (of_nat b := replicate BSIZE 0)"
  using ks(1) tx x H b(2,3)
proof (induction "b div BPB - m" arbitrary: m s)
  case (0 m s)
  note h = 0
  let ?B = "BBLOCK (of_nat b) x" and ?bi = "b mod BPB" and ?v = "bview dev s"
  have m: "m = b div BPB" using h(1,2) by simp
  have bm: "m * BPB + ?bi = b" by (simp add: m)
  note scan = scan_map [OF b(1) h(6,7), folded m]
  have H: "?B \<notin> H" "of_nat b \<notin> H" using h(5,6) b(1) by auto
  have "length (set_used True ?bi (?v ?B)) = BSIZE" using in_tx_length [OF h(3)] by simp
  with tx_block [OF h(3) H(1)] obtain bp t u w where
    t: "bread dev ?B s = Ok (bp, t)" "b_data (bufs t bp) = ?v ?B" "tx_frame s t"
       "log_write bp (set_data bp (set_used True ?bi (?v ?B)) t) = Ok u" "brelse bp u = Ok w" "in_tx dev p i H (Suc k) w"
       "bview dev w = ?v(?B := set_used True ?bi (?v ?B))" "tx_step dev H s w" by blast
  from bzero_ok [OF t(6) H(2)] obtain v where
    v: "bzero dev (of_nat b) w = Ok v" "in_tx dev p i H k v" "bview dev v = (bview dev w)(of_nat b := replicate BSIZE 0)" "tx_step dev H w v"
    by blast
  have "[m..<n] = m # [Suc m..<n]" using ks(2) m by (simp add: upt_conv_Cons)
  moreover have "sb t = x" using tx_frame_fsys(1) [OF t(3)] h(4) by simp
  ultimately have "balloc_loop dev [m..<n] s = Ok (of_nat b, v)"
    using t(1,2,4,5) v(1) scan(2) h(4) bm by (simp add: Let_def set_used_def scan(1) del: of_nat_mult of_nat_add)
  then show ?case using v(2) v(3) [unfolded t(7)] tx_step_trans [OF t(8) v(4)] by blast
next
  case (Suc d m s)
  let ?B = "BBLOCK (of_nat (m * BPB)) x" and ?v = "bview dev s"
  have p: "0 < BPB" by (simp add: BPB_def BSIZE_def)
  have md: "m < b div BPB" using Suc.hyps(2) by simp
  then have mb: "Suc m * BPB \<le> b" using p by (metis Suc_leI less_eq_div_iff_mult_less_eq)
  have ub: "block_used x ?v (m * BPB + bi)" "m * BPB + bi < 2 ^ 32" if "bi < BPB" for bi
    using that mb Suc.prems(6) fs_size_bound [OF b(1)] by auto
  have scan: "scan (min BPB (unat (sb_size x) - m * BPB)) (\<lambda>bi. ?v ?B ! (bi div 8) AND bit_mask bi = 0) = None"
    unfolding scan_None_iff using map_bit(2) [OF ub(2)] ub(1) by (simp del: of_nat_mult)
  have "m * BPB < unat (sb_size x)" using mb b(1) p by simp
  then have "?B \<notin> H" using Suc.prems(4) by blast
  from tx_block [OF Suc.prems(2) this] obtain bp t u where
    t: "bread dev ?B s = Ok (bp, t)" "b_data (bufs t bp) = ?v ?B" "tx_frame s t" "brelse bp t = Ok u"
       "in_tx dev p i H (Suc (Suc k)) u" "bview dev u = ?v" "tx_step dev H s u" by blast
  have "d = b div BPB - Suc m" "Suc m \<le> b div BPB" using Suc.hyps(2) md by simp_all
  from Suc.hyps(1) [OF this t(5)] obtain v where
    v: "balloc_loop dev [Suc m..<n] u = Ok (of_nat b, v)" "in_tx dev p i H k v" "tx_step dev H u v"
       "bview dev v = (?v(BBLOCK (of_nat b) x := set_used True (b mod BPB) (?v (BBLOCK (of_nat b) x))))(of_nat b := replicate BSIZE 0)"
    using Suc.prems(3-6) tx_frame_fsys(1) [OF tx_step_frame [OF t(7)]] unfolding t(6) by blast
  have "[m..<n] = m # [Suc m..<n]" using ks(2) md by (simp add: upt_conv_Cons)
  moreover have "sb t = x" using tx_frame_fsys(1) [OF t(3)] Suc.prems(3) by simp
  ultimately have "balloc_loop dev [m..<n] s = Ok (of_nat b, v)"
    using t(1,2,4) v(1) scan Suc.prems(3) by (simp add: Let_def del: of_nat_mult of_nat_add)
  then show ?case using v(2,4) tx_step_trans [OF t(7) v(3)] by blast
qed

lemma balloc_loop_full:
  fixes s :: "'a fsys_scheme"
  assumes "in_tx dev p i H (Suc k) s" and "\<forall>c<unat (sb_size (sb s)). BBLOCK (of_nat c) (sb s) \<notin> H \<and> block_used (sb s) (bview dev s) c"
    and "\<forall>m\<in>set ks. m * BPB < unat (sb_size (sb s))"
  shows "balloc_loop dev ks s = Panic ''balloc: out of blocks''"
  using assms
proof (induction ks arbitrary: s)
  case (Cons m ks s)
  let ?x = "sb s" and ?v = "bview dev s" and ?B = "BBLOCK (of_nat (m * BPB)) (sb s)"
  have m: "m * BPB < unat (sb_size ?x)" using Cons.prems(3) by simp
  then have "?B \<notin> H" using Cons.prems(2) by blast
  from tx_block [OF Cons.prems(1) this] obtain bp t u where
    t: "bread dev ?B s = Ok (bp, t)" "b_data (bufs t bp) = ?v ?B" "tx_frame s t" "brelse bp t = Ok u"
       "in_tx dev p i H (Suc k) u" "bview dev u = ?v" "tx_step dev H s u" by blast
  have "?v ?B ! (bi div 8) AND bit_mask bi \<noteq> 0" if "bi < BPB" "bi < unat (sb_size ?x) - m * BPB" for bi
  proof -
    have "m * BPB + bi < unat (sb_size ?x)" using that(2) by simp
    then show ?thesis using map_bit(2) [OF fs_size_bound that(1)] Cons.prems(2) by blast
  qed
  then have "scan (min BPB (unat (sb_size ?x) - m * BPB)) (\<lambda>bi. ?v ?B ! (bi div 8) AND bit_mask bi = 0) = None"
    unfolding scan_None_iff by simp
  moreover have "balloc_loop dev ks u = Panic ''balloc: out of blocks''"
    using Cons.IH [OF t(5)] Cons.prems(2,3) t(6) tx_frame_fsys(1) [OF tx_step_frame [OF t(7)]] by simp
  ultimately show ?case using t(1,2,4) tx_frame_fsys(1) [OF t(3)] by (simp add: Let_def del: of_nat_mult)
qed simp

lemma balloc_ok:
  fixes s :: "'a fsys_scheme"
  assumes tx: "in_tx dev p i H (Suc (Suc k)) s"
    and H: "\<forall>c<unat (sb_size (sb s)). BBLOCK (of_nat c) (sb s) \<notin> H \<and> (\<not> block_used (sb s) (bview dev s) c \<longrightarrow> of_nat c \<notin> H)"
    and free: "b < unat (sb_size (sb s))" "\<not> block_used (sb s) (bview dev s) b" "\<forall>c<b. block_used (sb s) (bview dev s) c"
  shows "\<exists>t. balloc dev s = Ok (of_nat b, t) \<and> in_tx dev p i H k t \<and> tx_step dev H s t
    \<and> bview dev t = ((bview dev s)(BBLOCK (of_nat b) (sb s) := set_used True (b mod BPB) (bview dev s (BBLOCK (of_nat b) (sb s)))))
        (of_nat b := replicate BSIZE 0)"
proof -
  have pos: "0 < BPB" by (simp add: BPB_def BSIZE_def)
  have "b div BPB * BPB \<le> b" by simp
  then have "Suc (b div BPB) * BPB \<le> unat (sb_size (sb s)) + BPB - 1" using free(1) unfolding mult_Suc by linarith
  then have "b div BPB < (unat (sb_size (sb s)) + BPB - 1) div BPB" using pos by (simp only: less_eq_div_iff_mult_less_eq flip: Suc_le_eq)
  then show ?thesis using balloc_loop_ok [OF tx refl H free le0, of "(unat (sb_size (sb s)) + BPB - 1) div BPB"]
    unfolding balloc_def by blast
qed

lemma least_free:
  assumes "\<exists>b<n. \<not> block_used x v b"
  obtains b where "b < n" and "\<not> block_used x v b" and "\<forall>c<b. block_used x v c"
proof -
  from assms exists_least_iff [of "\<lambda>b. \<not> block_used x v b"] obtain a b where
    ab: "a < n" "\<not> block_used x v a" "\<not> block_used x v b" "\<forall>c<b. block_used x v c" by blast
  then have "b \<le> a" by (meson not_less)
  with ab show ?thesis by (intro that [of b]) simp_all
qed

text \<open>What allocating block \<open>b\<close> does to the contents of the blocks.\<close>

lemma allocated_view:
  assumes x: "map_reserved x v" and b: "b < unat (sb_size x)" "\<not> block_used x v b" and l: "length (v (BBLOCK (of_nat b) x)) = BSIZE"
    and w: "w = (v(BBLOCK (of_nat b) x := set_used True (b mod BPB) (v (BBLOCK (of_nat b) x))))(of_nat b := replicate BSIZE 0)"
  shows "\<forall>c<unat (sb_size x). block_used x w c = (c = b \<or> block_used x v c)" and "w (of_nat b) = replicate BSIZE 0"
    and "\<forall>n. n \<noteq> of_nat b \<and> n \<noteq> BBLOCK (of_nat b) x \<longrightarrow> w n = v n"
    and "length (w (BBLOCK (of_nat b) x)) = BSIZE"
proof -
  have ne: "BBLOCK (of_nat c) x \<noteq> of_nat b" if "c < unat (sb_size x)" for c
    using x b that unfolding map_reserved_def by blast
  show "\<forall>c<unat (sb_size x). block_used x w c = (c = b \<or> block_used x v c)"
  proof (intro allI impI)
    fix c
    assume c: "c < unat (sb_size x)"
    have "block_used x w c = block_used x (v(BBLOCK (of_nat b) x := set_used True (b mod BPB) (v (BBLOCK (of_nat b) x)))) c"
      unfolding w by (rule block_used_cong) (simp add: ne [OF c])
    then show "block_used x w c = (c = b \<or> block_used x v c)"
      using block_used_set [OF fs_size_bound [OF b(1)] fs_size_bound [OF c], of v x True] l by simp
  qed
  show "w (of_nat b) = replicate BSIZE 0" "\<forall>n. n \<noteq> of_nat b \<and> n \<noteq> BBLOCK (of_nat b) x \<longrightarrow> w n = v n"
    "length (w (BBLOCK (of_nat b) x)) = BSIZE" using l by (simp_all add: w)
qed

text \<open>The example file system: block \<open>n\<close> is filled with the byte \<open>n\<close>, so the free map in block 45 marks blocks 0, 2, 3, 5 of every eight.\<close>

lemma fs_example_tx: "in_tx 1 2 0 {} 20 fs_example" and fs_example_view: "bview 1 fs_example n = replicate BSIZE (ucast n)"
  and fs_example_klog: "klog fs_example = klog log_example"
  and fs_example_sb: "sb_size (sb fs_example) = 1000" "sb_bmapstart (sb fs_example) = 45" "sb_inodestart (sb fs_example) = 32"
proof -
  show k: "klog fs_example = klog log_example" by (simp add: fs_example_def fslog.defs)
  have b: "bufs fs_example = bufs log_example" "disk fs_example = disk log_example" "thr q j fs_example = thr q j log_example" for q j
    by (simp_all add: fs_example_def fslog.defs thr_def)
  show "bview 1 fs_example n = replicate BSIZE (ucast n)" using log_example_ok(2) by (simp add: bview_def b fun_eq_iff)
  have "cache_ok 1 2 0 {} {} fs_example"
    using log_example_ok(1) fs_example_running by (simp add: cache_ok_def b)
  then show "in_tx 1 2 0 {} 20 fs_example"
    unfolding in_tx_def k log_example_ok(4) by (simp add: tx_blocks_def LOGSIZE_def MAXOPBLOCKS_def)
  show "sb_size (sb fs_example) = 1000" "sb_bmapstart (sb fs_example) = 45" "sb_inodestart (sb fs_example) = 32"
    by (simp_all add: fs_example_def fslog.defs)
qed

lemma fs_example_used: "block_used (sb fs_example) (bview 1 fs_example) b \<longleftrightarrow> bit (45 :: uchar) (b mod 8)" if "b < 1000"
proof -
  have "b div BPB = 0" "b mod BPB div 8 < BSIZE" using that by (simp_all add: BPB_def BSIZE_def)
  then have "BBLOCK (of_nat b) (sb fs_example) = 45" using BBLOCK_of_nat [of b "sb fs_example"] that by (simp add: fs_example_sb)
  then show ?thesis using \<open>b mod BPB div 8 < BSIZE\<close> by (simp add: block_used_def fs_example_view)
qed

lemma fs_example_reserved: "map_reserved (sb fs_example) (bview 1 fs_example)"
proof -
  have "block_used (sb fs_example) (bview 1 fs_example) c" if "b < 1000" "c < 1000" "BBLOCK (of_nat b) (sb fs_example) = of_nat c" for b c
  proof -
    have "(45 :: uint) = of_nat c" using BBLOCK_of_nat [of b "sb fs_example"] that(1,3) by (simp add: fs_example_sb BPB_def BSIZE_def)
    then have "c = 45" using that(2) unat_of_nat [of c, where ?'a = 32] by simp
    then show ?thesis using fs_example_used [of 45] by simp
  qed
  then show ?thesis unfolding map_reserved_def by (simp add: fs_example_sb)
qed

text \<open>
  C6. Allocating a disk block, inside a transaction with room for two more blocks and with a free map
  that marks its own blocks in use. If some block is free, \<^verbatim>\<open>balloc\<close> returns the lowest free one: it was free
  and is now in use, no other entry of the map has changed, the block reads as zeros, and every block other
  than it and its map block is as before; nothing reaches the disk before the commit. If all
  blocks are in use it panics.
\<close>

theorem balloc_allocates:
  fixes s :: "'a fsys_scheme"
  assumes "in_tx dev p i {} (Suc (Suc k)) s" and "map_reserved (sb s) (bview dev s)"
  shows "if \<exists>b<unat (sb_size (sb s)). \<not> block_used (sb s) (bview dev s) b
    then \<exists>b t. balloc dev s = Ok (of_nat b, t) \<and> b < unat (sb_size (sb s)) \<and> \<not> block_used (sb s) (bview dev s) b
      \<and> (\<forall>c<b. block_used (sb s) (bview dev s) c)
      \<and> (\<forall>c<unat (sb_size (sb s)). block_used (sb s) (bview dev t) c = (c = b \<or> block_used (sb s) (bview dev s) c))
      \<and> bview dev t (of_nat b) = replicate BSIZE 0
      \<and> (\<forall>n. n \<noteq> of_nat b \<and> n \<noteq> BBLOCK (of_nat b) (sb s) \<longrightarrow> bview dev t n = bview dev s n)
      \<and> in_tx dev p i {} k t \<and> disk t = disk s \<and> sb t = sb s \<and> inodes t = inodes s
    else balloc dev s = Panic ''balloc: out of blocks''"
proof (cases "\<exists>b<unat (sb_size (sb s)). \<not> block_used (sb s) (bview dev s) b")
  case True
  from least_free [OF True] obtain b where
    lt: "b < unat (sb_size (sb s))" and b: "\<not> block_used (sb s) (bview dev s) b" "\<forall>c<b. block_used (sb s) (bview dev s) c" .
  from balloc_ok [OF assms(1) _ lt b(1,2)] obtain t where
    t: "balloc dev s = Ok (of_nat b, t)" "in_tx dev p i {} k t" "tx_step dev {} s t"
       "bview dev t = ((bview dev s)(BBLOCK (of_nat b) (sb s) := set_used True (b mod BPB) (bview dev s (BBLOCK (of_nat b) (sb s)))))
          (of_nat b := replicate BSIZE 0)" by blast
  note v = allocated_view(1-3) [OF assms(2) lt b(1) in_tx_length [OF assms(1)] t(4)]
  show ?thesis unfolding if_P [OF True]
    by (rule exI [of _ b], rule exI [of _ t])
      (intro conjI t(1,2) lt b v tx_frame_fields(1) [OF tx_step_frame [OF t(3)]] tx_frame_fsys [OF tx_step_frame [OF t(3)]])
next
  case False
  have pos: "0 < BPB" by (simp add: BPB_def BSIZE_def)
  have "m * BPB < unat (sb_size (sb s))" if "m < (unat (sb_size (sb s)) + BPB - 1) div BPB" for m
  proof -
    have "Suc m * BPB \<le> unat (sb_size (sb s)) + BPB - 1" 
      using that pos by (simp only: less_eq_div_iff_mult_less_eq flip: Suc_le_eq)
    then show ?thesis using pos by simp
  qed
  then have "balloc dev s = Panic ''balloc: out of blocks''"
    unfolding balloc_def using False by (intro balloc_loop_full [OF assms(1)]) auto
  then show ?thesis unfolding if_not_P [OF False] .
qed

theorem balloc_allocates_witness:
  "\<exists>t. balloc 1 fs_example = Ok (1, t) \<and> bview 1 t 1 = replicate BSIZE 0 \<and> block_used (sb fs_example) (bview 1 t) 1
     \<and> \<not> block_used (sb fs_example) (bview 1 fs_example) 1"
proof -
  have free: "\<not> block_used (sb fs_example) (bview 1 fs_example) 1" "block_used (sb fs_example) (bview 1 fs_example) 0"
    using fs_example_used [of 1] fs_example_used [of 0] by (simp_all add: bit_numeral_rec)
  then have ex: "\<exists>b<unat (sb_size (sb fs_example)). \<not> block_used (sb fs_example) (bview 1 fs_example) b"
    by (intro exI [of _ 1]) (simp add: fs_example_sb)
  have tx: "in_tx 1 2 0 {} (Suc (Suc 0)) fs_example" using in_tx_mono [OF fs_example_tx] by simp
  from balloc_allocates [OF tx fs_example_reserved] ex obtain b t where
    t: "balloc 1 fs_example = Ok (of_nat b, t)" "b < 1000" "\<not> block_used (sb fs_example) (bview 1 fs_example) b"
       "\<forall>c<b. block_used (sb fs_example) (bview 1 fs_example) c"
       "\<forall>c<1000. block_used (sb fs_example) (bview 1 t) c = (c = b \<or> block_used (sb fs_example) (bview 1 fs_example) c)"
       "bview 1 t (of_nat b) = replicate BSIZE 0" by (auto simp: fs_example_sb)
  have "b = 1"
  proof (rule ccontr)
    assume "b \<noteq> 1"
    then consider "b = 0" | "1 < b" by linarith
    then show False using t(3,4) free by cases auto
  qed
  then show ?thesis using t free by auto
qed

lemma bfree_ok:
  fixes s :: "'a fsys_scheme"
  assumes tx: "in_tx dev p i H (Suc k) s" and H: "BBLOCK (of_nat b) (sb s) \<notin> H" and b: "b < unat (sb_size (sb s))"
  shows "if block_used (sb s) (bview dev s) b
    then \<exists>t. bfree dev (of_nat b) s = Ok t \<and> in_tx dev p i H k t \<and> tx_step dev H s t
      \<and> bview dev t = (bview dev s)(BBLOCK (of_nat b) (sb s) := set_used False (b mod BPB) (bview dev s (BBLOCK (of_nat b) (sb s))))
    else bfree dev (of_nat b) s = Panic ''freeing free block''"
proof -
  let ?B = "BBLOCK (of_nat b) (sb s)" and ?v = "bview dev s"
  have "length (set_used False (b mod BPB) (?v ?B)) = BSIZE" using in_tx_length [OF tx] by simp
  with tx_block [OF tx H] obtain bp t u v where
    t: "bread dev ?B s = Ok (bp, t)" "b_data (bufs t bp) = ?v ?B"
       "log_write bp (set_data bp (set_used False (b mod BPB) (?v ?B)) t) = Ok u" "brelse bp u = Ok v" "in_tx dev p i H k v"
       "bview dev v = ?v(?B := set_used False (b mod BPB) (?v ?B))" "tx_step dev H s v" by blast
  have u: "unat (of_nat b :: uint) = b" using fs_size_bound [OF b] by (simp add: unat_of_nat)
  have "?v ?B ! (b mod BPB div 8) AND bit_mask (b mod BPB) = 0 \<longleftrightarrow> \<not> block_used (sb s) ?v b"
    by (simp add: and_bit_mask block_used_def mod_BPB)
  then show ?thesis using t by (simp add: bfree_def u Let_def set_used_def)
qed

text \<open>
  C7. Freeing undoes allocating: when \<^verbatim>\<open>balloc\<close> has returned block \<open>b\<close>, \<^verbatim>\<open>bfree\<close> of \<open>b\<close> succeeds and the free map has
  the entries it had before the allocation, and freeing \<open>b\<close> a second time panics.
\<close>

theorem bfree_undoes_balloc:
  fixes s :: "'a fsys_scheme"
  assumes "in_tx dev p i {} (Suc (Suc (Suc (Suc k)))) s" and "map_reserved (sb s) (bview dev s)"
    and "\<exists>b<unat (sb_size (sb s)). \<not> block_used (sb s) (bview dev s) b"
  shows "\<exists>b t u. balloc dev s = Ok (b, t) \<and> bfree dev b t = Ok u
    \<and> (\<forall>c<unat (sb_size (sb s)). block_used (sb s) (bview dev u) c = block_used (sb s) (bview dev s) c)
    \<and> bfree dev b u = Panic ''freeing free block''"
proof -
  from least_free [OF assms(3)] obtain b where
    b: "b < unat (sb_size (sb s))" "\<not> block_used (sb s) (bview dev s) b" "\<forall>c<b. block_used (sb s) (bview dev s) c" .
  let ?B = "BBLOCK (of_nat b) (sb s)"
  from balloc_ok [OF assms(1) _ b] obtain t where
    t: "balloc dev s = Ok (of_nat b, t)" "in_tx dev p i {} (Suc (Suc k)) t" "tx_step dev {} s t"
       "bview dev t = ((bview dev s)(?B := set_used True (b mod BPB) (bview dev s ?B)))(of_nat b := replicate BSIZE 0)" by blast
  note v = allocated_view [OF assms(2) b(1,2) in_tx_length [OF assms(1)] t(4)]
  have sb: "sb t = sb s" by (rule tx_frame_fsys(1) [OF tx_step_frame [OF t(3)]])
  have "block_used (sb s) (bview dev t) b" using v(1) b(1) by blast
  with bfree_ok [OF t(2), of b] b(1) obtain u where
    u: "bfree dev (of_nat b) t = Ok u" "in_tx dev p i {} (Suc k) u" "tx_step dev {} t u"
       "bview dev u = (bview dev t)(?B := set_used False (b mod BPB) (bview dev t ?B))" unfolding sb by auto
  have sbu: "sb u = sb s" using tx_frame_fsys(1) [OF tx_step_frame [OF u(3)]] sb by simp
  have used: "block_used (sb s) (bview dev u) c = (if c = b then False else block_used (sb s) (bview dev t) c)" if "c < unat (sb_size (sb s))" for c
    unfolding u(4) by (rule block_used_set [of b c "bview dev t" "sb s", OF fs_size_bound [OF b(1)] fs_size_bound [OF that] v(4)])
  have "bfree dev (of_nat b) u = Panic ''freeing free block''"
    using bfree_ok [OF u(2), of b] b(1) used [OF b(1)] unfolding sbu by simp
  moreover have "\<forall>c<unat (sb_size (sb s)). block_used (sb s) (bview dev u) c = block_used (sb s) (bview dev s) c"
    using used v(1) b(2) by auto
  ultimately show ?thesis using t(1) u(1) by blast
qed

theorem bfree_undoes_balloc_witness:
  "\<exists>b t u. balloc 1 fs_example = Ok (b, t) \<and> bfree 1 b t = Ok u \<and> bfree 1 b u = Panic ''freeing free block''"
proof -
  have tx: "in_tx 1 2 0 {} (Suc (Suc (Suc (Suc 0)))) fs_example" using in_tx_mono [OF fs_example_tx] by simp
  have "\<not> block_used (sb fs_example) (bview 1 fs_example) 1" using fs_example_used [of 1] by (simp add: bit_numeral_rec)
  then have ex: "\<exists>b<unat (sb_size (sb fs_example)). \<not> block_used (sb fs_example) (bview 1 fs_example) b"
    by (intro exI [of _ 1]) (simp add: fs_example_sb)
  from bfree_undoes_balloc [OF tx fs_example_reserved ex] show ?thesis by blast
qed

end
