(* ===== verification/FileBlocks.thy ===== *)
theory FileBlocks
  imports Txn
begin

text \<open>
  The blocks of a file within a transaction. \<^verbatim>\<open>iupdate\<close> stores the inode on the disk and changes no other
  inode; \<open>blk\<close> gives the address of each block of a file, direct or indirect; \<open>file_wf\<close> says that these
  addresses are different and in use; and \<open>bmap_ok\<close> is the contract of \<^verbatim>\<open>bmap\<close>: it gives a missing block an
  address of its own, without changing the bytes of this file or of any other.
\<close>

subsection \<open>Inodes on the disk\<close>

definition wf_dinode :: "dinode \<Rightarrow> bool" where
  "wf_dinode d \<longleftrightarrow> length (di_addrs d) = NDIRECT + 1"

lemma length_concat_words: "length (concat (map (le_bytes 4) ws)) = 4 * length ws"
  by (induction ws) simp_all

lemma nth_concat_words: "i < length ws \<Longrightarrow> take 4 (drop (4 * i) (concat (map (le_bytes 4) ws))) = le_bytes 4 (ws ! i)"
proof (induction ws arbitrary: i)
  case (Cons w ws)
  then show ?case by (cases i) simp_all
qed simp

lemma length_dinode_bytes: "wf_dinode d \<Longrightarrow> length (dinode_bytes d) = DINODE_SIZE"
  by (simp add: dinode_bytes_def wf_dinode_def length_concat_words NDIRECT_def DINODE_SIZE_def)

lemma dinode_roundtrip:
  assumes "wf_dinode d"
  shows "bytes_dinode (dinode_bytes d) = d"
proof -
  let ?a = "concat (map (le_bytes 4) (di_addrs d))"
  have "drop (12 + 4 * i) (dinode_bytes d) = drop (4 * i) ?a" for i
    by (simp add: dinode_bytes_def)
  then have "map (\<lambda>i. le_word (take 4 (drop (12 + 4 * i) (dinode_bytes d)))) [0..<NDIRECT + 1] = di_addrs d"
    using assms by (intro nth_equalityI) (simp_all add: wf_dinode_def nth_concat_words le_word_le_bytes del: upt_Suc)
  then show ?thesis by (simp add: bytes_dinode_def) (simp add: dinode_bytes_def le_word_le_bytes)
qed

lemma length_put_dinode:
  assumes "wf_dinode d" and "i < IPB" and "length data = BSIZE"
  shows "length (put_dinode i d data) = BSIZE"
  using assms by (simp add: put_dinode_def length_dinode_bytes IPB_def DINODE_SIZE_def BSIZE_def)

lemma get_put_dinode:
  assumes "wf_dinode d" and "i < IPB" and "j < IPB" and "length data = BSIZE"
  shows "get_dinode j (put_dinode i d data) = (if j = i then d else get_dinode j data)"
proof -
  have len: "length (dinode_bytes d) = 64" "length data = 1024" "i < 16" "j < 16"
    using assms by (simp_all add: length_dinode_bytes IPB_def DINODE_SIZE_def BSIZE_def)
  consider "j = i" | "j < i" | "i < j" by linarith
  then show ?thesis
  proof cases
    case 1
    then show ?thesis using len dinode_roundtrip [OF assms(1)] by (simp add: get_dinode_def put_dinode_def DINODE_SIZE_def)
  next
    case 2
    then have "64 * j + 64 \<le> 64 * i" by simp
    then have "take 64 (drop (64 * j) (put_dinode i d data)) = take 64 (drop (64 * j) data)"
      using len by (simp add: put_dinode_def DINODE_SIZE_def take_drop min_def)
    with 2 show ?thesis by (simp add: get_dinode_def DINODE_SIZE_def)
  next
    case 3
    then have "64 * j = 64 * i + 64 + 64 * (j - Suc i)" by simp
    then have "drop (64 * j) (put_dinode i d data) = drop (64 * j) data"
      using len by (simp add: put_dinode_def DINODE_SIZE_def add.commute)
    with 3 show ?thesis by (simp add: get_dinode_def DINODE_SIZE_def)
  qed
qed

text \<open>The inode with number \<open>inum\<close> in the contents \<open>v\<close> of the blocks, and the part of an inode in memory that is stored.\<close>

definition disk_inode :: "superblock \<Rightarrow> (uint \<Rightarrow> uchar list) \<Rightarrow> uint \<Rightarrow> dinode" where
  "disk_inode x v inum = get_dinode (unat inum mod IPB) (v (IBLOCK inum x))"

definition stored :: "inode \<Rightarrow> dinode" where
  "stored i = \<lparr>di_type = i_type i, di_major = i_major i, di_minor = i_minor i, di_nlink = i_nlink i, di_size = i_size i, di_addrs = i_addrs i\<rparr>"

lemma IBLOCK_eq_iff: "IBLOCK a x = IBLOCK b x \<longleftrightarrow> unat a div IPB = unat b div IPB"
proof -
  have "unat (c div of_nat IPB :: uint) = unat c div IPB" for c :: uint by (simp add: unat_div IPB_def BSIZE_def DINODE_SIZE_def)
  then show ?thesis unfolding IBLOCK_def add_right_cancel by (metis word_unat_eq_iff)
qed

lemma inode_update_view:
  assumes "wf_dinode d" and "length (v (IBLOCK inum x)) = BSIZE"
    and w: "w = v(IBLOCK inum x := put_dinode (unat inum mod IPB) d (v (IBLOCK inum x)))"
  shows "disk_inode x w = (disk_inode x v)(inum := d)"
proof
  fix j
  have lt: "unat a mod IPB < IPB" for a :: uint by (simp add: IPB_def BSIZE_def DINODE_SIZE_def)
  have "j = inum \<longleftrightarrow> unat j div IPB = unat inum div IPB \<and> unat j mod IPB = unat inum mod IPB"
    by (metis div_mult_mod_eq word_unat_eq_iff)
  then show "disk_inode x w j = ((disk_inode x v)(inum := d)) j"
    using get_put_dinode [OF assms(1) lt lt assms(2), of j inum] IBLOCK_eq_iff [of j x inum] by (auto simp: disk_inode_def w)
qed

lemma iupdate_ok:
  fixes s :: "'a fsys_scheme"
  assumes tx: "in_tx dev p i H (Suc k) s" and H: "IBLOCK (i_inum (inodes s ip)) (sb s) \<notin> H"
    and d: "i_dev (inodes s ip) = dev" "length (i_addrs (inodes s ip)) = NDIRECT + 1"
  shows "\<exists>t. iupdate ip s = Ok t \<and> in_tx dev p i H k t \<and> tx_step dev H s t
    \<and> bview dev t = (bview dev s)(IBLOCK (i_inum (inodes s ip)) (sb s) :=
        put_dinode (unat (i_inum (inodes s ip)) mod IPB) (stored (inodes s ip)) (bview dev s (IBLOCK (i_inum (inodes s ip)) (sb s))))"
proof -
  let ?n = "i_inum (inodes s ip)"
  let ?B = "IBLOCK ?n (sb s)" and ?d = "put_dinode (unat ?n mod IPB) (stored (inodes s ip)) (bview dev s (IBLOCK ?n (sb s)))"
  have "wf_dinode (stored (inodes s ip))" using d by (simp add: wf_dinode_def stored_def)
  moreover have "unat ?n mod IPB < IPB" by (simp add: IPB_def BSIZE_def DINODE_SIZE_def)
  ultimately have "length ?d = BSIZE" using in_tx_length [OF tx] by (rule length_put_dinode)
  with tx_block [OF tx H] obtain b t u v where
    t: "bread dev ?B s = Ok (b, t)" "b_data (bufs t b) = bview dev s ?B" "log_write b (set_data b ?d t) = Ok u" "brelse b u = Ok v"
       "in_tx dev p i H k v" "bview dev v = (bview dev s)(?B := ?d)" "tx_step dev H s v" by blast
  have "iupdate ip s = Ok v" using t(1-4) d(1) by (simp add: iupdate_def stored_def Let_def)
  with t(5-7) show ?thesis by blast
qed

subsection \<open>The blocks of a file\<close>

text \<open>
  A file is given by the addresses \<open>a\<close> of its inode and the contents \<open>v\<close> of the blocks. Its data blocks
  are numbered from 0, and \<open>MAXFILE\<close> stands for the block of indirect addresses; address 0 means that a
  block is missing.
\<close>

definition blk :: "(uint \<Rightarrow> uchar list) \<Rightarrow> uint list \<Rightarrow> nat \<Rightarrow> uint" where
  "blk v a j = (if j < NDIRECT then a ! j
     else if j < MAXFILE then if a ! NDIRECT = 0 then 0 else word_at (j - NDIRECT) (v (a ! NDIRECT))
     else a ! NDIRECT)"

definition meta :: "superblock \<Rightarrow> uint \<Rightarrow> uint \<Rightarrow> bool" where
  "meta x inum n \<longleftrightarrow> n = IBLOCK inum x \<or> (\<exists>c<unat (sb_size x). n = BBLOCK (of_nat c) x)"

definition in_file :: "superblock \<Rightarrow> (uint \<Rightarrow> uchar list) \<Rightarrow> uint \<Rightarrow> uint \<Rightarrow> bool" where
  "in_file x v inum n \<longleftrightarrow> n \<noteq> 0 \<and> unat n < unat (sb_size x) \<and> block_used x v (unat n) \<and> \<not> meta x inum n"

text \<open>
  A well-formed file: its blocks are different from each other and from the blocks of the inode and of the
  free map, and all of these and block 0 are marked in use.
\<close>

definition file_wf :: "superblock \<Rightarrow> (uint \<Rightarrow> uchar list) \<Rightarrow> uint \<Rightarrow> uint list \<Rightarrow> bool" where
  "file_wf x v inum a \<longleftrightarrow> length a = NDIRECT + 1 \<and> (\<forall>n. length (v n) = BSIZE) \<and> 0 < unat (sb_size x) \<and> block_used x v 0
     \<and> (\<forall>c<unat (sb_size x). meta x inum (of_nat c) \<longrightarrow> block_used x v c)
     \<and> (\<forall>c<unat (sb_size x). BBLOCK (of_nat c) x \<noteq> IBLOCK inum x)
     \<and> (\<forall>j\<le>MAXFILE. blk v a j \<noteq> 0 \<longrightarrow> in_file x v inum (blk v a j))
     \<and> (\<forall>j\<le>MAXFILE. \<forall>k\<le>MAXFILE. blk v a j = blk v a k \<longrightarrow> blk v a j \<noteq> 0 \<longrightarrow> j = k)"

definition file_byte :: "(uint \<Rightarrow> uchar list) \<Rightarrow> uint list \<Rightarrow> nat \<Rightarrow> uchar" where
  "file_byte v a q = (if blk v a (q div BSIZE) = 0 then 0 else v (blk v a (q div BSIZE)) ! (q mod BSIZE))"

lemma NDIRECT_MAXFILE: "NDIRECT < MAXFILE" "MAXFILE - NDIRECT = NINDIRECT"
  by (simp_all add: MAXFILE_def NINDIRECT_def BSIZE_def)

lemma file_wfD:
  assumes "file_wf x v inum a"
  shows "length a = NDIRECT + 1" and "length (v n) = BSIZE" and "block_used x v 0"
    and "c < unat (sb_size x) \<Longrightarrow> meta x inum (of_nat c) \<Longrightarrow> block_used x v c"
    and "c < unat (sb_size x) \<Longrightarrow> BBLOCK (of_nat c) x \<noteq> IBLOCK inum x"
    and "j \<le> MAXFILE \<Longrightarrow> blk v a j \<noteq> 0 \<Longrightarrow> in_file x v inum (blk v a j)"
    and "j \<le> MAXFILE \<Longrightarrow> k \<le> MAXFILE \<Longrightarrow> blk v a j = blk v a k \<Longrightarrow> blk v a j \<noteq> 0 \<Longrightarrow> j = k"
    and "map_reserved x v"
  using assms unfolding file_wf_def map_reserved_def meta_def by metis+

lemma meta_BBLOCK: "c < unat (sb_size x) \<Longrightarrow> meta x inum (BBLOCK (of_nat c) x)"
  by (auto simp: meta_def)

text \<open>What does not touch the free map leaves its entries.\<close>

lemma block_used_keep:
  assumes "c < unat (sb_size x)" and "\<forall>n. meta x inum n \<and> n \<noteq> IBLOCK inum x \<longrightarrow> w n = v n" and "BBLOCK (of_nat c) x \<noteq> IBLOCK inum x"
  shows "block_used x w c = block_used x v c"
  using assms by (intro block_used_cong) (simp add: meta_BBLOCK)

lemma file_wf_update:
  assumes wf: "file_wf x v inum a" and len: "length a' = NDIRECT + 1" "\<forall>n. length (w n) = BSIZE"
    and map: "\<forall>c<unat (sb_size x). block_used x v c \<longrightarrow> block_used x w c"
    and blk: "\<forall>j\<le>MAXFILE. blk w a' j = (if j = k then n else blk v a j)"
    and n: "n \<noteq> 0 \<Longrightarrow> in_file x w inum n" "n \<noteq> 0 \<Longrightarrow> \<forall>j\<le>MAXFILE. j \<noteq> k \<longrightarrow> blk v a j \<noteq> n"
  shows "file_wf x w inum a'"
proof -
  note d = file_wfD [OF wf]
  have "in_file x w inum m" if "in_file x v inum m" for m using that map by (auto simp: in_file_def)
  then show ?thesis unfolding file_wf_def using wf len map blk n d(6,7)
    by (auto simp: file_wf_def)
qed

lemma file_wf_same:
  assumes wf: "file_wf x v inum a" and "\<forall>n. length (w n) = BSIZE"
    and "\<forall>c<unat (sb_size x). block_used x v c \<longrightarrow> block_used x w c" and blk: "\<forall>j\<le>MAXFILE. blk w a j = blk v a j"
  shows "file_wf x w inum a"
  by (rule file_wf_update [OF wf file_wfD(1) [OF wf] assms(2,3), of "Suc MAXFILE" 0]) (use blk in auto)

lemma blk_MAXFILE: "blk v a MAXFILE = a ! NDIRECT"
  using NDIRECT_MAXFILE by (simp add: blk_def)

lemma indirect_in_file: "file_wf x v inum a \<Longrightarrow> a ! NDIRECT = 0 \<or> in_file x v inum (a ! NDIRECT)"
  using file_wfD(6) [of x v inum a MAXFILE] by (auto simp: blk_MAXFILE)

text \<open>Allocating a block that is not yet part of the file.\<close>

lemma alloc_file:
  assumes wf: "file_wf x v inum a" and b: "b < unat (sb_size x)" "\<not> block_used x v b"
    and w: "w = (v(BBLOCK (of_nat b) x := set_used True (b mod BPB) (v (BBLOCK (of_nat b) x))))(of_nat b := replicate BSIZE 0)"
  shows "file_wf x w inum a" and "\<forall>j\<le>MAXFILE. blk w a j = blk v a j" and "in_file x w inum (of_nat b)"
    and "\<forall>j\<le>MAXFILE. blk v a j \<noteq> of_nat b" and "w (of_nat b) = replicate BSIZE 0"
    and "\<forall>n. in_file x v inum n \<longrightarrow> w n = v n"
proof -
  note d = file_wfD [OF wf]
  note al = allocated_view [OF d(8) b d(2) w]
  have u: "unat (of_nat b :: uint) = b" using fs_size_bound [OF b(1)] by (simp add: unat_of_nat)
  have "b \<noteq> 0" using b(2) d(3) by (rule_tac notI) simp
  then have nz: "(of_nat b :: uint) \<noteq> 0" using u by (metis unsigned_0)
  have ninf: "\<not> in_file x v inum (of_nat b)" using b(2) u by (simp add: in_file_def)
  show other: "\<forall>n. in_file x v inum n \<longrightarrow> w n = v n" 
  proof (intro allI impI)
    fix n
    assume "in_file x v inum n"
    then have "n \<noteq> BBLOCK (of_nat b) x" "n \<noteq> of_nat b" using meta_BBLOCK [OF b(1)] ninf by (auto simp: in_file_def)
    then show "w n = v n" using al(3) by blast
  qed
  show fresh: "\<forall>j\<le>MAXFILE. blk v a j \<noteq> of_nat b" 
  proof (intro allI impI notI)
    fix j
    assume "j \<le> MAXFILE" "blk v a j = of_nat b"
    then show False using d(6) [of j] ninf nz by simp
  qed
  have "a ! NDIRECT = 0 \<or> w (a ! NDIRECT) = v (a ! NDIRECT)" using indirect_in_file [OF wf] other by blast
  then show blk: "\<forall>j\<le>MAXFILE. blk w a j = blk v a j" by (auto simp: blk_def)
  have "\<not> meta x inum (of_nat b)" using d(4) b by blast
  then show "in_file x w inum (of_nat b)" using nz b(1) al(1) by (simp add: in_file_def u)
  have len: "\<forall>n. length (w n) = BSIZE" using d(2) by (simp add: w)
  show "file_wf x w inum a"
    by (rule file_wf_same [OF wf len _ blk]) (use al(1) in blast)
  show "w (of_nat b) = replicate BSIZE 0" by (rule al(2))
qed

lemma word_at_zeros: "i < NINDIRECT \<Longrightarrow> word_at i (replicate BSIZE 0) = 0"
  by (simp add: word_at_def NINDIRECT_def BSIZE_def le_word_zeros)

text \<open>Entering the address of a block in the inode.\<close>

lemma attach_addr:
  assumes wf: "file_wf x v inum a" and n: "in_file x v inum n" "\<forall>j\<le>MAXFILE. blk v a j \<noteq> n"
    and j: "j \<le> NDIRECT" "a ! j = 0" and zero: "j = NDIRECT \<Longrightarrow> v n = replicate BSIZE 0"
  defines "k \<equiv> if j = NDIRECT then MAXFILE else j"
  shows "file_wf x v inum (a[j := n])" and "\<forall>i\<le>MAXFILE. blk v (a[j := n]) i = (if i = k then n else blk v a i)"
proof -
  note d = file_wfD [OF wf]
  have la: "j < length a" using d(1) j(1) by simp
  show blk: "\<forall>i\<le>MAXFILE. blk v (a[j := n]) i = (if i = k then n else blk v a i)"
  proof (cases "j = NDIRECT")
    case True
    then have "blk v (a[j := n]) i = (if i = MAXFILE then n else blk v a i)" if "i \<le> MAXFILE" for i
      using that la zero j(2) word_at_zeros [of "i - NDIRECT"] NDIRECT_MAXFILE by (auto simp: blk_def)
    then show ?thesis using True by (simp add: k_def)
  next
    case False
    then show ?thesis using j(1) la NDIRECT_MAXFILE by (auto simp: blk_def k_def nth_list_update)
  qed
  show "file_wf x v inum (a[j := n])"
    by (rule file_wf_update [OF wf _ _ _ blk]) (use d(1,2) n in auto)
qed

text \<open>Entering the address of a block in the block of indirect addresses.\<close>

lemma attach_indirect:
  assumes wf: "file_wf x v inum a" and n: "in_file x v inum n" "\<forall>j\<le>MAXFILE. blk v a j \<noteq> n"
    and j: "NDIRECT \<le> j" "j < MAXFILE" and ind: "a ! NDIRECT \<noteq> 0"
    and w: "w = v(a ! NDIRECT := put_word (j - NDIRECT) n (v (a ! NDIRECT)))"
  shows "file_wf x w inum a" and "\<forall>i\<le>MAXFILE. blk w a i = (if i = j then n else blk v a i)"
    and "\<forall>c<unat (sb_size x). block_used x w c = block_used x v c"
proof -
  note d = file_wfD [OF wf]
  let ?i = "a ! NDIRECT"
  have len: "4 * (j - NDIRECT) + 4 \<le> length (v ?i)" using j d(2) by (simp add: MAXFILE_def NINDIRECT_def BSIZE_def)
  show blk: "\<forall>i\<le>MAXFILE. blk w a i = (if i = j then n else blk v a i)"
  proof (intro allI impI)
    fix i
    assume "i \<le> MAXFILE"
    consider "i < NDIRECT" | "NDIRECT \<le> i" "i < MAXFILE" | "i = MAXFILE" using \<open>i \<le> MAXFILE\<close> by linarith
    then show "blk w a i = (if i = j then n else blk v a i)"
    proof cases
      case 2
      then have "4 * (i - NDIRECT) + 4 \<le> length (v ?i)" using d(2) by (simp add: MAXFILE_def NINDIRECT_def BSIZE_def)
      moreover have "i - NDIRECT = j - NDIRECT \<longleftrightarrow> i = j" using 2(1) j(1) by auto
      ultimately show ?thesis using 2 ind word_at_put_word [OF len] by (simp add: blk_def w)
    qed (use j NDIRECT_MAXFILE in \<open>auto simp: blk_def\<close>)
  qed
  have "\<not> meta x inum ?i" using indirect_in_file [OF wf] ind by (simp add: in_file_def)
  then show used: "\<forall>c<unat (sb_size x). block_used x w c = block_used x v c"
    using block_used_keep [of _ x inum w v] d(5) by (auto simp: w)
  have "\<forall>m. length (w m) = BSIZE" using d(2) len by (simp add: w length_put_word)
  then show "file_wf x w inum a"
    by (rule file_wf_update [OF wf d(1) _ _ blk]) (use n used in \<open>auto simp: in_file_def\<close>)
qed

text \<open>Changing the contents of a data block, and changing the block of the inode.\<close>

lemma write_data:
  assumes wf: "file_wf x v inum a" and j: "j < MAXFILE" "blk v a j \<noteq> 0" and l: "length e = BSIZE" and w: "w = v(blk v a j := e)"
  shows "file_wf x w inum a" and "\<forall>i\<le>MAXFILE. blk w a i = blk v a i" and "\<forall>c<unat (sb_size x). block_used x w c = block_used x v c"
proof -
  note d = file_wfD [OF wf]
  define b where "b = blk v a j"
  have wb: "w n = (if n = b then e else v n)" for n by (simp add: w b_def)
  have "a ! NDIRECT \<noteq> b \<or> a ! NDIRECT = 0" using d(7) [of MAXFILE j] j by (auto simp: blk_MAXFILE b_def)
  then have "a ! NDIRECT = 0 \<or> w (a ! NDIRECT) = v (a ! NDIRECT)" by (auto simp: wb)
  then show blk: "\<forall>i\<le>MAXFILE. blk w a i = blk v a i" by (auto simp: blk_def)
  have "\<not> meta x inum b" using d(6) [of j] j by (simp add: in_file_def b_def)
  then have "\<forall>n. meta x inum n \<and> n \<noteq> IBLOCK inum x \<longrightarrow> w n = v n" by (auto simp: wb)
  then show used: "\<forall>c<unat (sb_size x). block_used x w c = block_used x v c" using block_used_keep [of _ x inum w v] d(5) by blast
  have "\<forall>m. length (w m) = BSIZE" using d(2) l by (simp add: wb)
  then show "file_wf x w inum a" by (rule file_wf_same [OF wf _ _ blk]) (use used in blast)
qed

lemma write_inode_block:
  assumes wf: "file_wf x v inum a" and l: "length e = BSIZE" and w: "w = v(IBLOCK inum x := e)"
  shows "file_wf x w inum a" and "\<forall>i\<le>MAXFILE. blk w a i = blk v a i" and "\<forall>c<unat (sb_size x). block_used x w c = block_used x v c"
    and "\<forall>n. in_file x v inum n \<longrightarrow> w n = v n"
proof -
  note d = file_wfD [OF wf]
  show keep: "\<forall>n. in_file x v inum n \<longrightarrow> w n = v n" by (auto simp: w in_file_def meta_def)
  have "a ! NDIRECT = 0 \<or> w (a ! NDIRECT) = v (a ! NDIRECT)" using indirect_in_file [OF wf] keep by blast
  then show blk: "\<forall>i\<le>MAXFILE. blk w a i = blk v a i" by (auto simp: blk_def)
  show used: "\<forall>c<unat (sb_size x). block_used x w c = block_used x v c" using block_used_keep [of _ x inum w v] d(5) by (auto simp: w)
  have "\<forall>m. length (w m) = BSIZE" using d(2) l by (simp add: w)
  then show "file_wf x w inum a" by (rule file_wf_same [OF wf _ _ blk]) (use used in blast)
qed

text \<open>
  The file has grown by empty blocks: its bytes are the same, and so is every other block that was in use
  (its block of indirect addresses apart).
\<close>

definition extends :: "superblock \<Rightarrow> uint \<Rightarrow> (uint \<Rightarrow> uchar list) \<Rightarrow> uint list \<Rightarrow> (uint \<Rightarrow> uchar list) \<Rightarrow> uint list \<Rightarrow> bool" where
  "extends x inum v a w a' \<longleftrightarrow> file_wf x w inum a' \<and> (\<forall>c<unat (sb_size x). block_used x v c \<longrightarrow> block_used x w c)
     \<and> (\<forall>q<MAXFILE * BSIZE. file_byte w a' q = file_byte v a q)
     \<and> (\<forall>m. in_file x v inum m \<longrightarrow> m \<noteq> a ! NDIRECT \<longrightarrow> w m = v m)
     \<and> (\<forall>j\<le>MAXFILE. if blk v a j = 0 then blk w a' j = 0 \<or> \<not> in_file x v inum (blk w a' j) else blk w a' j = blk v a j)"

lemma in_file_extends: "extends x inum v a w a' \<Longrightarrow> in_file x v inum m \<Longrightarrow> in_file x w inum m"
  by (auto simp: extends_def in_file_def)

lemma extends_refl: "file_wf x v inum a \<Longrightarrow> extends x inum v a v a"
  by (auto simp: extends_def)

lemma extends_trans:
  assumes 1: "extends x inum v a w b" and 2: "extends x inum w b u c"
  shows "extends x inum v a u c"
proof -
  have ind: "m \<noteq> b ! NDIRECT" if "in_file x v inum m" "m \<noteq> a ! NDIRECT" for m
  proof -
    have "if blk v a MAXFILE = 0 then blk w b MAXFILE = 0 \<or> \<not> in_file x v inum (blk w b MAXFILE) else blk w b MAXFILE = blk v a MAXFILE"
      using 1 unfolding extends_def by blast
    then show ?thesis using that unfolding blk_MAXFILE by (auto split: if_splits simp: in_file_def)
  qed
  have "u m = v m" if "in_file x v inum m" "m \<noteq> a ! NDIRECT" for m
  proof -
    have "w m = v m" using 1 that unfolding extends_def by blast
    moreover have "u m = w m" using 2 ind [OF that] in_file_extends [OF 1 that(1)] unfolding extends_def by blast
    ultimately show ?thesis by simp
  qed
  moreover have "if blk v a j = 0 then blk u c j = 0 \<or> \<not> in_file x v inum (blk u c j) else blk u c j = blk v a j" if "j \<le> MAXFILE" for j
  proof -
    have "if blk v a j = 0 then blk w b j = 0 \<or> \<not> in_file x v inum (blk w b j) else blk w b j = blk v a j"
      "if blk w b j = 0 then blk u c j = 0 \<or> \<not> in_file x w inum (blk u c j) else blk u c j = blk w b j"
      using 1 2 that unfolding extends_def by blast+
    then show ?thesis using in_file_extends [OF 1] by (auto split: if_splits)
  qed
  ultimately show ?thesis using 1 2 unfolding extends_def by simp
qed

lemma div_BSIZE: "q < MAXFILE * BSIZE \<Longrightarrow> q div BSIZE < MAXFILE"
  by (simp add: less_mult_imp_div_less)

lemma extends_grow:
  assumes wf: "file_wf x v inum a" and b: "b < unat (sb_size x)" "\<not> block_used x v b"
    and w: "w = (v(BBLOCK (of_nat b) x := set_used True (b mod BPB) (v (BBLOCK (of_nat b) x))))(of_nat b := replicate BSIZE 0)"
    and k: "blk v a k = 0"
    and u: "file_wf x u inum a'" "\<forall>i\<le>MAXFILE. blk u a' i = (if i = k then of_nat b else blk w a i)"
      "\<forall>c<unat (sb_size x). block_used x u c = block_used x w c" "\<forall>m. m \<noteq> a ! NDIRECT \<longrightarrow> u m = w m"
  shows "extends x inum v a u a'"
proof -
  note al = alloc_file [OF wf b w]
  have ub: "unat (of_nat b :: uint) = b" using fs_size_bound [OF b(1)] by (simp add: unat_of_nat)
  have bl: "blk u a' j = (if j = k then of_nat b else blk v a j)" if "j \<le> MAXFILE" for j using u(2) al(2) that by simp
  have "of_nat b \<noteq> a ! NDIRECT" using al(4) [rule_format, of MAXFILE] by (auto simp: blk_MAXFILE)
  then have zero: "u (of_nat b) = replicate BSIZE 0" using u(4) al(5) by simp
  have "file_byte u a' q = file_byte v a q" if "q < MAXFILE * BSIZE" for q
  proof -
    have j: "q div BSIZE < MAXFILE" by (rule div_BSIZE [OF that])
    have "blk v a (q div BSIZE) \<noteq> a ! NDIRECT" "in_file x v inum (blk v a (q div BSIZE))" if "blk v a (q div BSIZE) \<noteq> 0"
      using file_wfD(6) [OF wf, of "q div BSIZE"] file_wfD(7) [OF wf, of MAXFILE "q div BSIZE"] j that by (auto simp: blk_MAXFILE)
    then have keep: "u (blk v a (q div BSIZE)) = v (blk v a (q div BSIZE))" if "blk v a (q div BSIZE) \<noteq> 0" using that u(4) al(6) by simp
    have "u (of_nat b) ! (q mod BSIZE) = 0" using zero by (simp add: BSIZE_def)
    then show ?thesis using bl [of "q div BSIZE"] j k keep by (auto simp: file_byte_def)
  qed
  moreover have "\<forall>c<unat (sb_size x). block_used x v c \<longrightarrow> block_used x u c"
    using allocated_view(1) [OF file_wfD(8) [OF wf] b file_wfD(2) [OF wf] w] u(3) by blast
  moreover have "\<not> in_file x v inum (of_nat b)" using b(2) ub by (simp add: in_file_def)
  ultimately show ?thesis unfolding extends_def using u(1,4) al(6) bl k by auto
qed

subsection \<open>Steps on one file\<close>

text \<open>Within an operation on the inode in slot \<open>ip\<close> only the addresses and the size of that inode change, besides the cache and the log.\<close>

definition fs_frame :: "nat \<Rightarrow> 'a fsys_scheme \<Rightarrow> 'a fsys_scheme \<Rightarrow> bool" where
  "fs_frame ip s t \<longleftrightarrow> (\<exists>a z. t = s\<lparr>procs := procs t, bufs := bufs t, klog := klog t, inodes := (inodes s)(ip := (inodes s ip)\<lparr>i_addrs := a, i_size := z\<rparr>)\<rparr>)
     \<and> (\<forall>q. stateless (procs t q) = stateless (procs s q))"

lemma fs_frame_tx: "tx_frame s t \<Longrightarrow> fs_frame ip s t"
proof -
  assume f: "tx_frame s t"
  then have e: "t = s\<lparr>procs := procs t, bufs := bufs t, klog := klog t\<rparr>" unfolding tx_frame_def by blast
  have "\<dots> = s\<lparr>procs := procs t, bufs := bufs t, klog := klog t, inodes := (inodes s)(ip := (inodes s ip)\<lparr>i_addrs := i_addrs (inodes s ip), i_size := i_size (inodes s ip)\<rparr>)\<rparr>"
    by simp
  from trans [OF e this] f show ?thesis unfolding fs_frame_def tx_frame_def by blast
qed

lemma fs_frame_trans [trans]:
  assumes "fs_frame ip s t" and "fs_frame ip t u"
  shows "fs_frame ip s u"
proof -
  from assms obtain a z b y where
    t: "t = s\<lparr>procs := procs t, bufs := bufs t, klog := klog t, inodes := (inodes s)(ip := (inodes s ip)\<lparr>i_addrs := a, i_size := z\<rparr>)\<rparr>"
    and u: "u = t\<lparr>procs := procs u, bufs := bufs u, klog := klog u, inodes := (inodes t)(ip := (inodes t ip)\<lparr>i_addrs := b, i_size := y\<rparr>)\<rparr>"
    unfolding fs_frame_def by blast
  have it: "inodes t = (inodes s)(ip := (inodes s ip)\<lparr>i_addrs := a, i_size := z\<rparr>)" using arg_cong [OF t, of inodes] by simp
  let ?put = "\<lambda>s. s\<lparr>procs := procs u, bufs := bufs u, klog := klog u, inodes := (inodes t)(ip := (inodes t ip)\<lparr>i_addrs := b, i_size := y\<rparr>)\<rparr>"
  have "u = ?put t" by (rule u)
  also have "?put t = ?put (s\<lparr>procs := procs t, bufs := bufs t, klog := klog t, inodes := (inodes s)(ip := (inodes s ip)\<lparr>i_addrs := a, i_size := z\<rparr>)\<rparr>)"
    by (rule arg_cong [of _ _ ?put]) (rule t)
  also have "\<dots> = s\<lparr>procs := procs u, bufs := bufs u, klog := klog u, inodes := (inodes s)(ip := (inodes s ip)\<lparr>i_addrs := b, i_size := y\<rparr>)\<rparr>"
    by (simp add: it)
  finally have "\<exists>a z. u = s\<lparr>procs := procs u, bufs := bufs u, klog := klog u, inodes := (inodes s)(ip := (inodes s ip)\<lparr>i_addrs := a, i_size := z\<rparr>)\<rparr>"
    by blast
  moreover have "stateless (procs u q) = stateless (procs s q)" for q using assms unfolding fs_frame_def by (blast intro: trans)
  ultimately show ?thesis unfolding fs_frame_def by blast
qed

lemma fs_frame_fields:
  assumes "fs_frame ip s t"
  shows "sb t = sb s" and "mem t = mem s" and "disk t = disk s" and "j \<noteq> ip \<Longrightarrow> inodes t j = inodes s j"
    and "i_dev (inodes t ip) = i_dev (inodes s ip)" and "i_inum (inodes t ip) = i_inum (inodes s ip)"
    and "i_type (inodes t ip) = i_type (inodes s ip)"
proof -
  from assms obtain a z where
    t: "t = s\<lparr>procs := procs t, bufs := bufs t, klog := klog t, inodes := (inodes s)(ip := (inodes s ip)\<lparr>i_addrs := a, i_size := z\<rparr>)\<rparr>"
    unfolding fs_frame_def by blast
  have it: "inodes t = (inodes s)(ip := (inodes s ip)\<lparr>i_addrs := a, i_size := z\<rparr>)" using arg_cong [OF t, of inodes] by simp
  show "sb t = sb s" "mem t = mem s" "disk t = disk s"
    using arg_cong [OF t, of sb] arg_cong [OF t, of mem] arg_cong [OF t, of disk] by simp_all
  show "j \<noteq> ip \<Longrightarrow> inodes t j = inodes s j" "i_dev (inodes t ip) = i_dev (inodes s ip)" "i_inum (inodes t ip) = i_inum (inodes s ip)"
    "i_type (inodes t ip) = i_type (inodes s ip)" by (simp_all add: it)
qed

lemma upd_inode_fields [simp]:
  "procs (upd_inode ip f s) = procs s" "cpus (upd_inode ip f s) = cpus s" "mem (upd_inode ip f s) = mem s" "klog (upd_inode ip f s) = klog s"
  "bufs (upd_inode ip f s) = bufs s" "disk (upd_inode ip f s) = disk s" "sb (upd_inode ip f s) = sb s"
  "inodes (upd_inode ip f s) = (inodes s)(ip := f (inodes s ip))" "thr q j (upd_inode ip f s) = thr q j s" "bview dev (upd_inode ip f s) = bview dev s"
  by (simp_all add: upd_inode_def thr_def bview_def)

lemma in_tx_upd_inode [simp]: "in_tx dev p i H k (upd_inode ip f s) = in_tx dev p i H k s"
proof -
  have "running p i (upd_inode ip f s) = running p i s" by (rule running_cong) (simp_all add: upd_inode_def)
  then show ?thesis by (simp add: in_tx_def cache_ok_def)
qed

lemma fs_frame_upd_addrs: "fs_frame ip s (upd_inode ip (\<lambda>x. x\<lparr>i_addrs := f (i_addrs x)\<rparr>) s)"
  and fs_frame_upd_size: "fs_frame ip s (upd_inode ip (\<lambda>x. x\<lparr>i_size := z\<rparr>) s)"
proof -
  show "fs_frame ip s (upd_inode ip (\<lambda>x. x\<lparr>i_addrs := f (i_addrs x)\<rparr>) s)" unfolding fs_frame_def
    by (rule conjI, rule exI [of _ "f (i_addrs (inodes s ip))"], rule exI [of _ "i_size (inodes s ip)"]) (simp_all add: upd_inode_def)
  show "fs_frame ip s (upd_inode ip (\<lambda>x. x\<lparr>i_size := z\<rparr>) s)" unfolding fs_frame_def
    by (rule conjI, rule exI [of _ "i_addrs (inodes s ip)"], rule exI [of _ z]) (simp_all add: upd_inode_def)
qed

text \<open>Loading an inode from the disk.\<close>

lemma load_inode_ok:
  fixes s :: "'a fsys_scheme"
  assumes tx: "in_tx dev p i {} (Suc k) s" and dev: "i_dev (inodes s ip) = dev"
    and ty: "di_type (disk_inode (sb s) (bview dev s) (i_inum (inodes s ip))) \<noteq> 0"
  shows "\<exists>t. load_inode ip s = Ok t \<and> in_tx dev p i {} (Suc k) t \<and> bview dev t = bview dev s
    \<and> stored (inodes t ip) = disk_inode (sb s) (bview dev s) (i_inum (inodes s ip)) \<and> i_valid (inodes t ip) = 1"
proof -
  let ?B = "IBLOCK (i_inum (inodes s ip)) (sb s)" and ?d = "disk_inode (sb s) (bview dev s) (i_inum (inodes s ip))"
  from tx_bread [OF tx, of ?B] obtain bp t where
    t: "bread dev ?B s = Ok (bp, t)" "in_tx dev p i {?B} k t" "buf_at dev ?B (bufs t) = Some bp" "b_data (bufs t bp) = bview dev s ?B"
       "bview dev t = bview dev s" "klog t = klog s" "tx_frame s t" "?B \<in> set (tx_blocks (klog t)) \<or> bview dev t ?B = disk t ?B" by auto
  let ?t = "upd_inode ip (\<lambda>i. i\<lparr>i_type := di_type ?d, i_major := di_major ?d, i_minor := di_minor ?d,
                 i_nlink := di_nlink ?d, i_size := di_size ?d, i_addrs := di_addrs ?d\<rparr>) t"
  from tx_brelse [of dev p i ?B "{}" k ?t bp] t(2,3,8) obtain u where
    u: "brelse bp ?t = Ok u" "in_tx dev p i {} k u" "bview dev u = bview dev ?t" "klog u = klog ?t" "tx_frame ?t u" by auto
  have iu: "inodes u = inodes ?t" by (rule tx_frame_fsys(2) [OF u(5)])
  have "load_inode ip s = Ok (upd_inode ip (\<lambda>i. i\<lparr>i_valid := 1\<rparr>) u)"
    using t(1,4) u(1) ty dev by (simp add: load_inode_def disk_inode_def Let_def iu)
  moreover have "in_tx dev p i {} (Suc k) u" using u(2) tx by (simp add: in_tx_def u(4) t(6))
  ultimately show ?thesis using u(3) t(5) by (simp add: iu stored_def)
qed

text \<open>The number of free blocks.\<close>

definition free_blocks :: "superblock \<Rightarrow> (uint \<Rightarrow> uchar list) \<Rightarrow> nat" where
  "free_blocks x v = card {c. c < unat (sb_size x) \<and> \<not> block_used x v c}"

lemma free_blocks_cong: "\<forall>c<unat (sb_size x). block_used x w c = block_used x v c \<Longrightarrow> free_blocks x w = free_blocks x v"
  unfolding free_blocks_def by (rule arg_cong [of _ _ card]) auto

lemma free_blocks_alloc:
  assumes "b < unat (sb_size x)" and "\<not> block_used x v b" and "\<forall>c<unat (sb_size x). block_used x w c = (c = b \<or> block_used x v c)"
  shows "Suc (free_blocks x w) = free_blocks x v"
proof -
  have "{c. c < unat (sb_size x) \<and> \<not> block_used x v c} = insert b {c. c < unat (sb_size x) \<and> \<not> block_used x w c}" using assms by auto
  then show ?thesis unfolding free_blocks_def using assms by simp
qed

lemma balloc_file:
  fixes s :: "'a fsys_scheme"
  assumes tx: "in_tx dev p i H (Suc (Suc k)) s" and wf: "file_wf (sb s) (bview dev s) inum a"
    and H: "\<forall>n \<in> H. in_file (sb s) (bview dev s) inum n" and free: "0 < free_blocks (sb s) (bview dev s)"
  shows "\<exists>b t. balloc dev s = Ok (of_nat b, t) \<and> in_tx dev p i H k t \<and> tx_step dev H s t
    \<and> b < unat (sb_size (sb s)) \<and> \<not> block_used (sb s) (bview dev s) b
    \<and> bview dev t = ((bview dev s)(BBLOCK (of_nat b) (sb s) := set_used True (b mod BPB) (bview dev s (BBLOCK (of_nat b) (sb s)))))
        (of_nat b := replicate BSIZE 0)
    \<and> Suc (free_blocks (sb s) (bview dev t)) = free_blocks (sb s) (bview dev s)"
proof -
  let ?x = "sb s" and ?v = "bview dev s"
  have "{c. c < unat (sb_size ?x) \<and> \<not> block_used ?x ?v c} \<noteq> {}" using free unfolding free_blocks_def by (metis card.empty less_irrefl)
  then have "\<exists>b<unat (sb_size ?x). \<not> block_used ?x ?v b" by blast
  from least_free [OF this] obtain b where b: "b < unat (sb_size ?x)" "\<not> block_used ?x ?v b" "\<forall>c<b. block_used ?x ?v c" .
  have "BBLOCK (of_nat c) ?x \<notin> H \<and> (\<not> block_used ?x ?v c \<longrightarrow> of_nat c \<notin> H)" if "c < unat (sb_size ?x)" for c
  proof -
    have "unat (of_nat c :: uint) = c" using fs_size_bound [OF that] by (simp add: unat_of_nat)
    then show ?thesis using H meta_BBLOCK [OF that] by (auto simp: in_file_def)
  qed
  then have "\<forall>c<unat (sb_size ?x). BBLOCK (of_nat c) ?x \<notin> H \<and> (\<not> block_used ?x ?v c \<longrightarrow> of_nat c \<notin> H)" by blast
  from balloc_ok [OF tx this b] obtain t where
    t: "balloc dev s = Ok (of_nat b, t)" "in_tx dev p i H k t" "tx_step dev H s t"
       "bview dev t = (?v(BBLOCK (of_nat b) ?x := set_used True (b mod BPB) (?v (BBLOCK (of_nat b) ?x))))(of_nat b := replicate BSIZE 0)" by blast
  note al = allocated_view(1) [OF file_wfD(8) [OF wf] b(1,2) file_wfD(2) [OF wf] t(4)]
  show ?thesis
    by (rule exI [of _ b], rule exI [of _ t]) (intro conjI t b(1,2) free_blocks_alloc [OF b(1,2) al])
qed

text \<open>The two parts of \<^verbatim>\<open>bmap\<close>: an entry of \<^verbatim>\<open>ip->addrs\<close>, and an entry of the block of indirect addresses.\<close>

definition addr_slot :: "nat \<Rightarrow> nat \<Rightarrow> 'a fsys_scheme \<Rightarrow> (uint \<times> 'a fsys_scheme) result" where
  "addr_slot ip j s = (let addr = i_addrs (inodes s ip) ! j
     in if addr = 0
        then bindR (balloc (i_dev (inodes s ip)) s) (\<lambda>(addr, s). Ok (addr, upd_inode ip (\<lambda>x. x\<lparr>i_addrs := (i_addrs x)[j := addr]\<rparr>) s))
        else Ok (addr, s))"

definition indirect_slot :: "uint \<Rightarrow> nat \<Rightarrow> uint \<Rightarrow> 'a fsys_scheme \<Rightarrow> (uint \<times> 'a fsys_scheme) result" where
  "indirect_slot dev j ind s =
     bindR (bread dev ind s) (\<lambda>(bp, s).
       let addr = word_at j (b_data (bufs s bp))
       in bindR (if addr = 0
            then bindR (balloc dev s) (\<lambda>(addr, s).
                 bindR (log_write bp (set_data bp (put_word j addr (b_data (bufs s bp))) s)) (\<lambda>s. Ok (addr, s)))
            else Ok (addr, s)) (\<lambda>(addr, s).
          bindR (brelse bp s) (\<lambda>s. Ok (addr, s))))"

lemma bmap_parts:
  "bmap ip bn s = (if bn < NDIRECT then addr_slot ip bn s
     else if bn - NDIRECT < NINDIRECT
     then bindR (addr_slot ip NDIRECT s) (\<lambda>(ind, t). indirect_slot (i_dev (inodes s ip)) (bn - NDIRECT) ind t)
     else Panic ''bmap: out of range'')"
  unfolding bmap_def addr_slot_def indirect_slot_def Let_def ..

lemma addr_slot_ok:
  fixes s :: "'a fsys_scheme"
  assumes tx: "in_tx dev p i {} (Suc (Suc k)) s" and dev: "i_dev (inodes s ip) = dev" and wf: "file_wf (sb s) (bview dev s) inum (i_addrs (inodes s ip))"
    and j: "j \<le> NDIRECT" and free: "0 < free_blocks (sb s) (bview dev s)"
  shows "\<exists>n t. addr_slot ip j s = Ok (n, t)
    \<and> in_tx dev p i {} k t \<and> fs_frame ip s t \<and> i_size (inodes t ip) = i_size (inodes s ip)
    \<and> extends (sb s) inum (bview dev s) (i_addrs (inodes s ip)) (bview dev t) (i_addrs (inodes t ip))
    \<and> n \<noteq> 0 \<and> i_addrs (inodes t ip) ! j = n \<and> free_blocks (sb s) (bview dev s) \<le> free_blocks (sb s) (bview dev t) + 1"
proof (cases "i_addrs (inodes s ip) ! j = 0")
  case False
  then show ?thesis using in_tx_mono [OF tx, of k] fs_frame_tx [OF tx_frame_refl, of ip s] extends_refl [OF wf] by (auto simp: addr_slot_def Let_def)
next
  case True
  let ?x = "sb s" and ?v = "bview dev s" and ?a = "i_addrs (inodes s ip)"
  from balloc_file [OF tx wf _ free] obtain b t where
    t: "balloc dev s = Ok (of_nat b, t)" "in_tx dev p i {} k t" "tx_step dev {} s t" "b < unat (sb_size ?x)" "\<not> block_used ?x ?v b"
       "bview dev t = (?v(BBLOCK (of_nat b) ?x := set_used True (b mod BPB) (?v (BBLOCK (of_nat b) ?x))))(of_nat b := replicate BSIZE 0)"
       "Suc (free_blocks ?x (bview dev t)) = free_blocks ?x ?v" by blast
  let ?u = "upd_inode ip (\<lambda>x. x\<lparr>i_addrs := (i_addrs x)[j := of_nat b]\<rparr>) t" and ?k = "if j = NDIRECT then MAXFILE else j"
  have it: "inodes t = inodes s" by (rule tx_frame_fsys(2) [OF tx_step_frame [OF t(3)]])
  note al = alloc_file [OF wf t(4,5,6)]
  have fresh: "\<forall>j\<le>MAXFILE. blk (bview dev t) ?a j \<noteq> of_nat b" using al(2,4) by simp
  note at = attach_addr [OF al(1,3) fresh j True al(5)]
  have "blk ?v ?a ?k = 0" using True j NDIRECT_MAXFILE by (auto simp: blk_def)
  then have "extends ?x inum ?v ?a (bview dev t) (?a[j := of_nat b])"
    by (rule extends_grow [OF wf t(4,5,6) _ at]) simp_all
  moreover have "fs_frame ip s ?u" using fs_frame_trans [OF fs_frame_tx [OF tx_step_frame [OF t(3)]] fs_frame_upd_addrs] .
  moreover have "(of_nat b :: uint) \<noteq> 0" using al(3) by (simp add: in_file_def)
  moreover have "j < length ?a" using file_wfD(1) [OF wf] j by simp
  ultimately show ?thesis using True t(1,2,7) by (simp add: it addr_slot_def dev)
qed

lemma indirect_slot_ok:
  fixes s :: "'a fsys_scheme"
  assumes tx: "in_tx dev p i {} (Suc (Suc (Suc k))) s" and wf: "file_wf (sb s) (bview dev s) inum a" and n: "a ! NDIRECT = n" "n \<noteq> 0"
    and j: "j < NINDIRECT" and free: "0 < free_blocks (sb s) (bview dev s)"
  shows "\<exists>m t. indirect_slot dev j n s = Ok (m, t) \<and> in_tx dev p i {} k t \<and> tx_frame s t \<and> extends (sb s) inum (bview dev s) a (bview dev t) a
    \<and> m \<noteq> 0 \<and> blk (bview dev t) a (NDIRECT + j) = m \<and> free_blocks (sb s) (bview dev s) \<le> free_blocks (sb s) (bview dev t) + 1"
proof -
  let ?x = "sb s" and ?v = "bview dev s"
  have nf: "in_file ?x ?v inum n" using indirect_in_file [OF wf] n by simp
  have jb: "NDIRECT \<le> NDIRECT + j" "NDIRECT + j < MAXFILE" "NDIRECT + j - NDIRECT = j" using j by (simp_all add: MAXFILE_def)
  from tx_bread [OF tx, of n] obtain bp u where
    u: "bread dev n s = Ok (bp, u)" "in_tx dev p i {n} (Suc (Suc k)) u" "buf_at dev n (bufs u) = Some bp" "b_data (bufs u bp) = ?v n"
       "bview dev u = ?v" "klog u = klog s" "tx_frame s u" "n \<in> set (tx_blocks (klog u)) \<or> bview dev u n = disk u n" by auto
  have sbu: "sb u = ?x" by (rule tx_frame_fsys(1) [OF u(7)])
  have bl: "blk ?v a (NDIRECT + j) = word_at j (?v n)" using jb n by (simp add: blk_def)
  show ?thesis
  proof (cases "word_at j (?v n) = 0")
    case False
    from tx_brelse [OF u(2) _ u(3,8)] obtain w where
      w: "brelse bp u = Ok w" "in_tx dev p i {} (Suc (Suc k)) w" "bview dev w = bview dev u" "tx_frame u w" by auto
    have "indirect_slot dev j n s = Ok (word_at j (?v n), w)" using u(1,4) w(1) False by (simp add: indirect_slot_def Let_def)
    moreover have "in_tx dev p i {} k w" using in_tx_mono [OF w(2)] by simp
    ultimately show ?thesis using False bl w(3) u(5) tx_frame_trans [OF u(7) w(4)] extends_refl [OF wf] by auto
  next
    case True
    from balloc_file [OF u(2), of inum a] wf nf free obtain b t where
      t: "balloc dev u = Ok (of_nat b, t)" "in_tx dev p i {n} k t" "tx_step dev {n} u t" "b < unat (sb_size ?x)" "\<not> block_used ?x ?v b"
         "bview dev t = (?v(BBLOCK (of_nat b) ?x := set_used True (b mod BPB) (?v (BBLOCK (of_nat b) ?x))))(of_nat b := replicate BSIZE 0)"
         "Suc (free_blocks ?x (bview dev t)) = free_blocks ?x ?v" unfolding sbu u(5) by auto
    note al = alloc_file [OF wf t(4,5,6)]
    have fresh: "\<forall>j\<le>MAXFILE. blk (bview dev t) a j \<noteq> of_nat b" using al(2,4) by simp
    have bt: "buf_at dev n (bufs t) = Some bp" using t(3) u(3) by (simp add: tx_step_def)
    have dt: "b_data (bufs t bp) = bview dev t n" using held_buf(7) [OF _ _ bt] t(2) unfolding in_tx_def by blast
    let ?d = "put_word j (of_nat b) (bview dev t n)"
    have ld: "length ?d = BSIZE" using in_tx_length [OF t(2), of n] j by (simp add: length_put_word NINDIRECT_def BSIZE_def)
    note m = tx_modify [OF t(2) _ bt ld, simplified]
    have "buf_at dev n (bufs (set_data bp ?d t)) = Some bp" using m(3) bt by simp
    from tx_log [OF m(1) _ this] obtain w where
      w: "log_write bp (set_data bp ?d t) = Ok w" "in_tx dev p i {n} k w" "bview dev w = bview dev (set_data bp ?d t)" "tx_frame (set_data bp ?d t) w"
         "buf_at dev n (bufs w) = Some bp" "n \<in> set (tx_blocks (klog w))" using m(3) bt by auto
    from tx_brelse [OF w(2) _ w(5)] w(6) obtain y where
      y: "brelse bp w = Ok y" "in_tx dev p i {} k y" "bview dev y = bview dev w" "tx_frame w y" by auto
    have vy: "bview dev y = (bview dev t)(a ! NDIRECT := put_word (NDIRECT + j - NDIRECT) (of_nat b) (bview dev t (a ! NDIRECT)))"
      using y(3) w(3) m(2) n(1) by simp
    note at = attach_indirect [OF al(1,3) fresh jb(1,2) _ vy]
    have "extends ?x inum ?v a (bview dev y) a" using bl True n(2)
      by (intro extends_grow [OF wf t(4,5,6), of "NDIRECT + j"] at) (simp_all add: n(1) vy)
    moreover have "tx_frame s y" using u(7) tx_step_frame [OF t(3)] m(4) w(4) y(4) tx_frame_trans by blast
    moreover have "indirect_slot dev j n s = Ok (of_nat b, y)" using u(1,4) True t(1) w(1) y(1) dt by (simp add: indirect_slot_def Let_def)
    moreover have "free_blocks ?x (bview dev y) = free_blocks ?x (bview dev t)" using at(3) n by (intro free_blocks_cong) simp
    moreover have "(of_nat b :: uint) \<noteq> 0" using al(3) by (simp add: in_file_def)
    moreover have "blk (bview dev y) a (NDIRECT + j) = of_nat b" using at(2) jb n by simp
    ultimately show ?thesis using y(2) t(7) by auto
  qed
qed

lemma bmap_ok:
  fixes s :: "'a fsys_scheme"
  assumes tx: "in_tx dev p i {} (Suc (Suc (Suc (Suc (Suc k))))) s" and dev: "i_dev (inodes s ip) = dev"
    and wf: "file_wf (sb s) (bview dev s) inum (i_addrs (inodes s ip))" and bn: "bn < MAXFILE" and free: "2 \<le> free_blocks (sb s) (bview dev s)"
  shows "\<exists>n t. bmap ip bn s = Ok (n, t) \<and> in_tx dev p i {} k t \<and> fs_frame ip s t \<and> i_size (inodes t ip) = i_size (inodes s ip)
    \<and> extends (sb s) inum (bview dev s) (i_addrs (inodes s ip)) (bview dev t) (i_addrs (inodes t ip))
    \<and> n \<noteq> 0 \<and> blk (bview dev t) (i_addrs (inodes t ip)) bn = n \<and> free_blocks (sb s) (bview dev s) \<le> free_blocks (sb s) (bview dev t) + 2"
proof -
  define j where "j = (if bn < NDIRECT then bn else NDIRECT)"
  have "j \<le> NDIRECT" by (simp add: j_def)
  from addr_slot_ok [OF tx dev wf this] free obtain n t where
    t: "addr_slot ip j s = Ok (n, t)" "in_tx dev p i {} (Suc (Suc (Suc k))) t" "fs_frame ip s t" "i_size (inodes t ip) = i_size (inodes s ip)"
       "extends (sb s) inum (bview dev s) (i_addrs (inodes s ip)) (bview dev t) (i_addrs (inodes t ip))"
       "n \<noteq> 0" "i_addrs (inodes t ip) ! j = n" "free_blocks (sb s) (bview dev s) \<le> free_blocks (sb s) (bview dev t) + 1" by auto
  show ?thesis
  proof (cases "bn < NDIRECT")
    case True
    have "bmap ip bn s = Ok (n, t)" using True t(1) by (simp add: bmap_parts j_def)
    moreover have "in_tx dev p i {} k t" using in_tx_mono [OF t(2)] by simp
    moreover have "blk (bview dev t) (i_addrs (inodes t ip)) bn = n" using True t(7) by (simp add: blk_def j_def)
    ultimately show ?thesis using t(3-6,8) by auto
  next
    case False
    then have bj: "bn - NDIRECT < NINDIRECT" "NDIRECT + (bn - NDIRECT) = bn" "j = NDIRECT" using bn by (simp_all add: MAXFILE_def j_def)
    have sbt: "sb t = sb s" by (rule fs_frame_fields(1) [OF t(3)])
    have wft: "file_wf (sb t) (bview dev t) inum (i_addrs (inodes t ip))" using t(5) by (simp add: extends_def sbt)
    from indirect_slot_ok [OF t(2) wft t(7) [unfolded bj(3)] t(6) bj(1)] free t(8) obtain m u where
      u: "indirect_slot dev (bn - NDIRECT) n t = Ok (m, u)" "in_tx dev p i {} k u" "tx_frame t u"
         "extends (sb s) inum (bview dev t) (i_addrs (inodes t ip)) (bview dev u) (i_addrs (inodes t ip))" "m \<noteq> 0"
         "blk (bview dev u) (i_addrs (inodes t ip)) bn = m" "free_blocks (sb s) (bview dev t) \<le> free_blocks (sb s) (bview dev u) + 1"
      unfolding sbt bj(2) by auto
    have iu: "inodes u = inodes t" by (rule tx_frame_fsys(2) [OF u(3)])
    have "bmap ip bn s = Ok (m, u)" using False bj t(1) u(1) dev by (simp add: bmap_parts)
    moreover have "fs_frame ip s u" by (rule fs_frame_trans [OF t(3) fs_frame_tx [OF u(3)]])
    ultimately show ?thesis using u(2,5-7) t(4,8) extends_trans [OF t(5) u(4)] by (auto simp: iu)
  qed
qed

end
