(* ===== verification/FileData.thy ===== *)
theory FileData
  imports FileBlocks Sigreturn
begin

text \<open>
  \<^verbatim>\<open>writei\<close> and \<^verbatim>\<open>readi\<close> (\<^verbatim>\<open>kernel/fs.c\<close>) make a file an array of bytes: a write changes exactly the bytes of its
  range, and a read returns the bytes of its range. The source of a write is described by \<open>supplies\<close>, so
  that the same lemma serves user memory, kernel memory and variables on the kernel stack; the reads
  here are those into a variable of the kernel.
\<close>

subsection \<open>Writing\<close>

text \<open>
  An operation on the file touches only its own blocks: the free map only gains entries, and every
  block that was in use and is not part of the file keeps its contents.
\<close>

definition file_step :: "superblock \<Rightarrow> uint \<Rightarrow> (uint \<Rightarrow> uchar list) \<Rightarrow> uint list \<Rightarrow> (uint \<Rightarrow> uchar list) \<Rightarrow> uint list \<Rightarrow> bool" where
  "file_step x inum v a w a' \<longleftrightarrow> file_wf x w inum a' \<and> (\<forall>c<unat (sb_size x). block_used x v c \<longrightarrow> block_used x w c)
     \<and> (\<forall>m. in_file x v inum m \<longrightarrow> (\<forall>j\<le>MAXFILE. blk v a j \<noteq> m) \<longrightarrow> w m = v m)
     \<and> (\<forall>j\<le>MAXFILE. if blk v a j = 0 then blk w a' j = 0 \<or> \<not> in_file x v inum (blk w a' j) else blk w a' j = blk v a j)"

lemma file_step_trans:
  assumes 1: "file_step x inum v a w b" and 2: "file_step x inum w b u c"
  shows "file_step x inum v a u c"
proof -
  have inf: "in_file x w inum m" if "in_file x v inum m" for m using 1 that by (auto simp: file_step_def in_file_def)
  have bl: "if blk v a j = 0 then blk w b j = 0 \<or> \<not> in_file x v inum (blk w b j) else blk w b j = blk v a j"
    "if blk w b j = 0 then blk u c j = 0 \<or> \<not> in_file x w inum (blk u c j) else blk u c j = blk w b j" if "j \<le> MAXFILE" for j
    using 1 2 that unfolding file_step_def by blast+
  have "u m = v m" if m: "in_file x v inum m" "\<forall>j\<le>MAXFILE. blk v a j \<noteq> m" for m
  proof -
    have "blk w b j \<noteq> m" if "j \<le> MAXFILE" for j
      using bl(1) [OF that] m that by (cases "blk v a j = 0") (auto simp: in_file_def)
    then have "u m = w m" using 2 inf [OF m(1)] unfolding file_step_def by blast
    moreover have "w m = v m" using 1 m unfolding file_step_def by blast
    ultimately show ?thesis by simp
  qed
  moreover have "if blk v a j = 0 then blk u c j = 0 \<or> \<not> in_file x v inum (blk u c j) else blk u c j = blk v a j" if "j \<le> MAXFILE" for j
    using bl [OF that] inf by (auto split: if_splits)
  ultimately show ?thesis using 1 2 unfolding file_step_def by simp
qed

lemma extends_step: "extends x inum v a w a' \<Longrightarrow> file_step x inum v a w a'"
proof -
  assume e: "extends x inum v a w a'"
  have "w m = v m" if "in_file x v inum m" "\<forall>j\<le>MAXFILE. blk v a j \<noteq> m" for m
    using e that(1) that(2) [rule_format, of MAXFILE] by (auto simp: extends_def blk_MAXFILE)
  then show ?thesis using e unfolding extends_def file_step_def by blast
qed

lemma write_data_step:
  assumes wf: "file_wf x v inum a" and j: "j < MAXFILE" "blk v a j \<noteq> 0" and l: "length e = BSIZE" and w: "w = v(blk v a j := e)"
  shows "file_step x inum v a w a"
    and "q < MAXFILE * BSIZE \<Longrightarrow> file_byte w a q = (if q div BSIZE = j then e ! (q mod BSIZE) else file_byte v a q)"
proof -
  note wd = write_data [OF assms]
  have other: "m \<noteq> blk v a j \<Longrightarrow> w m = v m" and here: "w (blk v a j) = e" for m by (simp_all add: w)
  show "file_step x inum v a w a" unfolding file_step_def using wd other j(1) by (auto dest: less_imp_le)
  assume "q < MAXFILE * BSIZE"
  then have q: "q div BSIZE < MAXFILE" by (rule div_BSIZE)
  then have bq: "blk w a (q div BSIZE) = blk v a (q div BSIZE)" using wd(2) by simp
  show "file_byte w a q = (if q div BSIZE = j then e ! (q mod BSIZE) else file_byte v a q)"
  proof (cases "q div BSIZE = j")
    case True
    then show ?thesis using bq j(2) here by (simp add: file_byte_def)
  next
    case False
    then have "blk v a (q div BSIZE) = 0 \<or> blk v a (q div BSIZE) \<noteq> blk v a j"
      using file_wfD(7) [OF wf, of "q div BSIZE" j] q j(1) by auto
    then show ?thesis using False bq other by (auto simp: file_byte_def)
  qed
qed

text \<open>The bytes that an operation takes from its source.\<close>

definition supplies :: "place \<Rightarrow> uchar list \<Rightarrow> 'a kernel_scheme \<Rightarrow> bool" where
  "supplies pl bs s \<longleftrightarrow> (\<forall>tot m. tot + m \<le> length bs \<longrightarrow> copy_from pl tot m s = Ok (0, take m (drop tot bs)))"

lemma supplies_Local: "supplies (Local bs) bs s"
  by (simp add: supplies_def copy_from_def)

lemma stateless_pagetable: "stateless pr = stateless pr' \<Longrightarrow> p_pagetable pr = p_pagetable pr'"
  by (drule arg_cong [of _ _ p_pagetable]) (simp add: stateless_def)

lemma supplies_frame:
  assumes "supplies pl bs s" and "fs_frame ip s t" and "running p i s" and "running p i t"
  shows "supplies pl bs t"
proof -
  have "copy_from pl tot m t = copy_from pl tot m s" for tot m
  proof (cases pl)
    case (At user a)
    have "mem t = mem s" by (rule fs_frame_fields(2) [OF assms(2)])
    moreover have "p_pagetable (procs t p) = p_pagetable (procs s p)" using assms(2) stateless_pagetable unfolding fs_frame_def by blast
    ultimately show ?thesis using At runningD [OF assms(3)] runningD [OF assms(4)] copyin_mem [of t s]
      by (simp add: copy_from_def either_copyin_def with_proc_settled)
  qed (simp add: copy_from_def)
  then show ?thesis using assms(1) by (simp add: supplies_def)
qed

lemma in_tx_running: "in_tx dev p i H k s \<Longrightarrow> running p i s"
  by (simp add: in_tx_def cache_ok_def)

text \<open>The number of blocks that a transfer of \<open>left\<close> bytes at offset \<open>off\<close> touches.\<close>

definition touched :: "nat \<Rightarrow> nat \<Rightarrow> nat" where
  "touched off left = (off mod BSIZE + left + BSIZE - 1) div BSIZE"

lemma touched_step:
  assumes "0 < left" and "m = min left (BSIZE - off mod BSIZE)"
  shows "left - m = 0 \<and> 1 \<le> touched off left \<or> touched off left = Suc (touched (off + m) (left - m))"
proof (cases "left \<le> BSIZE - off mod BSIZE")
  case True
  then have "1 * BSIZE \<le> off mod BSIZE + left + BSIZE - 1" using assms(1) by simp
  then have "1 \<le> touched off left" unfolding touched_def by (simp only: less_eq_div_iff_mult_less_eq BSIZE_def)
  then show ?thesis using True assms by simp
next
  case False
  have lt: "off mod BSIZE < BSIZE" by (simp add: BSIZE_def)
  have "off + (BSIZE - off mod BSIZE) = Suc (off div BSIZE) * BSIZE"
    using lt div_mult_mod_eq [of off BSIZE] unfolding mult_Suc by linarith
  then have "(off + (BSIZE - off mod BSIZE)) mod BSIZE = 0" by simp
  then have z: "(off + m) mod BSIZE = 0" "m = BSIZE - off mod BSIZE" using False assms(2) by simp_all
  have "off mod BSIZE + left + BSIZE - 1 = (left - m + BSIZE - 1) + BSIZE" using False lt z(2) by simp
  then have "touched off left = Suc ((left - m + BSIZE - 1) div BSIZE)" unfolding touched_def by (simp only: div_add_self2) (simp add: BSIZE_def)
  then show ?thesis unfolding touched_def z(1) by simp
qed

lemma nth_splice:
  assumes "k + length bs \<le> length data" and "r < length data"
  shows "(take k data @ bs @ drop (k + length bs) data) ! r = (if k \<le> r \<and> r < k + length bs then bs ! (r - k) else data ! r)"
  using assms by (auto simp: nth_append)

lemma in_block_iff:
  assumes "m \<le> BSIZE - off mod BSIZE"
  shows "q div BSIZE = off div BSIZE \<and> off mod BSIZE \<le> q mod BSIZE \<and> q mod BSIZE < off mod BSIZE + m \<longleftrightarrow> off \<le> q \<and> q < off + m"
    and "off \<le> q \<Longrightarrow> q < off + m \<Longrightarrow> q mod BSIZE - off mod BSIZE = q - off"
proof -
  have lt: "off mod BSIZE < BSIZE" "q mod BSIZE < BSIZE" by (simp_all add: BSIZE_def)
  have o: "off = off div BSIZE * BSIZE + off mod BSIZE" and q: "q = q div BSIZE * BSIZE + q mod BSIZE" by simp_all
  have same: "q div BSIZE = off div BSIZE" if "off \<le> q" "q < off + m"
  proof -
    have "off div BSIZE \<le> q div BSIZE" by (rule div_le_mono [OF that(1)])
    moreover have "q < Suc (off div BSIZE) * BSIZE" using that(2) assms lt(1) o unfolding mult_Suc by linarith
    then have "q div BSIZE < Suc (off div BSIZE)" by (rule less_mult_imp_div_less)
    ultimately show ?thesis by simp
  qed
  show "q div BSIZE = off div BSIZE \<and> off mod BSIZE \<le> q mod BSIZE \<and> q mod BSIZE < off mod BSIZE + m \<longleftrightarrow> off \<le> q \<and> q < off + m"
  proof
    assume a: "q div BSIZE = off div BSIZE \<and> off mod BSIZE \<le> q mod BSIZE \<and> q mod BSIZE < off mod BSIZE + m"
    then have "q = off div BSIZE * BSIZE + q mod BSIZE" using q by simp
    with a o show "off \<le> q \<and> q < off + m" by linarith
  next
    assume a: "off \<le> q \<and> q < off + m"
    then have s: "q div BSIZE = off div BSIZE" using same by blast
    then have "q = off div BSIZE * BSIZE + q mod BSIZE" using q by simp
    with a s o show "q div BSIZE = off div BSIZE \<and> off mod BSIZE \<le> q mod BSIZE \<and> q mod BSIZE < off mod BSIZE + m" by linarith
  qed
  assume "off \<le> q" "q < off + m"
  then have "q = off div BSIZE * BSIZE + q mod BSIZE" using same q by simp
  with o show "q mod BSIZE - off mod BSIZE = q - off" by linarith
qed

definition wrote :: "(uint \<Rightarrow> uchar list) \<Rightarrow> uint list \<Rightarrow> nat \<Rightarrow> uchar list \<Rightarrow> (uint \<Rightarrow> uchar list) \<Rightarrow> uint list \<Rightarrow> bool" where
  "wrote v a off bs w a' \<longleftrightarrow> (\<forall>q<MAXFILE * BSIZE. file_byte w a' q = (if off \<le> q \<and> q < off + length bs then bs ! (q - off) else file_byte v a q)
     \<and> (off \<le> q \<and> q < off + length bs \<longrightarrow> blk w a' (q div BSIZE) \<noteq> 0))"

lemma wrote_Nil: "wrote v a off [] v a"
  by (auto simp: wrote_def)

lemma wrote_append:
  assumes 1: "wrote v a off bs w b" and 2: "wrote w b (off + length bs) cs u c" and step: "file_step x inum w b u c"
  shows "wrote v a off (bs @ cs) u c"
proof -
  have keep: "blk u c (q div BSIZE) \<noteq> 0" if "q < MAXFILE * BSIZE" "blk w b (q div BSIZE) \<noteq> 0" for q
    using step div_BSIZE [OF that(1)] that(2) by (auto simp: file_step_def)
  show ?thesis unfolding wrote_def
  proof (intro allI impI)
    fix q
    assume q: "q < MAXFILE * BSIZE"
    show "file_byte u c q = (if off \<le> q \<and> q < off + length (bs @ cs) then (bs @ cs) ! (q - off) else file_byte v a q)
      \<and> (off \<le> q \<and> q < off + length (bs @ cs) \<longrightarrow> blk u c (q div BSIZE) \<noteq> 0)"
      using 1 [unfolded wrote_def, rule_format, OF q] 2 [unfolded wrote_def, rule_format, OF q] keep [OF q] by (auto simp: nth_append)
  qed
qed

lemma write_block:
  assumes wf: "file_wf x v inum a" and j: "blk v a (off div BSIZE) \<noteq> 0" "off < MAXFILE * BSIZE" and m: "length bs \<le> BSIZE - off mod BSIZE"
    and w: "w = v(blk v a (off div BSIZE) := take (off mod BSIZE) (v (blk v a (off div BSIZE))) @ bs
      @ drop (off mod BSIZE + length bs) (v (blk v a (off div BSIZE))))"
  shows "file_step x inum v a w a" and "wrote v a off bs w a"
proof -
  let ?n = "blk v a (off div BSIZE)" and ?o = "off mod BSIZE"
  let ?e = "take ?o (v ?n) @ bs @ drop (?o + length bs) (v ?n)"
  have lv: "length (v ?n) = BSIZE" by (rule file_wfD(2) [OF wf])
  have lt: "?o < BSIZE" by (simp add: BSIZE_def)
  have fit: "?o + length bs \<le> length (v ?n)" using m lt lv by simp
  have le: "length ?e = BSIZE" using fit lv by simp
  note wd = write_data_step [OF wf div_BSIZE [OF j(2)] j(1) le w]
  show "file_step x inum v a w a" by (rule wd(1))
  have "file_byte w a q = (if off \<le> q \<and> q < off + length bs then bs ! (q - off) else file_byte v a q)" if "q < MAXFILE * BSIZE" for q
  proof (cases "q div BSIZE = off div BSIZE")
    case True
    have "q mod BSIZE < length (v ?n)" using lv by (simp add: BSIZE_def)
    then have "?e ! (q mod BSIZE) = (if ?o \<le> q mod BSIZE \<and> q mod BSIZE < ?o + length bs then bs ! (q mod BSIZE - ?o) else v ?n ! (q mod BSIZE))"
      by (rule nth_splice [OF fit])
    then show ?thesis using wd(2) [OF that] True in_block_iff [OF m, of q] j(1) by (auto simp: file_byte_def)
  next
    case False
    then show ?thesis using wd(2) [OF that] in_block_iff(1) [OF m, of q] by auto
  qed
  moreover have "blk w a (q div BSIZE) \<noteq> 0" if "off \<le> q" "q < off + length bs" for q
  proof -
    have "q div BSIZE = off div BSIZE" using in_block_iff(1) [OF m, of q] that by blast
    then show ?thesis using write_data(2) [OF wf div_BSIZE [OF j(2)] j(1) le w] div_BSIZE [OF j(2)] j(1) by simp
  qed
  ultimately show "wrote v a off bs w a" unfolding wrote_def by blast
qed

lemma extends_wrote: "extends x inum v a w b \<Longrightarrow> wrote w b off bs u c \<Longrightarrow> wrote v a off bs u c"
  unfolding extends_def wrote_def by simp

lemma write_step:
  fixes s :: "'a fsys_scheme"
  assumes tx: "in_tx dev p i {} (Suc (Suc (Suc (Suc (Suc (Suc k)))))) s" and dev: "i_dev (inodes s ip) = dev"
    and wf: "file_wf (sb s) (bview dev s) inum (i_addrs (inodes s ip))" and free: "2 \<le> free_blocks (sb s) (bview dev s)"
    and off: "off < MAXFILE * BSIZE" and left: "0 < left" and m: "m = min left (BSIZE - off mod BSIZE)"
    and pl: "supplies pl bs s" "tot + m \<le> length bs"
  shows "\<exists>u. writei_loop ip pl off tot left s = writei_loop ip pl (off + m) (tot + m) (left - m) u \<and> in_tx dev p i {} k u \<and> fs_frame ip s u
    \<and> i_size (inodes u ip) = i_size (inodes s ip)
    \<and> file_step (sb s) inum (bview dev s) (i_addrs (inodes s ip)) (bview dev u) (i_addrs (inodes u ip))
    \<and> wrote (bview dev s) (i_addrs (inodes s ip)) off (take m (drop tot bs)) (bview dev u) (i_addrs (inodes u ip))
    \<and> free_blocks (sb s) (bview dev s) \<le> free_blocks (sb s) (bview dev u) + 2"
proof -
  let ?x = "sb s" and ?j = "off div BSIZE" and ?o = "off mod BSIZE" and ?bs = "take m (drop tot bs)"
  from bmap_ok [OF tx dev wf div_BSIZE [OF off] free] obtain n t where
    t: "bmap ip ?j s = Ok (n, t)" "in_tx dev p i {} (Suc k) t" "fs_frame ip s t" "i_size (inodes t ip) = i_size (inodes s ip)"
       "extends ?x inum (bview dev s) (i_addrs (inodes s ip)) (bview dev t) (i_addrs (inodes t ip))" "n \<noteq> 0"
       "blk (bview dev t) (i_addrs (inodes t ip)) ?j = n" "free_blocks ?x (bview dev s) \<le> free_blocks ?x (bview dev t) + 2" by blast
  let ?a = "i_addrs (inodes t ip)" and ?v = "bview dev t"
  let ?e = "take ?o (?v n) @ ?bs @ drop (?o + length ?bs) (?v n)"
  have wft: "file_wf ?x ?v inum ?a" using t(5) by (simp add: extends_def)
  have lb: "length ?bs = m" "length ?bs \<le> BSIZE - ?o" using pl(2) m by simp_all
  from tx_bread [OF t(2), of n] obtain bp u where
    u: "bread dev n t = Ok (bp, u)" "in_tx dev p i {n} k u" "buf_at dev n (bufs u) = Some bp" "b_data (bufs u bp) = ?v n"
       "bview dev u = ?v" "tx_frame t u" by auto
  have fu: "fs_frame ip s u" by (rule fs_frame_trans [OF t(3) fs_frame_tx [OF u(6)]])
  have "supplies pl bs u" by (rule supplies_frame [OF pl(1) fu in_tx_running [OF tx] in_tx_running [OF u(2)]])
  then have cp: "copy_from pl tot m u = Ok (0, ?bs)" using pl(2) by (simp add: supplies_def)
  have "?o < BSIZE" by (simp add: BSIZE_def)
  then have le: "length ?e = BSIZE" using lb file_wfD(2) [OF wft, of n] by simp
  note mo = tx_modify [OF u(2) insertI1 u(3) le]
  have "buf_at dev n (bufs (set_data bp ?e u)) = Some bp" using mo(3) u(3) by simp
  from tx_log [OF mo(1) insertI1 this] obtain w where
    w: "log_write bp (set_data bp ?e u) = Ok w" "in_tx dev p i {n} k w" "bview dev w = bview dev (set_data bp ?e u)" "tx_frame (set_data bp ?e u) w"
       "buf_at dev n (bufs w) = Some bp" "n \<in> set (tx_blocks (klog w))" using mo(3) u(3) by auto
  from tx_brelse [OF w(2) _ w(5)] w(6) obtain y where
    y: "brelse bp w = Ok y" "in_tx dev p i {} k y" "bview dev y = bview dev w" "tx_frame w y" by auto
  have fr: "tx_frame t y" using u(6) mo(4) w(4) y(4) tx_frame_trans by blast
  have iy: "inodes y = inodes t" by (rule tx_frame_fsys(2) [OF fr])
  have vy: "bview dev y = ?v(blk ?v ?a ?j := take ?o (?v (blk ?v ?a ?j)) @ ?bs @ drop (?o + length ?bs) (?v (blk ?v ?a ?j)))"
    unfolding t(7) using y(3) w(3) mo(2) u(5) by simp
  note wb = write_block [OF wft _ off lb(2) vy, unfolded t(7), OF t(6)]
  have "writei_loop ip pl off tot left s = writei_loop ip pl (off + m) (tot + m) (left - m) y"
    using left t(1) u(1,4) cp w(1) y(1) lb(1) fs_frame_fields(5) [OF t(3)] dev
    by (subst writei_loop.simps) (simp add: Let_def flip: m)
  moreover have "free_blocks ?x (bview dev y) = free_blocks ?x ?v"
    using write_data(3) [OF wft div_BSIZE [OF off] _ le, of "bview dev y"] vy t(6,7) by (intro free_blocks_cong) simp
  moreover have "fs_frame ip s y" by (rule fs_frame_trans [OF t(3) fs_frame_tx [OF fr]])
  ultimately show ?thesis
    using y(2) t(4,8) file_step_trans [OF extends_step [OF t(5)] wb(1)] extends_wrote [OF t(5) wb(2)] by (auto simp: iy)
qed

lemma writei_loop_ok:
  fixes s :: "'a fsys_scheme"
  assumes "in_tx dev p i {} (6 * touched off left + k) s" and "i_dev (inodes s ip) = dev"
    and "file_wf (sb s) (bview dev s) inum (i_addrs (inodes s ip))" and "2 * touched off left \<le> free_blocks (sb s) (bview dev s)"
    and "off + left \<le> MAXFILE * BSIZE" and "supplies pl bs s" and "tot + left = length bs"
  shows "\<exists>u. writei_loop ip pl off tot left s = Ok (tot + left, off + left, u) \<and> in_tx dev p i {} k u \<and> fs_frame ip s u
    \<and> i_size (inodes u ip) = i_size (inodes s ip)
    \<and> file_step (sb s) inum (bview dev s) (i_addrs (inodes s ip)) (bview dev u) (i_addrs (inodes u ip))
    \<and> wrote (bview dev s) (i_addrs (inodes s ip)) off (drop tot bs) (bview dev u) (i_addrs (inodes u ip))"
  using assms
proof (induction left arbitrary: off tot s rule: less_induct)
  case (less left)
  note prems = less.prems
  show ?case
  proof (cases "left = 0")
    case True
    then show ?thesis using prems fs_frame_tx [OF tx_frame_refl, of ip s] in_tx_mono [OF prems(1), of k]
        extends_step [OF extends_refl [OF prems(3)]] wrote_Nil by (simp add: writei_loop.simps)
  next
    case False
    define m where "m = min left (BSIZE - off mod BSIZE)"
    have mp: "0 < m" using False block_rest [of left off] by (simp add: m_def)
    have left: "0 < left" using False by simp
    from touched_step [OF left m_def] have t1: "1 \<le> touched off left" "left - m \<noteq> 0 \<Longrightarrow> touched off left = Suc (touched (off + m) (left - m))" by auto
    define c where "c = touched off left - 1"
    have c: "touched off left = Suc c" using t1(1) by (simp add: c_def)
    have tx: "in_tx dev p i {} (Suc (Suc (Suc (Suc (Suc (Suc (6 * c + k))))))) s"
      by (rule in_tx_mono [OF prems(1)]) (simp add: c)
    have off: "off < MAXFILE * BSIZE" "2 \<le> free_blocks (sb s) (bview dev s)" "tot + m \<le> length bs"
      using prems(4,5,7) left c by (simp_all add: m_def)
    from write_step [OF tx prems(2,3) off(2,1) left m_def prems(6) off(3)] obtain u where
      u: "writei_loop ip pl off tot left s = writei_loop ip pl (off + m) (tot + m) (left - m) u" "in_tx dev p i {} (6 * c + k) u" "fs_frame ip s u"
         "i_size (inodes u ip) = i_size (inodes s ip)"
         "file_step (sb s) inum (bview dev s) (i_addrs (inodes s ip)) (bview dev u) (i_addrs (inodes u ip))"
         "wrote (bview dev s) (i_addrs (inodes s ip)) off (take m (drop tot bs)) (bview dev u) (i_addrs (inodes u ip))"
         "free_blocks (sb s) (bview dev s) \<le> free_blocks (sb s) (bview dev u) + 2" by blast
    note fu = fs_frame_fields [OF u(3)]
    have sbu: "sb u = sb s" by (rule fu(1))
    have wfu: "file_wf (sb u) (bview dev u) inum (i_addrs (inodes u ip))" using u(5) by (simp add: file_step_def sbu)
    show ?thesis
    proof (cases "left - m = 0")
      case True
      then have "m = left" "take m (drop tot bs) = drop tot bs" using prems(7) by (simp_all add: m_def)
      then show ?thesis using u in_tx_mono [OF u(2), of k] by (simp add: writei_loop.simps)
    next
      case nz: False
      have tc: "touched (off + m) (left - m) = c" using t1(2) [OF nz] c by simp
      have "left - m < left" using mp left by simp
      from less.IH [OF this, of "off + m" u "tot + m"] u(2) fu(5) prems(2) wfu u(7) prems(4,5,7) c nz
        supplies_frame [OF prems(6) u(3) in_tx_running [OF prems(1)] in_tx_running [OF u(2)]] mp
      obtain w where
        w: "writei_loop ip pl (off + m) (tot + m) (left - m) u = Ok (tot + left, off + left, w)" "in_tx dev p i {} k w" "fs_frame ip u w"
           "i_size (inodes w ip) = i_size (inodes u ip)"
           "file_step (sb s) inum (bview dev u) (i_addrs (inodes u ip)) (bview dev w) (i_addrs (inodes w ip))"
           "wrote (bview dev u) (i_addrs (inodes u ip)) (off + m) (drop (tot + m) bs) (bview dev w) (i_addrs (inodes w ip))"
        unfolding tc sbu by auto
      have "length (take m (drop tot bs)) = m" "take m (drop tot bs) @ drop (tot + m) bs = drop tot bs"
        using off(3) by (simp_all add: add.commute flip: drop_drop)
      then have "wrote (bview dev s) (i_addrs (inodes s ip)) off (drop tot bs) (bview dev w) (i_addrs (inodes w ip))"
        using wrote_append [OF u(6) _ w(5), of "drop (tot + m) bs"] w(6) by simp
      then show ?thesis using u(1,4) w(1,2,4) fs_frame_trans [OF u(3) w(3)] file_step_trans [OF u(5) w(5)] by simp
    qed
  qed
qed

lemma writei_ok:
  fixes s :: "'a fsys_scheme"
  assumes tx: "in_tx dev p i {} (6 * touched (unat off) (length bs) + Suc k) s" and dev: "i_dev (inodes s ip) = dev"
    and wf: "file_wf (sb s) (bview dev s) (i_inum (inodes s ip)) (i_addrs (inodes s ip))"
    and free: "2 * touched (unat off) (length bs) \<le> free_blocks (sb s) (bview dev s)"
    and off: "off \<le> i_size (inodes s ip)" "unat off + length bs \<le> MAXFILE * BSIZE" and pl: "supplies pl bs s"
  shows "\<exists>t. writei ip pl off (of_nat (length bs)) s = Ok (int (length bs), t) \<and> in_tx dev p i {} k t \<and> fs_frame ip s t
    \<and> unat (i_size (inodes t ip)) = max (unat (i_size (inodes s ip))) (unat off + length bs)
    \<and> file_step (sb s) (i_inum (inodes s ip)) (bview dev s) (i_addrs (inodes s ip)) (bview dev t) (i_addrs (inodes t ip))
    \<and> wrote (bview dev s) (i_addrs (inodes s ip)) (unat off) bs (bview dev t) (i_addrs (inodes t ip))
    \<and> disk_inode (sb s) (bview dev t) (i_inum (inodes s ip)) = stored (inodes t ip)"
proof -
  let ?x = "sb s" and ?n = "length bs" and ?inum = "i_inum (inodes s ip)"
  have lim: "unat off + ?n < 2 ^ 32" using off(2) by (simp add: MAXFILE_def NDIRECT_def NINDIRECT_def BSIZE_def)
  have un1: "unat (of_nat ?n :: uint) = ?n" using lim by (simp add: unat_of_nat)
  have "(unat off + ?n) mod 2 ^ LENGTH(32) = unat off + ?n" by (rule mod_less) (use lim in simp)
  then have un: "unat (of_nat ?n :: uint) = ?n" "unat (off + of_nat ?n) = unat off + ?n"
    unfolding unat_word_ariths(1) [of off "of_nat ?n"] un1 by simp_all
  have guards: "\<not> (off > i_size (inodes s ip) \<or> off + of_nat ?n < off)" "\<not> unat (off + of_nat ?n) > MAXFILE * BSIZE"
    using off un by (simp_all add: word_less_nat_alt word_le_nat_alt)
  from writei_loop_ok [OF tx dev wf free off(2) pl, of 0] obtain u where
    u: "writei_loop ip pl (unat off) 0 ?n s = Ok (?n, unat off + ?n, u)" "in_tx dev p i {} (Suc k) u" "fs_frame ip s u"
       "i_size (inodes u ip) = i_size (inodes s ip)"
       "file_step ?x ?inum (bview dev s) (i_addrs (inodes s ip)) (bview dev u) (i_addrs (inodes u ip))"
       "wrote (bview dev s) (i_addrs (inodes s ip)) (unat off) bs (bview dev u) (i_addrs (inodes u ip))" by auto
  define w where "w = (if unat off + ?n > unat (i_size (inodes u ip)) then upd_inode ip (\<lambda>x. x\<lparr>i_size := of_nat (unat off + ?n)\<rparr>) u else u)"
  have "unat (of_nat (unat off + ?n) :: uint) = unat off + ?n" using un(2) by simp
  then have size: "unat (i_size (inodes w ip)) = max (unat (i_size (inodes s ip))) (unat off + ?n)" using u(4) by (simp add: w_def)
  have fw: "fs_frame ip s w" using u(3) fs_frame_trans [OF u(3) fs_frame_upd_size] by (simp add: w_def)
  have vw: "bview dev w = bview dev u" "i_addrs (inodes w ip) = i_addrs (inodes u ip)" "in_tx dev p i {} (Suc k) w" using u(2) by (simp_all add: w_def)
  note fs = fs_frame_fields [OF fw]
  have wfu: "file_wf ?x (bview dev w) ?inum (i_addrs (inodes w ip))" using u(5) by (simp add: file_step_def vw)
  note la = file_wfD(1) [OF wfu]
  from iupdate_ok [OF vw(3) _ _ la] fs dev obtain t where
    t: "iupdate ip w = Ok t" "in_tx dev p i {} k t" "tx_frame w t"
       "bview dev t = (bview dev w)(IBLOCK ?inum ?x := put_dinode (unat ?inum mod IPB) (stored (inodes w ip)) (bview dev w (IBLOCK ?inum ?x)))"
    by (auto simp: tx_step_def)
  have it: "inodes t = inodes w" by (rule tx_frame_fsys(2) [OF t(3)])
  have ipb: "unat ?inum mod IPB < IPB" by (simp add: IPB_def BSIZE_def DINODE_SIZE_def)
  have wd: "wf_dinode (stored (inodes w ip))" using la by (simp add: wf_dinode_def stored_def)
  note lw = file_wfD(2) [OF wfu]
  note ib = write_inode_block [OF wfu length_put_dinode [OF wd ipb lw] t(4)]
  have step: "file_step ?x ?inum (bview dev w) (i_addrs (inodes w ip)) (bview dev t) (i_addrs (inodes t ip))"
    unfolding file_step_def it using ib by auto
  have "wrote (bview dev w) (i_addrs (inodes w ip)) (unat off + ?n) [] (bview dev t) (i_addrs (inodes t ip))"
  proof -
    have "file_byte (bview dev t) (i_addrs (inodes w ip)) q = file_byte (bview dev w) (i_addrs (inodes w ip)) q" if "q < MAXFILE * BSIZE" for q
    proof -
      have j: "q div BSIZE \<le> MAXFILE" using div_BSIZE [OF that] by simp
      then show ?thesis using ib(2,4) file_wfD(6) [OF wfu j] by (auto simp: file_byte_def)
    qed
    then show ?thesis by (auto simp: wrote_def it)
  qed
  from wrote_append [OF u(6) [folded vw(1,2)] this step]
  have "wrote (bview dev s) (i_addrs (inodes s ip)) (unat off) bs (bview dev t) (i_addrs (inodes t ip))" by simp
  moreover have "writei ip pl off (of_nat ?n) s = Ok (int ?n, t)"
    unfolding writei_def if_not_P [OF guards(1)] if_not_P [OF guards(2)] un(1) using u(1) t(1) by (simp add: Let_def flip: w_def)
  moreover have "disk_inode ?x (bview dev t) ?inum = stored (inodes t ip)"
    using inode_update_view [OF wd lw t(4)] by (simp add: it)
  moreover have "fs_frame ip s t" by (rule fs_frame_trans [OF fw fs_frame_tx [OF t(3)]])
  ultimately show ?thesis using t(2) size file_step_trans [OF u(5) [folded vw(1,2)] step] by (simp add: it)
qed

subsection \<open>Reading\<close>

lemma bmap_mapped:
  fixes s :: "'a fsys_scheme"
  assumes tx: "in_tx dev p i {} (Suc k) s" and dev: "i_dev (inodes s ip) = dev" and bn: "bn < MAXFILE"
    and n: "blk (bview dev s) (i_addrs (inodes s ip)) bn \<noteq> 0"
  shows "\<exists>t. bmap ip bn s = Ok (blk (bview dev s) (i_addrs (inodes s ip)) bn, t) \<and> in_tx dev p i {} (Suc k) t \<and> bview dev t = bview dev s \<and> tx_frame s t"
proof (cases "bn < NDIRECT")
  case True
  then show ?thesis using n tx by (auto simp: bmap_parts addr_slot_def blk_def Let_def)
next
  case False
  let ?ind = "i_addrs (inodes s ip) ! NDIRECT"
  have b: "blk (bview dev s) (i_addrs (inodes s ip)) bn = word_at (bn - NDIRECT) (bview dev s ?ind)" "?ind \<noteq> 0" "bn - NDIRECT < NINDIRECT"
    using False bn n by (auto simp: blk_def MAXFILE_def split: if_splits)
  from tx_block [OF tx, of ?ind] obtain bp t u where
    t: "bread dev ?ind s = Ok (bp, t)" "b_data (bufs t bp) = bview dev s ?ind" "brelse bp t = Ok u" "in_tx dev p i {} (Suc k) u"
       "bview dev u = bview dev s" "tx_step dev {} s u" by blast
  have "bmap ip bn s = Ok (blk (bview dev s) (i_addrs (inodes s ip)) bn, u)"
    using False b n t(1-3) dev by (simp add: bmap_parts addr_slot_def indirect_slot_def Let_def)
  then show ?thesis using t(4,5) tx_step_frame [OF t(6)] by blast
qed

lemma readi_loop_ok:
  fixes s :: "'a fsys_scheme"
  assumes "in_tx dev p i {} (Suc k) s" and "i_dev (inodes s ip) = dev"
    and "file_wf (sb s) (bview dev s) inum (i_addrs (inodes s ip))" and "off + left \<le> MAXFILE * BSIZE"
    and "\<forall>q. off \<le> q \<and> q < off + left \<longrightarrow> blk (bview dev s) (i_addrs (inodes s ip)) (q div BSIZE) \<noteq> 0"
  shows "\<exists>t. readi_loop ip (Local l) off tot left s
      = Ok (int (tot + left), Local (l @ map (file_byte (bview dev s) (i_addrs (inodes s ip))) [off..<off + left]), t)
    \<and> in_tx dev p i {} (Suc k) t \<and> bview dev t = bview dev s \<and> tx_frame s t"
  using assms
proof (induction left arbitrary: off tot l s rule: less_induct)
  case (less left)
  note prems = less.prems
  show ?case
  proof (cases "left = 0")
    case True
    then show ?thesis using prems(1) by (simp add: readi_loop.simps)
  next
    case False
    let ?v = "bview dev s" and ?a = "i_addrs (inodes s ip)" and ?o = "off mod BSIZE"
    define m where "m = min left (BSIZE - ?o)"
    have mp: "0 < m" "m \<le> left" "m \<le> BSIZE - ?o" using False block_rest [of left off] by (simp_all add: m_def)
    have off: "off < MAXFILE * BSIZE" using prems(4) False by simp
    have nz: "blk ?v ?a (off div BSIZE) \<noteq> 0" using prems(5) False by simp
    let ?n = "blk ?v ?a (off div BSIZE)"
    from bmap_mapped [OF prems(1,2) div_BSIZE [OF off] nz] obtain t where
      t: "bmap ip (off div BSIZE) s = Ok (?n, t)" "in_tx dev p i {} (Suc k) t" "bview dev t = ?v" "tx_frame s t" by blast
    from tx_block [OF t(2), of ?n] obtain bp u w where
      u: "bread dev ?n t = Ok (bp, u)" "b_data (bufs u bp) = ?v ?n" "brelse bp u = Ok w" "in_tx dev p i {} (Suc k) w"
         "bview dev w = ?v" "tx_step dev {} t w" unfolding t(3) by blast
    have fr: "tx_frame s w" by (rule tx_frame_trans [OF t(4) tx_step_frame [OF u(6)]])
    note fw = tx_frame_fsys [OF fr] and ft = tx_frame_fsys(2) [OF t(4)]
    have chunk: "take m (drop ?o (?v ?n)) = map (file_byte ?v ?a) [off..<off + m]"
    proof (rule nth_equalityI)
      have "?o < BSIZE" by (simp add: BSIZE_def)
      then show "length (take m (drop ?o (?v ?n))) = length (map (file_byte ?v ?a) [off..<off + m])"
        using mp(3) file_wfD(2) [OF prems(3), of ?n] by simp
      fix r
      assume "r < length (take m (drop ?o (?v ?n)))"
      then have r: "r < m" "?o + r < length (?v ?n)" by (auto simp: less_diff_conv add.commute)
      have q: "(off + r) div BSIZE = off div BSIZE" "?o \<le> (off + r) mod BSIZE" using in_block_iff(1) [OF mp(3), of "off + r"] r(1) by auto
      moreover have "(off + r) mod BSIZE - ?o = r" using in_block_iff(2) [OF mp(3), of "off + r"] r(1) by simp
      ultimately have "(off + r) mod BSIZE = ?o + r" by linarith
      then show "take m (drop ?o (?v ?n)) ! r = map (file_byte ?v ?a) [off..<off + m] ! r" using r q nz by (simp add: file_byte_def)
    qed
    have eq: "readi_loop ip (Local l) off tot left s = readi_loop ip (Local (l @ map (file_byte ?v ?a) [off..<off + m])) (off + m) (tot + m) (left - m) w"
      using False t(1) u(1-3) prems(2) ft chunk by (subst readi_loop.simps) (simp add: Let_def copy_to_def flip: m_def)
    have "left - m < left" using mp False by simp
    from less.IH [OF this u(4), of "off + m" "l @ map (file_byte ?v ?a) [off..<off + m]" "tot + m"] prems(2-5) mp
    obtain y where y: "readi_loop ip (Local (l @ map (file_byte ?v ?a) [off..<off + m])) (off + m) (tot + m) (left - m) w
        = Ok (int (tot + m + (left - m)), Local ((l @ map (file_byte ?v ?a) [off..<off + m]) @ map (file_byte ?v ?a) [off + m..<off + m + (left - m)]), y)"
      "in_tx dev p i {} (Suc k) y" "bview dev y = ?v" "tx_frame w y" unfolding fw u(5) by auto
    have "[off..<off + left] = [off..<off + m] @ [off + m..<off + m + (left - m)]" 
      using upt_add_eq_append [of off "off + m" "left - m"] mp(2) by simp
    then show ?thesis using eq y tx_frame_trans [OF fr y(4)] mp(2) by auto
  qed
qed

lemma readi_ok:
  fixes s :: "'a fsys_scheme"
  assumes tx: "in_tx dev p i {} (Suc k) s" and dev: "i_dev (inodes s ip) = dev"
    and wf: "file_wf (sb s) (bview dev s) inum (i_addrs (inodes s ip))" and off: "unat off + unat n \<le> unat (i_size (inodes s ip))"
    and size: "unat (i_size (inodes s ip)) \<le> MAXFILE * BSIZE"
    and full: "\<forall>q. unat off \<le> q \<and> q < unat off + unat n \<longrightarrow> blk (bview dev s) (i_addrs (inodes s ip)) (q div BSIZE) \<noteq> 0"
  shows "\<exists>t. readi ip (Local []) off n s
      = Ok (int (unat n), Local (map (file_byte (bview dev s) (i_addrs (inodes s ip))) [unat off..<unat off + unat n]), t)
    \<and> in_tx dev p i {} (Suc k) t \<and> bview dev t = bview dev s \<and> tx_frame s t"
proof -
  have "unat off + unat n < 2 ^ LENGTH(32)" using off unsigned_less [of "i_size (inodes s ip)", where ?'a = nat] by simp
  then have un: "unat (off + n) = unat off + unat n" unfolding unat_word_ariths(1) by (rule mod_less)
  have g: "\<not> (off > i_size (inodes s ip) \<or> off + n < off)" "\<not> off + n > i_size (inodes s ip)"
    using off un by (simp_all add: word_less_nat_alt)
  have "unat off + unat n \<le> MAXFILE * BSIZE" using off size by simp
  from readi_loop_ok [OF tx dev wf this full, of "[]" 0] show ?thesis
    unfolding readi_def Let_def if_not_P [OF g(1)] if_not_P [OF g(2)] by simp
qed

subsection \<open>Properties\<close>

text \<open>
  C8. \<^verbatim>\<open>iupdate\<close> stores an inode and \<^verbatim>\<open>ilock\<close> loads it again. After \<^verbatim>\<open>iupdate\<close> the inode with this number on the
  disk (as seen through the cache) holds the type, device numbers, link count, size and addresses of the
  inode in memory; the other inodes of the block, and all other blocks, are as before. Loading the number
  into any slot of the inode table then gives these fields back.
\<close>

theorem iupdate_load_roundtrip:
  fixes s :: "'a fsys_scheme"
  assumes "in_tx dev p i {} (Suc (Suc k)) s" and "i_dev (inodes s ip) = dev" and "length (i_addrs (inodes s ip)) = NDIRECT + 1"
    and "i_type (inodes s ip) \<noteq> 0" and "i_dev y = dev" and "i_inum y = i_inum (inodes s ip)"
  shows "\<exists>t u. iupdate ip s = Ok t
    \<and> disk_inode (sb s) (bview dev t) = (disk_inode (sb s) (bview dev s))(i_inum (inodes s ip) := stored (inodes s ip))
    \<and> (\<forall>n. n \<noteq> IBLOCK (i_inum (inodes s ip)) (sb s) \<longrightarrow> bview dev t n = bview dev s n)
    \<and> load_inode j (upd_inode j (\<lambda>_. y) t) = Ok u \<and> stored (inodes u j) = stored (inodes s ip) \<and> i_valid (inodes u j) = 1"
proof -
  let ?n = "i_inum (inodes s ip)"
  from iupdate_ok [OF assms(1) _ assms(2,3)] obtain t where
    t: "iupdate ip s = Ok t" "in_tx dev p i {} (Suc k) t" "tx_step dev {} s t"
       "bview dev t = (bview dev s)(IBLOCK ?n (sb s) := put_dinode (unat ?n mod IPB) (stored (inodes s ip)) (bview dev s (IBLOCK ?n (sb s))))"
    by blast
  have sbt: "sb t = sb s" by (rule tx_frame_fsys(1) [OF tx_step_frame [OF t(3)]])
  have "wf_dinode (stored (inodes s ip))" using assms(3) by (simp add: wf_dinode_def stored_def)
  from inode_update_view [OF this in_tx_length [OF assms(1)] t(4)]
  have dv: "disk_inode (sb s) (bview dev t) = (disk_inode (sb s) (bview dev s))(?n := stored (inodes s ip))" .
  let ?t = "upd_inode j (\<lambda>_. y) t"
  have tx: "in_tx dev p i {} (Suc k) ?t" using t(2) by simp
  from load_inode_ok [OF tx, of j] dv assms(4-6) sbt obtain u where "load_inode j ?t = Ok u" "stored (inodes u j) = stored (inodes s ip)" "i_valid (inodes u j) = 1"
    by (auto simp: stored_def)
  then show ?thesis using t(1,4) dv by auto
qed

lemma fs_example_inode: "inodes fs_example j = \<lparr>i_dev = 1, i_inum = 1, i_ref = 0, i_lock = initsleeplock [], i_valid = 0, i_type = 0,
    i_major = 0, i_minor = 0, i_nlink = 0, i_size = 0, i_addrs = replicate 13 0\<rparr>"
  by (simp add: fs_example_def fslog.defs)

theorem iupdate_load_roundtrip_witness:
  "\<exists>t u. iupdate 7 (upd_inode 7 (\<lambda>x. x\<lparr>i_type := T_FILE, i_size := 9\<rparr>) fs_example) = Ok t
     \<and> load_inode 3 (upd_inode 3 (\<lambda>_. inodes fs_example 3) t) = Ok u \<and> i_size (inodes u 3) = 9 \<and> i_type (inodes u 3) = T_FILE"
proof -
  let ?s = "upd_inode 7 (\<lambda>x. x\<lparr>i_type := T_FILE, i_size := 9\<rparr>) fs_example"
  have tx: "in_tx 1 2 0 {} (Suc (Suc 0)) ?s" using in_tx_mono [OF fs_example_tx] by simp
  from iupdate_load_roundtrip [OF tx, of 7 "inodes fs_example 3" 3] obtain t u where
    t: "iupdate 7 ?s = Ok t" "load_inode 3 (upd_inode 3 (\<lambda>_. inodes fs_example 3) t) = Ok u" "stored (inodes u 3) = stored (inodes ?s 7)"
    by (auto simp: fs_example_inode NDIRECT_def T_FILE_def)
  moreover have "i_size (inodes u 3) = 9 \<and> i_type (inodes u 3) = T_FILE" using t(3) by (simp add: stored_def fs_example_inode)
  ultimately show ?thesis by blast
qed

text \<open>
  C2. Writing to a file, at an offset within it or at its end, inside a transaction with room for the blocks
  that the write touches and enough free blocks on the disk. \<^verbatim>\<open>writei\<close> writes all the bytes: the file then
  has them at the offset and is unchanged elsewhere, through direct and indirect blocks and with new
  blocks allocated where they were missing; its size grows to the end of the write if that is further, and
  the inode on the disk is brought up to date. The blocks of the file remain different from each other and
  marked in use, and every other block in use keeps its contents.
\<close>

theorem writei_updates_file:
  fixes s :: "'a fsys_scheme"
  assumes "in_tx dev p i {} (6 * touched (unat off) (length bs) + Suc k) s" and "i_dev (inodes s ip) = dev"
    and "file_wf (sb s) (bview dev s) (i_inum (inodes s ip)) (i_addrs (inodes s ip))"
    and "2 * touched (unat off) (length bs) \<le> free_blocks (sb s) (bview dev s)"
    and "off \<le> i_size (inodes s ip)" and "unat off + length bs \<le> MAXFILE * BSIZE" and "supplies pl bs s"
  shows "\<exists>t. writei ip pl off (of_nat (length bs)) s = Ok (int (length bs), t)
    \<and> (\<forall>q<MAXFILE * BSIZE. file_byte (bview dev t) (i_addrs (inodes t ip)) q
         = (if unat off \<le> q \<and> q < unat off + length bs then bs ! (q - unat off) else file_byte (bview dev s) (i_addrs (inodes s ip)) q))
    \<and> unat (i_size (inodes t ip)) = max (unat (i_size (inodes s ip))) (unat off + length bs)
    \<and> disk_inode (sb s) (bview dev t) (i_inum (inodes s ip)) = stored (inodes t ip)
    \<and> file_wf (sb s) (bview dev t) (i_inum (inodes s ip)) (i_addrs (inodes t ip))
    \<and> (\<forall>n. in_file (sb s) (bview dev s) (i_inum (inodes s ip)) n \<longrightarrow> (\<forall>j\<le>MAXFILE. blk (bview dev s) (i_addrs (inodes s ip)) j \<noteq> n)
         \<longrightarrow> bview dev t n = bview dev s n)
    \<and> (\<forall>j. j \<noteq> ip \<longrightarrow> inodes t j = inodes s j) \<and> disk t = disk s"
proof -
  from writei_ok [OF assms] obtain t where
    t: "writei ip pl off (of_nat (length bs)) s = Ok (int (length bs), t)" "fs_frame ip s t"
       "unat (i_size (inodes t ip)) = max (unat (i_size (inodes s ip))) (unat off + length bs)"
       "file_step (sb s) (i_inum (inodes s ip)) (bview dev s) (i_addrs (inodes s ip)) (bview dev t) (i_addrs (inodes t ip))"
       "wrote (bview dev s) (i_addrs (inodes s ip)) (unat off) bs (bview dev t) (i_addrs (inodes t ip))"
       "disk_inode (sb s) (bview dev t) (i_inum (inodes s ip)) = stored (inodes t ip)" by blast
  note fs = fs_frame_fields(3,4) [OF t(2)]
  have "file_wf (sb s) (bview dev t) (i_inum (inodes s ip)) (i_addrs (inodes t ip))"
    and "\<forall>n. in_file (sb s) (bview dev s) (i_inum (inodes s ip)) n \<longrightarrow> (\<forall>j\<le>MAXFILE. blk (bview dev s) (i_addrs (inodes s ip)) j \<noteq> n)
         \<longrightarrow> bview dev t n = bview dev s n" using t(4) unfolding file_step_def by blast+
  moreover have "\<forall>q<MAXFILE * BSIZE. file_byte (bview dev t) (i_addrs (inodes t ip)) q
         = (if unat off \<le> q \<and> q < unat off + length bs then bs ! (q - unat off) else file_byte (bview dev s) (i_addrs (inodes s ip)) q)"
    using t(5) unfolding wrote_def by blast
  ultimately show ?thesis using t(1,3,6) fs by blast
qed

lemma fs_example_file: "file_wf (sb fs_example) (bview 1 fs_example) 1 (replicate 13 0)"
proof -
  have b: "blk v (replicate 13 0) j = 0" if "j \<le> MAXFILE" for v j using that by (simp add: blk_def NDIRECT_def nth_replicate)
  have i: "IBLOCK 1 (sb fs_example) = 32" by (simp add: IBLOCK_def IPB_def BSIZE_def DINODE_SIZE_def fs_example_sb)
  have m: "BBLOCK (of_nat c) (sb fs_example) = 45" if "c < 1000" for c
    using BBLOCK_of_nat [of c "sb fs_example"] that by (simp add: fs_example_sb BPB_def BSIZE_def)
  have "block_used (sb fs_example) (bview 1 fs_example) c" if "c < 1000" "meta (sb fs_example) 1 (of_nat c)" for c
  proof -
    have "(of_nat c :: uint) = 32 \<or> (of_nat c :: uint) = 45" using that m by (auto simp: meta_def i fs_example_sb)
    then have "unat (of_nat c :: uint) = 32 \<or> unat (of_nat c :: uint) = 45" by auto
    then have "c = 32 \<or> c = 45" using that(1) by (simp add: unat_of_nat)
    then show ?thesis using fs_example_used [of c] by (auto simp: bit_numeral_rec)
  qed
  moreover have "block_used (sb fs_example) (bview 1 fs_example) 0" using fs_example_used [of 0] by (simp add: bit_numeral_rec)
  ultimately show ?thesis unfolding file_wf_def using b m i by (simp add: fs_example_sb NDIRECT_def fs_example_view)
qed

lemma fs_example_free: "2 \<le> free_blocks (sb fs_example) (bview 1 fs_example)"
proof -
  have "{1, 4} \<subseteq> {c. c < unat (sb_size (sb fs_example)) \<and> \<not> block_used (sb fs_example) (bview 1 fs_example) c}"
    using fs_example_used [of 1] fs_example_used [of 4] by (simp add: fs_example_sb bit_numeral_rec)
  then have "card {1 :: nat, 4} \<le> free_blocks (sb fs_example) (bview 1 fs_example)" unfolding free_blocks_def by (intro card_mono) auto
  then show ?thesis by simp
qed

lemma fs_example_write:
  "in_tx 1 2 0 {} (6 * touched (unat (0 :: uint)) (length [104 :: uchar, 105]) + Suc (Suc 0)) fs_example"
  "i_dev (inodes fs_example 7) = 1"
  "file_wf (sb fs_example) (bview 1 fs_example) (i_inum (inodes fs_example 7)) (i_addrs (inodes fs_example 7))"
  "2 * touched (unat (0 :: uint)) (length [104 :: uchar, 105]) \<le> free_blocks (sb fs_example) (bview 1 fs_example)"
  "0 \<le> i_size (inodes fs_example 7)" "unat (0 :: uint) + length [104 :: uchar, 105] \<le> MAXFILE * BSIZE"
  "unat (i_size (inodes fs_example 7)) \<le> MAXFILE * BSIZE"
proof -
  have c: "touched (unat (0 :: uint)) (length [104 :: uchar, 105]) = 1" by (simp add: touched_def BSIZE_def)
  show "in_tx 1 2 0 {} (6 * touched (unat (0 :: uint)) (length [104 :: uchar, 105]) + Suc (Suc 0)) fs_example"
    by (rule in_tx_mono [OF fs_example_tx]) (unfold c, simp)
  show "2 * touched (unat (0 :: uint)) (length [104 :: uchar, 105]) \<le> free_blocks (sb fs_example) (bview 1 fs_example)"
    using fs_example_free by (simp only: c)
  show "unat (0 :: uint) + length [104 :: uchar, 105] \<le> MAXFILE * BSIZE" by (simp add: MAXFILE_def NDIRECT_def BSIZE_def)
  show "file_wf (sb fs_example) (bview 1 fs_example) (i_inum (inodes fs_example 7)) (i_addrs (inodes fs_example 7))"
    using fs_example_file by (simp add: fs_example_inode)
qed (simp_all add: fs_example_inode)

theorem writei_updates_file_witness:
  "\<exists>t. writei 7 (Local [104, 105]) 0 2 fs_example = Ok (2, t) \<and> file_byte (bview 1 t) (i_addrs (inodes t 7)) 1 = 105 \<and> i_size (inodes t 7) = 2"
proof -
  have tx: "in_tx 1 2 0 {} (6 * touched (unat (0 :: uint)) (length [104 :: uchar, 105]) + Suc 0) fs_example"
    using in_tx_mono [OF fs_example_write(1)] by simp
  from writei_updates_file [OF tx fs_example_write(2-6) supplies_Local] obtain t where
    t: "writei 7 (Local [104, 105]) 0 (of_nat (length [104 :: uchar, 105])) fs_example = Ok (int (length [104 :: uchar, 105]), t)"
       "\<forall>q<MAXFILE * BSIZE. file_byte (bview 1 t) (i_addrs (inodes t 7)) q
         = (if unat (0 :: uint) \<le> q \<and> q < unat (0 :: uint) + length [104 :: uchar, 105] then [104, 105] ! (q - unat (0 :: uint))
            else file_byte (bview 1 fs_example) (i_addrs (inodes fs_example 7)) q)"
       "unat (i_size (inodes t 7)) = max (unat (i_size (inodes fs_example 7))) (unat (0 :: uint) + length [104 :: uchar, 105])" by blast
  have "(1 :: nat) < MAXFILE * BSIZE" by (simp add: MAXFILE_def NDIRECT_def BSIZE_def)
  then have "file_byte (bview 1 t) (i_addrs (inodes t 7)) 1 = 105" using t(2) by simp
  moreover have "i_size (inodes t 7) = 2" using t(3) by (simp add: word_unat_eq_iff fs_example_inode)
  ultimately show ?thesis using t(1) by auto
qed

text \<open>
  C3. What was written is read back: after a successful \<^verbatim>\<open>writei\<close>, \<^verbatim>\<open>readi\<close> of the same range returns exactly the
  bytes that were written.
\<close>

theorem readi_after_writei:
  fixes s :: "'a fsys_scheme"
  assumes "in_tx dev p i {} (6 * touched (unat off) (length bs) + Suc (Suc k)) s" and "i_dev (inodes s ip) = dev"
    and "file_wf (sb s) (bview dev s) (i_inum (inodes s ip)) (i_addrs (inodes s ip))"
    and "2 * touched (unat off) (length bs) \<le> free_blocks (sb s) (bview dev s)"
    and "off \<le> i_size (inodes s ip)" and "unat off + length bs \<le> MAXFILE * BSIZE" and "supplies pl bs s"
    and "unat (i_size (inodes s ip)) \<le> MAXFILE * BSIZE"
  shows "\<exists>t u. writei ip pl off (of_nat (length bs)) s = Ok (int (length bs), t)
    \<and> readi ip (Local []) off (of_nat (length bs)) t = Ok (int (length bs), Local bs, u)"
proof -
  from writei_ok [OF assms(1-7)] obtain t where
    t: "writei ip pl off (of_nat (length bs)) s = Ok (int (length bs), t)" "in_tx dev p i {} (Suc k) t" "fs_frame ip s t"
       "unat (i_size (inodes t ip)) = max (unat (i_size (inodes s ip))) (unat off + length bs)"
       "file_step (sb s) (i_inum (inodes s ip)) (bview dev s) (i_addrs (inodes s ip)) (bview dev t) (i_addrs (inodes t ip))"
       "wrote (bview dev s) (i_addrs (inodes s ip)) (unat off) bs (bview dev t) (i_addrs (inodes t ip))" by blast
  note fs = fs_frame_fields [OF t(3)]
  have un: "unat (of_nat (length bs) :: uint) = length bs"
    using assms(6) by (simp add: unat_of_nat MAXFILE_def NDIRECT_def NINDIRECT_def BSIZE_def)
  have wf: "file_wf (sb t) (bview dev t) (i_inum (inodes s ip)) (i_addrs (inodes t ip))" using t(5) by (simp add: file_step_def fs(1))
  have q: "file_byte (bview dev t) (i_addrs (inodes t ip)) q = bs ! (q - unat off)" "blk (bview dev t) (i_addrs (inodes t ip)) (q div BSIZE) \<noteq> 0"
    if "unat off \<le> q" "q < unat off + length bs" for q
    using t(6) that less_le_trans [OF that(2) assms(6)] unfolding wrote_def by auto
  then have full: "\<forall>q. unat off \<le> q \<and> q < unat off + unat (of_nat (length bs) :: uint) \<longrightarrow> blk (bview dev t) (i_addrs (inodes t ip)) (q div BSIZE) \<noteq> 0"
    unfolding un by blast
  have "map (file_byte (bview dev t) (i_addrs (inodes t ip))) [unat off..<unat off + length bs] = bs"
    using q(1) by (intro nth_equalityI) simp_all
  moreover have "unat off + unat (of_nat (length bs) :: uint) \<le> unat (i_size (inodes t ip))" "unat (i_size (inodes t ip)) \<le> MAXFILE * BSIZE"
    using t(4) assms(6,8) by (simp_all add: un)
  ultimately show ?thesis using readi_ok [OF t(2) _ wf _ _ full] t(1) fs(5) assms(2) unfolding un by auto
qed

theorem readi_after_writei_witness:
  "\<exists>t u. writei 7 (Local [104, 105]) 0 2 fs_example = Ok (2, t) \<and> readi 7 (Local []) 0 2 t = Ok (2, Local [104, 105], u)"
  using readi_after_writei [OF fs_example_write(1-6) supplies_Local fs_example_write(7)] by auto

end
