(* ===== verification/DirData.thy ===== *)
theory DirData
  imports Dir FileData
begin

text \<open>
  Directories as tables of entries. \<open>entry\<close> is the directory entry with a given index in the contents of a
  directory, \<open>dir_find\<close> the index of the first entry in use with a given name. \<^verbatim>\<open>dirlookup\<close> finds that
  entry, and \<^verbatim>\<open>dirlink\<close> adds one.
\<close>

definition entry :: "(uint \<Rightarrow> uchar list) \<Rightarrow> uint list \<Rightarrow> nat \<Rightarrow> dirent" where
  "entry v a k = bytes_dirent (map (file_byte v a) [DIRENT_SIZE * k..<DIRENT_SIZE * k + DIRENT_SIZE])"

definition named :: "uchar list \<Rightarrow> dirent \<Rightarrow> bool" where
  "named name de \<longleftrightarrow> de_inum de \<noteq> 0 \<and> take DIRSIZ (cstr (de_name de)) = take DIRSIZ (cstr name)"

definition dir_find :: "(uint \<Rightarrow> uchar list) \<Rightarrow> uint list \<Rightarrow> nat \<Rightarrow> uchar list \<Rightarrow> nat option" where
  "dir_find v a n name = scan n (\<lambda>k. named name (entry v a k))"

text \<open>A directory in memory: a well-formed file whose size is that of a number of entries, with no block missing.\<close>

definition dir_ok :: "uint \<Rightarrow> nat \<Rightarrow> nat \<Rightarrow> 'a fsys_scheme \<Rightarrow> bool" where
  "dir_ok dev dp n s \<longleftrightarrow> i_type (inodes s dp) = T_DIR \<and> i_dev (inodes s dp) = dev
     \<and> file_wf (sb s) (bview dev s) (i_inum (inodes s dp)) (i_addrs (inodes s dp))
     \<and> unat (i_size (inodes s dp)) = DIRENT_SIZE * n \<and> DIRENT_SIZE * n \<le> MAXFILE * BSIZE
     \<and> (\<forall>q<DIRENT_SIZE * n. blk (bview dev s) (i_addrs (inodes s dp)) (q div BSIZE) \<noteq> 0)"

definition name_ok :: "uchar list \<Rightarrow> bool" where
  "name_ok name \<longleftrightarrow> 0 \<in> set name \<or> DIRSIZ \<le> length name"

lemma strncmp_returns: "0 \<in> set p \<or> n \<le> length p \<Longrightarrow> n \<le> length q \<Longrightarrow> returns (strncmp p q n)"
  by (induction p q n rule: strncmp.induct) (auto simp: returns_iff)

lemma namecmp_named:
  assumes "name_ok name" and "length nm = DIRSIZ"
  shows "\<exists>c. namecmp name nm = Ok c \<and> (c = 0 \<longleftrightarrow> take DIRSIZ (cstr nm) = take DIRSIZ (cstr name))"
proof -
  have "returns (namecmp name nm)" using assms strncmp_returns [of name DIRSIZ nm] by (simp add: namecmp_def name_ok_def)
  then obtain c where "namecmp name nm = Ok c" by (auto simp: returns_iff)
  then show ?thesis using strncmp_eq_0 [of name nm DIRSIZ c] by (auto simp: namecmp_def)
qed

lemma length_entry_name: "length (de_name (entry v a k)) = DIRSIZ"
  by (simp add: entry_def bytes_dirent_def DIRENT_SIZE_def DIRSIZ_def)

lemma dir_ok_frame: "dir_ok dev dp n s \<Longrightarrow> tx_frame s t \<Longrightarrow> bview dev t = bview dev s \<Longrightarrow> dir_ok dev dp n t"
  using tx_frame_fsys [of s t] by (simp add: dir_ok_def)

lemma dir_read:
  fixes s :: "'a fsys_scheme"
  assumes tx: "in_tx dev p i {} (Suc k) s" and ok: "dir_ok dev dp n s" and e: "e < n"
  shows "\<exists>t pl. readi dp (Local []) (of_nat (DIRENT_SIZE * e)) (of_nat DIRENT_SIZE) s = Ok (int DIRENT_SIZE, pl, t)
    \<and> bytes_dirent (local_bytes pl) = entry (bview dev s) (i_addrs (inodes s dp)) e
    \<and> in_tx dev p i {} (Suc k) t \<and> bview dev t = bview dev s \<and> tx_frame s t"
proof -
  have d: "i_dev (inodes s dp) = dev" "file_wf (sb s) (bview dev s) (i_inum (inodes s dp)) (i_addrs (inodes s dp))"
    "unat (i_size (inodes s dp)) = DIRENT_SIZE * n" "DIRENT_SIZE * n \<le> MAXFILE * BSIZE"
    "\<forall>q<DIRENT_SIZE * n. blk (bview dev s) (i_addrs (inodes s dp)) (q div BSIZE) \<noteq> 0" using ok unfolding dir_ok_def by blast+
  have fit: "DIRENT_SIZE * e + DIRENT_SIZE \<le> DIRENT_SIZE * n" using e by (metis Suc_leI mult_Suc_right mult_le_mono2 add.commute)
  have lim: "DIRENT_SIZE * n < 2 ^ 32" using d(4) by (simp add: MAXFILE_def NDIRECT_def NINDIRECT_def BSIZE_def)
  have "DIRENT_SIZE * e < 2 ^ LENGTH(32)" using fit lim by (simp add: DIRENT_SIZE_def)
  then have un: "unat (of_nat (DIRENT_SIZE * e) :: uint) = DIRENT_SIZE * e" "unat (of_nat DIRENT_SIZE :: uint) = DIRENT_SIZE"
    unfolding unat_of_nat by (rule mod_less) (simp add: DIRENT_SIZE_def)
  have full: "\<forall>q. DIRENT_SIZE * e \<le> q \<and> q < DIRENT_SIZE * e + DIRENT_SIZE \<longrightarrow> blk (bview dev s) (i_addrs (inodes s dp)) (q div BSIZE) \<noteq> 0"
    using d(5) fit by auto
  from readi_ok [OF tx d(1,2), of "of_nat (DIRENT_SIZE * e)" "of_nat DIRENT_SIZE", unfolded un d(3), OF fit d(4) full]
  show ?thesis by (auto simp: entry_def)
qed

lemma dirlookup_loop_ok:
  fixes s :: "'a fsys_scheme"
  assumes "in_tx dev p i {} (Suc k) s" and "dir_ok dev dp n s" and "name_ok name" and "m \<le> n"
    and "\<forall>j<m. \<not> named name (entry (bview dev s) (i_addrs (inodes s dp)) j)"
  shows "\<exists>t. in_tx dev p i {} (Suc k) t \<and> bview dev t = bview dev s \<and> tx_frame s t
    \<and> dirlookup_loop dp name (map (\<lambda>k. DIRENT_SIZE * k) [m..<n]) s
      = (case dir_find (bview dev s) (i_addrs (inodes s dp)) n name of
           None \<Rightarrow> Ok (None, t)
         | Some e \<Rightarrow> bindR (iget dev (ucast (de_inum (entry (bview dev s) (i_addrs (inodes s dp)) e))) t) (\<lambda>(ip, s). Ok (Some (ip, DIRENT_SIZE * e), s)))"
  using assms
proof (induction "n - m" arbitrary: m s)
  case 0
  then have "dir_find (bview dev s) (i_addrs (inodes s dp)) n name = None" "m = n" unfolding dir_find_def scan_None_iff by auto
  then show ?case using 0(2) by auto
next
  case (Suc d m s)
  note prems = Suc.prems
  let ?e = "\<lambda>j. entry (bview dev s) (i_addrs (inodes s dp)) j"
  have m: "m < n" using Suc.hyps(2) by simp
  then have offs: "map (\<lambda>k. DIRENT_SIZE * k) [m..<n] = DIRENT_SIZE * m # map (\<lambda>k. DIRENT_SIZE * k) [Suc m..<n]" by (simp add: upt_conv_Cons)
  from dir_read [OF prems(1,2) m] obtain t pl where
    t: "readi dp (Local []) (of_nat (DIRENT_SIZE * m)) (of_nat DIRENT_SIZE) s = Ok (int DIRENT_SIZE, pl, t)"
       "bytes_dirent (local_bytes pl) = ?e m" "in_tx dev p i {} (Suc k) t" "bview dev t = bview dev s" "tx_frame s t" by blast
  note ft = tx_frame_fsys [OF t(5)]
  have dev: "i_dev (inodes t dp) = dev" using prems(2) ft by (simp add: dir_ok_def)
  from namecmp_named [OF prems(3) length_entry_name] obtain c where
    c: "namecmp name (de_name (?e m)) = Ok c" "c = 0 \<longleftrightarrow> take DIRSIZ (cstr (de_name (?e m))) = take DIRSIZ (cstr name)" by blast
  show ?case
  proof (cases "named name (?e m)")
    case True
    then have "dir_find (bview dev s) (i_addrs (inodes s dp)) n name = Some m"
      unfolding dir_find_def scan_Some_iff using m prems(5) by blast
    then show ?thesis using True t c dev unfolding offs by (auto simp: named_def Let_def)
  next
    case False
    have none: "\<forall>j<Suc m. \<not> named name (?e j)" using False prems(5) by (auto simp: less_Suc_eq)
    have "d = n - Suc m" "Suc m \<le> n" using Suc.hyps(2) by simp_all
    from Suc.hyps(1) [OF this(1) t(3) dir_ok_frame [OF prems(2) t(5,4)] prems(3) this(2)] none obtain u where
      u: "in_tx dev p i {} (Suc k) u" "bview dev u = bview dev s" "tx_frame t u"
         "dirlookup_loop dp name (map (\<lambda>k. DIRENT_SIZE * k) [Suc m..<n]) t
          = (case dir_find (bview dev s) (i_addrs (inodes s dp)) n name of
               None \<Rightarrow> Ok (None, u)
             | Some e \<Rightarrow> bindR (iget dev (ucast (de_inum (?e e))) u) (\<lambda>(ip, s). Ok (Some (ip, DIRENT_SIZE * e), s)))"
      unfolding t(4) ft by auto
    have "dirlookup_loop dp name (map (\<lambda>k. DIRENT_SIZE * k) [m..<n]) s = dirlookup_loop dp name (map (\<lambda>k. DIRENT_SIZE * k) [Suc m..<n]) t"
      unfolding offs using False t(1,2) c by (auto simp: named_def Let_def simp del: of_nat_mult)
    then show ?thesis using u tx_frame_trans [OF t(5) u(3)] by auto
  qed
qed

lemma dir_offs_eq: "unat sz = DIRENT_SIZE * n \<Longrightarrow> dir_offs sz = map (\<lambda>k. DIRENT_SIZE * k) [0..<n]"
  by (simp add: dir_offs_def DIRENT_SIZE_def)

lemma dirlink_loop_ok:
  fixes s :: "'a fsys_scheme"
  assumes "in_tx dev p i {} (Suc k) s" and "dir_ok dev dp n s" and "m \<le> n"
    and "\<forall>j<m. de_inum (entry (bview dev s) (i_addrs (inodes s dp)) j) \<noteq> 0"
  shows "\<exists>e t. dirlink_loop dp (map (\<lambda>k. DIRENT_SIZE * k) [m..<n]) (DIRENT_SIZE * n) s = Ok (DIRENT_SIZE * e, t)
    \<and> in_tx dev p i {} (Suc k) t \<and> bview dev t = bview dev s \<and> tx_frame s t \<and> e \<le> n
    \<and> (e < n \<longrightarrow> de_inum (entry (bview dev s) (i_addrs (inodes s dp)) e) = 0)"
  using assms
proof (induction "n - m" arbitrary: m s)
  case 0
  then show ?case by (auto intro!: exI [of _ n])
next
  case (Suc d m s)
  note prems = Suc.prems
  let ?e = "\<lambda>j. entry (bview dev s) (i_addrs (inodes s dp)) j"
  have m: "m < n" using Suc.hyps(2) by simp
  then have offs: "map (\<lambda>k. DIRENT_SIZE * k) [m..<n] = DIRENT_SIZE * m # map (\<lambda>k. DIRENT_SIZE * k) [Suc m..<n]" by (simp add: upt_conv_Cons)
  from dir_read [OF prems(1,2) m] obtain t pl where
    t: "readi dp (Local []) (of_nat (DIRENT_SIZE * m)) (of_nat DIRENT_SIZE) s = Ok (int DIRENT_SIZE, pl, t)"
       "bytes_dirent (local_bytes pl) = ?e m" "in_tx dev p i {} (Suc k) t" "bview dev t = bview dev s" "tx_frame s t" by blast
  note ft = tx_frame_fsys [OF t(5)]
  show ?case
  proof (cases "de_inum (?e m) = 0")
    case True
    then have "dirlink_loop dp (map (\<lambda>k. DIRENT_SIZE * k) [m..<n]) (DIRENT_SIZE * n) s = Ok (DIRENT_SIZE * m, t)"
      unfolding offs using t(1,2) by (simp del: of_nat_mult)
    then show ?thesis using True t m by (auto simp del: of_nat_mult)
  next
    case False
    then have none: "\<forall>j<Suc m. de_inum (?e j) \<noteq> 0" using prems(4) by (auto simp: less_Suc_eq)
    have "d = n - Suc m" "Suc m \<le> n" using Suc.hyps(2) by simp_all
    from Suc.hyps(1) [OF this(1) t(3) dir_ok_frame [OF prems(2) t(5,4)] this(2)] none obtain e u where
      u: "dirlink_loop dp (map (\<lambda>k. DIRENT_SIZE * k) [Suc m..<n]) (DIRENT_SIZE * n) t = Ok (DIRENT_SIZE * e, u)"
         "in_tx dev p i {} (Suc k) u" "bview dev u = bview dev s" "tx_frame t u" "e \<le> n" "e < n \<longrightarrow> de_inum (?e e) = 0"
      unfolding t(4) ft by blast
    have "dirlink_loop dp (map (\<lambda>k. DIRENT_SIZE * k) [m..<n]) (DIRENT_SIZE * n) s = Ok (DIRENT_SIZE * e, u)"
      unfolding offs using False t(1,2) u(1) by (simp del: of_nat_mult)
    then show ?thesis using u(2,3,5,6) tx_frame_trans [OF t(5) u(4)] by blast
  qed
qed

lemma dirent_roundtrip: "length (de_name de) = DIRSIZ \<Longrightarrow> bytes_dirent (dirent_bytes de) = de"
  by (simp add: bytes_dirent_def dirent_bytes_def le_word_le_bytes)

lemma length_dirent_bytes: "length (de_name de) = DIRSIZ \<Longrightarrow> length (dirent_bytes de) = DIRENT_SIZE"
  by (simp add: dirent_bytes_def DIRSIZ_def DIRENT_SIZE_def)

lemma entry_wrote:
  assumes w: "wrote v a (DIRENT_SIZE * e) (dirent_bytes de) w b" and de: "length (de_name de) = DIRSIZ"
    and j: "DIRENT_SIZE * j + DIRENT_SIZE \<le> MAXFILE * BSIZE"
  shows "entry w b j = (if j = e then de else entry v a j)"
proof -
  let ?bs = "dirent_bytes de"
  have l: "length ?bs = DIRENT_SIZE" by (rule length_dirent_bytes [OF de])
  have byte: "file_byte w b q = (if DIRENT_SIZE * e \<le> q \<and> q < DIRENT_SIZE * e + DIRENT_SIZE then ?bs ! (q - DIRENT_SIZE * e) else file_byte v a q)"
    if "q < DIRENT_SIZE * j + DIRENT_SIZE" for q
    using w less_le_trans [OF that j] unfolding wrote_def l by blast
  have "map (file_byte w b) [DIRENT_SIZE * j..<DIRENT_SIZE * j + DIRENT_SIZE]
      = (if j = e then ?bs else map (file_byte v a) [DIRENT_SIZE * j..<DIRENT_SIZE * j + DIRENT_SIZE])"
  proof (cases "j = e")
    case True
    then show ?thesis using byte l by (auto intro!: nth_equalityI)
  next
    case False
    then have "\<not> (DIRENT_SIZE * e \<le> q \<and> q < DIRENT_SIZE * e + DIRENT_SIZE)" if "DIRENT_SIZE * j \<le> q" "q < DIRENT_SIZE * j + DIRENT_SIZE" for q
      using that by (auto simp: DIRENT_SIZE_def)
    then show ?thesis using False byte by auto
  qed
  then show ?thesis unfolding entry_def using dirent_roundtrip [OF de] by simp
qed

lemma touched_dirent: "touched (DIRENT_SIZE * e) DIRENT_SIZE = 1"
proof -
  have "DIRENT_SIZE * e mod BSIZE = 16 * (e mod 64)" by (simp add: DIRENT_SIZE_def BSIZE_def mult_mod_right)
  moreover have "e mod 64 < 64" by simp
  ultimately show ?thesis by (simp add: touched_def DIRENT_SIZE_def BSIZE_def)
qed

lemma dirlookup_ok:
  fixes s :: "'a fsys_scheme"
  assumes "in_tx dev p i {} (Suc k) s" and "dir_ok dev dp n s" and "name_ok name"
  shows "\<exists>t. in_tx dev p i {} (Suc k) t \<and> bview dev t = bview dev s \<and> tx_frame s t
    \<and> dirlookup dp name s
      = (case dir_find (bview dev s) (i_addrs (inodes s dp)) n name of
           None \<Rightarrow> Ok (None, t)
         | Some e \<Rightarrow> bindR (iget dev (ucast (de_inum (entry (bview dev s) (i_addrs (inodes s dp)) e))) t) (\<lambda>(ip, s). Ok (Some (ip, DIRENT_SIZE * e), s)))"
proof -
  have d: "i_type (inodes s dp) = T_DIR" "dir_offs (i_size (inodes s dp)) = map (\<lambda>k. DIRENT_SIZE * k) [0..<n]"
    using assms(2) dir_offs_eq unfolding dir_ok_def by blast+
  show ?thesis using dirlookup_loop_ok [OF assms le0] unfolding dirlookup_def d by simp
qed

lemma scan_only: "e < n \<Longrightarrow> P e \<Longrightarrow> \<forall>j<n. j \<noteq> e \<longrightarrow> \<not> P j \<Longrightarrow> scan n P = Some e"
  unfolding scan_Some_iff by (metis less_irrefl less_trans)

lemma linked_dir:
  fixes s :: "'a fsys_scheme"
  assumes ok: "dir_ok dev dp n s" and fr: "fs_frame dp s t" and e: "e \<le> n" "DIRENT_SIZE * n + DIRENT_SIZE \<le> MAXFILE * BSIZE"
    and size: "unat (i_size (inodes t dp)) = max (DIRENT_SIZE * n) (DIRENT_SIZE * e + DIRENT_SIZE)" and de: "length (de_name de) = DIRSIZ"
    and step: "file_step (sb s) (i_inum (inodes s dp)) (bview dev s) (i_addrs (inodes s dp)) (bview dev t) (i_addrs (inodes t dp))"
    and wr: "wrote (bview dev s) (i_addrs (inodes s dp)) (DIRENT_SIZE * e) (dirent_bytes de) (bview dev t) (i_addrs (inodes t dp))"
  shows "dir_ok dev dp (max n (Suc e)) t"
    and "\<forall>j<max n (Suc e). entry (bview dev t) (i_addrs (inodes t dp)) j = (if j = e then de else entry (bview dev s) (i_addrs (inodes s dp)) j)"
proof -
  note f = fs_frame_fields [OF fr] and l = length_dirent_bytes [OF de]
  have d: "i_dev (inodes s dp) = dev" "i_type (inodes s dp) = T_DIR"
    "\<forall>q<DIRENT_SIZE * n. blk (bview dev s) (i_addrs (inodes s dp)) (q div BSIZE) \<noteq> 0" using ok unfolding dir_ok_def by blast+
  have sz: "max (DIRENT_SIZE * n) (DIRENT_SIZE * e + DIRENT_SIZE) = DIRENT_SIZE * max n (Suc e)" by (simp add: max_def DIRENT_SIZE_def)
  have lim: "DIRENT_SIZE * max n (Suc e) \<le> MAXFILE * BSIZE" using e by (simp add: max_def DIRENT_SIZE_def)
  have "blk (bview dev t) (i_addrs (inodes t dp)) (q div BSIZE) \<noteq> 0" if q: "q < DIRENT_SIZE * max n (Suc e)" for q
  proof (cases "q < DIRENT_SIZE * n")
    case True
    then have "blk (bview dev s) (i_addrs (inodes s dp)) (q div BSIZE) \<noteq> 0" using d(3) by blast
    then show ?thesis using step div_BSIZE [OF less_le_trans [OF q lim]] by (auto simp: file_step_def)
  next
    case False
    then have "DIRENT_SIZE * e \<le> q" "q < DIRENT_SIZE * e + DIRENT_SIZE" using q e(1) by (auto simp: max_def DIRENT_SIZE_def split: if_splits)
    then show ?thesis using wr less_le_trans [OF q lim] unfolding wrote_def l by blast
  qed
  then show "dir_ok dev dp (max n (Suc e)) t"
    unfolding dir_ok_def size sz using step lim d f by (auto simp: file_step_def)
  have "DIRENT_SIZE * j + DIRENT_SIZE \<le> MAXFILE * BSIZE" if "j < max n (Suc e)" for j
  proof -
    have "DIRENT_SIZE * Suc j \<le> DIRENT_SIZE * max n (Suc e)" using that by (intro mult_le_mono2) simp
    then show ?thesis using lim by simp
  qed
  then show "\<forall>j<max n (Suc e). entry (bview dev t) (i_addrs (inodes t dp)) j = (if j = e then de else entry (bview dev s) (i_addrs (inodes s dp)) j)"
    using entry_wrote [OF wr de] by blast
qed

lemma dirlink_ok:
  fixes s :: "'a fsys_scheme"
  assumes tx: "in_tx dev p i {} (6 + Suc (Suc k)) s" and ok: "dir_ok dev dp n s" and nm: "name_ok name"
    and none: "dir_find (bview dev s) (i_addrs (inodes s dp)) n name = None" and inum: "(ucast inum :: ushort) \<noteq> 0"
    and room: "DIRENT_SIZE * n + DIRENT_SIZE \<le> MAXFILE * BSIZE" "2 \<le> free_blocks (sb s) (bview dev s)"
  shows "\<exists>e t. dirlink dp name inum s = Ok (0, t) \<and> e \<le> n \<and> (e < n \<longrightarrow> de_inum (entry (bview dev s) (i_addrs (inodes s dp)) e) = 0)
    \<and> in_tx dev p i {} (Suc k) t \<and> dir_ok dev dp (max n (Suc e)) t
    \<and> dir_find (bview dev t) (i_addrs (inodes t dp)) (max n (Suc e)) name = Some e
    \<and> de_inum (entry (bview dev t) (i_addrs (inodes t dp)) e) = ucast inum
    \<and> (\<forall>j<n. j \<noteq> e \<longrightarrow> entry (bview dev t) (i_addrs (inodes t dp)) j = entry (bview dev s) (i_addrs (inodes s dp)) j)"
proof -
  let ?s6 = "Suc (5 + Suc (Suc k))"
  have "6 + Suc (Suc k) = ?s6" by simp
  with tx have tx': "in_tx dev p i {} ?s6 s" by simp
  from dirlookup_ok [OF tx' ok nm] none obtain t where
    t: "dirlookup dp name s = Ok (None, t)" "in_tx dev p i {} ?s6 t" "bview dev t = bview dev s" "tx_frame s t" by auto
  note okt = dir_ok_frame [OF ok t(4,3)] and ft = tx_frame_fsys [OF t(4)]
  from dirlink_loop_ok [OF t(2) okt le0] obtain e u where
    u: "dirlink_loop dp (map (\<lambda>k. DIRENT_SIZE * k) [0..<n]) (DIRENT_SIZE * n) t = Ok (DIRENT_SIZE * e, u)" "in_tx dev p i {} ?s6 u"
       "bview dev u = bview dev s" "tx_frame t u" "e \<le> n" "e < n \<longrightarrow> de_inum (entry (bview dev s) (i_addrs (inodes s dp)) e) = 0"
    unfolding t(3) ft by blast
  note oku = dir_ok_frame [OF okt u(4)] and fu = tx_frame_fsys [OF u(4)]
  obtain m where m: "strncpy name DIRSIZ = Ok m" "length m = DIRSIZ" "cstr m = take DIRSIZ (cstr name)"
    using strncpy_returns [of name DIRSIZ] strncpy_Ok nm by (auto simp: name_ok_def returns_iff)
  let ?de = "\<lparr>de_inum = ucast inum, de_name = m\<rparr>"
  have lb: "length (dirent_bytes ?de) = DIRENT_SIZE" by (rule length_dirent_bytes) (simp add: m)
  have fit: "DIRENT_SIZE * e + DIRENT_SIZE \<le> MAXFILE * BSIZE" using u(5) room(1) by (simp add: DIRENT_SIZE_def)
  have lim: "DIRENT_SIZE * e < 2 ^ LENGTH(32)" using fit by (simp add: MAXFILE_def NDIRECT_def NINDIRECT_def BSIZE_def)
  have un: "unat (of_nat (DIRENT_SIZE * e) :: uint) = DIRENT_SIZE * e" unfolding unat_of_nat by (rule mod_less [OF lim])
  have d: "i_dev (inodes u dp) = dev" "file_wf (sb u) (bview dev u) (i_inum (inodes u dp)) (i_addrs (inodes u dp))"
    "unat (i_size (inodes u dp)) = DIRENT_SIZE * n" "i_type (inodes u dp) = T_DIR"
    "\<forall>q<DIRENT_SIZE * n. blk (bview dev u) (i_addrs (inodes u dp)) (q div BSIZE) \<noteq> 0"
    using oku t(3) u(3) unfolding dir_ok_def by auto
  have off: "of_nat (DIRENT_SIZE * e) \<le> i_size (inodes u dp)" unfolding word_le_nat_alt un d(3) using u(5) by simp
  have tc: "touched (DIRENT_SIZE * e) (length (dirent_bytes ?de)) = 1" unfolding lb by (rule touched_dirent)
  have txu: "in_tx dev p i {} (6 * touched (unat (of_nat (DIRENT_SIZE * e) :: uint)) (length (dirent_bytes ?de)) + Suc (Suc k)) u"
    by (rule in_tx_mono [OF u(2)]) (simp only: un tc)
  have free: "2 * touched (unat (of_nat (DIRENT_SIZE * e) :: uint)) (length (dirent_bytes ?de)) \<le> free_blocks (sb u) (bview dev u)"
    using room(2) unfolding un tc u(3) by (simp add: fu ft)
  from writei_ok [OF txu d(1,2) free off _ supplies_Local] fit obtain w where
    w: "writei dp (Local (dirent_bytes ?de)) (of_nat (DIRENT_SIZE * e)) (of_nat DIRENT_SIZE) u = Ok (int DIRENT_SIZE, w)"
       "in_tx dev p i {} (Suc k) w" "fs_frame dp u w" "unat (i_size (inodes w dp)) = max (DIRENT_SIZE * n) (DIRENT_SIZE * e + DIRENT_SIZE)"
       "file_step (sb u) (i_inum (inodes u dp)) (bview dev u) (i_addrs (inodes u dp)) (bview dev w) (i_addrs (inodes w dp))"
       "wrote (bview dev u) (i_addrs (inodes u dp)) (DIRENT_SIZE * e) (dirent_bytes ?de) (bview dev w) (i_addrs (inodes w dp))"
    unfolding un lb d(3) by blast
  have ok': "dir_ok dev dp n u" using oku t(3) u(3) by simp
  have de: "length (de_name ?de) = DIRSIZ" by (simp add: m(2))
  note ld = linked_dir [OF ok' w(3) u(5) room(1) w(4) de w(5,6), unfolded u(3) fu ft]
  let ?n = "max n (Suc e)"
  have en: "e < ?n" by simp
  have here: "entry (bview dev w) (i_addrs (inodes w dp)) e = ?de" using ld(2) en by simp
  have other: "entry (bview dev w) (i_addrs (inodes w dp)) j = entry (bview dev s) (i_addrs (inodes s dp)) j" if "j < ?n" "j \<noteq> e" for j
    using ld(2) that by simp
  have "\<not> named name (entry (bview dev s) (i_addrs (inodes s dp)) j)" if "j < n" for j
    using none that unfolding dir_find_def scan_None_iff by blast
  moreover have "j < n" if "j < ?n" "j \<noteq> e" for j using that u(5) by (auto simp: less_max_iff_disj)
  ultimately have "\<forall>j<?n. j \<noteq> e \<longrightarrow> \<not> named name (entry (bview dev w) (i_addrs (inodes w dp)) j)" using other by auto
  moreover have "named name ?de" using inum m(3) by (simp add: named_def min_def)
  ultimately have "dir_find (bview dev w) (i_addrs (inodes w dp)) ?n name = Some e"
    unfolding dir_find_def using here by (intro scan_only [OF en]) simp_all
  moreover have "dirlink dp name inum s = Ok (0, w)"
  proof -
    have o: "dir_offs (i_size (inodes t dp)) = map (\<lambda>k. DIRENT_SIZE * k) [0..<n]"
      using okt dir_offs_eq unfolding dir_ok_def by blast
    show ?thesis unfolding dirlink_def using t(1) u(1) m(1) w(1) by (simp add: o Let_def del: of_nat_mult)
  qed
  ultimately show ?thesis using u(5,6) w(2) ld(1) here other by auto
qed

subsection \<open>A directory for the examples\<close>

text \<open>A directory with one entry, in block 2: inode number 0x0202 and a name of 14 bytes 2.\<close>

definition dir_example :: fsys where
  "dir_example = upd_inode 7 (\<lambda>x. x\<lparr>i_type := T_DIR, i_size := 16, i_addrs := 2 # replicate 12 0\<rparr>) fs_example"

lemma dir_example_fields [simp]:
  "sb dir_example = sb fs_example" "bview 1 dir_example = bview 1 fs_example"
  "inodes dir_example 7 = (inodes fs_example 7)\<lparr>i_type := T_DIR, i_size := 16, i_addrs := 2 # replicate 12 0\<rparr>"
  by (simp_all add: dir_example_def)

lemma dir_example_tx: "k \<le> 20 \<Longrightarrow> in_tx 1 2 0 {} k dir_example"
  using in_tx_mono [OF fs_example_tx] by (simp add: dir_example_def)

lemma dir_example_ok: "dir_ok 1 7 1 dir_example"
proof -
  let ?v = "bview 1 fs_example" and ?a = "2 # replicate 12 0 :: uint list"
  note wf = fs_example_file
  have b: "blk v ?a j = (if j = 0 then 2 else blk v (replicate 13 0) j)" if "j \<le> MAXFILE" for v j
    using that by (cases j) (auto simp: blk_def NDIRECT_def numeral_eq_Suc)
  have z: "blk v (replicate 13 0) j = 0" if "j \<le> MAXFILE" for v j using that by (simp add: blk_def NDIRECT_def nth_replicate)
  have i: "IBLOCK 1 (sb fs_example) = 32" by (simp add: IBLOCK_def IPB_def BSIZE_def DINODE_SIZE_def fs_example_sb)
  have m: "BBLOCK (of_nat c) (sb fs_example) = 45" if "c < 1000" for c
    using BBLOCK_of_nat [of c "sb fs_example"] that by (simp add: fs_example_sb BPB_def BSIZE_def)
  have two: "in_file (sb fs_example) ?v 1 2" using m fs_example_used [of 2]
    by (auto simp: in_file_def meta_def i fs_example_sb bit_numeral_rec)
  have "file_wf (sb fs_example) ?v 1 ?a"
    by (rule file_wf_update [OF wf, of _ _ 0 2]) (use wf two b z in \<open>auto simp: NDIRECT_def file_wf_def\<close>)
  then show ?thesis by (simp add: dir_ok_def fs_example_inode DIRENT_SIZE_def MAXFILE_def BSIZE_def blk_def NDIRECT_def div_eq_0_iff)
qed

lemma dir_example_entry: "entry (bview 1 fs_example) (2 # replicate 12 0) 0 = \<lparr>de_inum = 0x0202, de_name = replicate 14 2\<rparr>"
proof -
  have "file_byte (bview 1 fs_example) (2 # replicate 12 0) q = 2" if "q < 16" for q
    using that by (simp add: file_byte_def blk_def NDIRECT_def BSIZE_def fs_example_view)
  then have e: "map (file_byte (bview 1 fs_example) (2 # replicate 12 0)) [DIRENT_SIZE * 0..<DIRENT_SIZE * 0 + DIRENT_SIZE] = replicate 16 2"
    by (intro nth_equalityI) (auto simp: DIRENT_SIZE_def)
  have "le_word [2, 2] = (0x0202 :: ushort)" by simp
  moreover have "take 2 (replicate 16 2) = [2, 2 :: uchar]" by (simp add: take_Suc numeral_2_eq_2)
  ultimately show ?thesis unfolding entry_def e bytes_dirent_def by simp
qed

subsection \<open>Properties\<close>

text \<open>
  C5. Looking up a name in a directory. \<^verbatim>\<open>dirlookup\<close> reads the entries in order, which leaves the contents of
  the blocks, the inodes and the log as they are, and takes the first one in use whose name agrees with
  the given one in the first 14 bytes up to a NUL: it returns what \<^verbatim>\<open>iget\<close> gives for that entry's number, which
  is a reference more to an inode of the table, and the offset of the entry. If there is none it returns 0.
\<close>

theorem dirlookup_finds:
  fixes s :: "'a fsys_scheme"
  assumes "in_tx dev p i {} (Suc k) s" and "dir_ok dev dp n s" and "name_ok name"
  shows "\<exists>t. in_tx dev p i {} (Suc k) t \<and> bview dev t = bview dev s \<and> tx_frame s t
    \<and> dirlookup dp name s
      = (case dir_find (bview dev s) (i_addrs (inodes s dp)) n name of
           None \<Rightarrow> Ok (None, t)
         | Some e \<Rightarrow> bindR (iget dev (ucast (de_inum (entry (bview dev s) (i_addrs (inodes s dp)) e))) t) (\<lambda>(ip, s). Ok (Some (ip, DIRENT_SIZE * e), s)))"
  by (rule dirlookup_ok [OF assms])

theorem dirlookup_finds_witness:
  "\<exists>t. dirlookup 7 (replicate 14 2) dir_example = bindR (iget 1 0x0202 t) (\<lambda>(ip, s). Ok (Some (ip, 0), s))"
proof -
  have tx: "in_tx 1 2 0 {} (Suc 0) dir_example" by (rule dir_example_tx) simp
  have "name_ok (replicate 14 2)" by (simp add: name_ok_def DIRSIZ_def)
  from dirlookup_finds [OF tx dir_example_ok this] obtain t where
    t: "dirlookup 7 (replicate 14 2) dir_example
      = (case dir_find (bview 1 dir_example) (i_addrs (inodes dir_example 7)) 1 (replicate 14 2) of
           None \<Rightarrow> Ok (None, t)
         | Some e \<Rightarrow> bindR (iget 1 (ucast (de_inum (entry (bview 1 dir_example) (i_addrs (inodes dir_example 7)) e))) t) (\<lambda>(ip, s). Ok (Some (ip, DIRENT_SIZE * e), s)))"
    by blast
  have "dir_find (bview 1 fs_example) (2 # replicate 12 0) 1 (replicate 14 2) = Some 0"
    unfolding dir_find_def scan_Some_iff by (simp add: named_def dir_example_entry)
  then have "dirlookup 7 (replicate 14 2) dir_example = bindR (iget 1 0x0202 t) (\<lambda>(ip, s). Ok (Some (ip, 0), s))"
    using t by (simp add: dir_example_entry)
  then show ?thesis ..
qed

text \<open>
  C4. Linking a name into a directory that does not have it yet. \<^verbatim>\<open>dirlink\<close> succeeds; it uses an entry that was
  free, or a new one at the end; all the other entries are unchanged, and looking the name up now finds
  the new entry with the given inode number.
\<close>

theorem dirlink_adds:
  fixes s :: "'a fsys_scheme"
  assumes "in_tx dev p i {} (6 + Suc (Suc k)) s" and "dir_ok dev dp n s" and "name_ok name"
    and "dir_find (bview dev s) (i_addrs (inodes s dp)) n name = None" and "(ucast inum :: ushort) \<noteq> 0"
    and "DIRENT_SIZE * n + DIRENT_SIZE \<le> MAXFILE * BSIZE" and "2 \<le> free_blocks (sb s) (bview dev s)"
  shows "\<exists>e t. dirlink dp name inum s = Ok (0, t) \<and> e \<le> n \<and> (e < n \<longrightarrow> de_inum (entry (bview dev s) (i_addrs (inodes s dp)) e) = 0)
    \<and> in_tx dev p i {} (Suc k) t \<and> dir_ok dev dp (max n (Suc e)) t
    \<and> dir_find (bview dev t) (i_addrs (inodes t dp)) (max n (Suc e)) name = Some e
    \<and> de_inum (entry (bview dev t) (i_addrs (inodes t dp)) e) = ucast inum
    \<and> (\<forall>j<n. j \<noteq> e \<longrightarrow> entry (bview dev t) (i_addrs (inodes t dp)) j = entry (bview dev s) (i_addrs (inodes s dp)) j)"
  by (rule dirlink_ok [OF assms])

theorem dirlink_adds_witness:
  "\<exists>t. dirlink 7 [97, 0] 5 dir_example = Ok (0, t) \<and> dir_ok 1 7 2 t \<and> dir_find (bview 1 t) (i_addrs (inodes t 7)) 2 [97, 0] = Some 1
     \<and> de_inum (entry (bview 1 t) (i_addrs (inodes t 7)) 1) = 5"
proof -
  have tx: "in_tx 1 2 0 {} (6 + Suc (Suc 0)) dir_example" by (rule dir_example_tx) simp
  have nm: "name_ok [97, 0]" by (simp add: name_ok_def)
  have "length (replicate 14 (2 :: uchar)) \<noteq> length [97 :: uchar]" by simp
  then have long: "replicate 14 (2 :: uchar) \<noteq> [97]" by metis
  have none: "dir_find (bview 1 dir_example) (i_addrs (inodes dir_example 7)) 1 [97, 0] = None"
    unfolding dir_find_def scan_None_iff using long by (simp add: named_def dir_example_entry DIRSIZ_def)
  from dirlink_adds [OF tx dir_example_ok nm none, of 5] obtain e t where
    t: "dirlink 7 [97, 0] 5 dir_example = Ok (0, t)" "e \<le> 1"
       "e < 1 \<longrightarrow> de_inum (entry (bview 1 dir_example) (i_addrs (inodes dir_example 7)) e) = 0" "dir_ok 1 7 (max 1 (Suc e)) t"
       "dir_find (bview 1 t) (i_addrs (inodes t 7)) (max 1 (Suc e)) [97, 0] = Some e" "de_inum (entry (bview 1 t) (i_addrs (inodes t 7)) e) = 5"
    using fs_example_free by (auto simp: DIRENT_SIZE_def MAXFILE_def NDIRECT_def BSIZE_def)
  have "e = 1" using t(2,3) by (cases e) (simp_all add: dir_example_entry)
  with t show ?thesis by (auto simp: numeral_2_eq_2)
qed

end
