(* ===== verification/Fairness.thy ===== *)
theory Fairness
  imports Sched
begin

text \<open>
  The scheduler of one hart runs every runnable thread. What a thread does between the switch to it and
  the switch back is the argument \<open>run\<close> of \<open>scheduler_pass\<close>; the locale \<open>scheduled\<close> states what a thread owes
  the scheduler, and proves in one place that one round of \<^verbatim>\<open>scheduler\<close> then comes to an end and has run a
  given runnable thread, unless a thread that ran before it in the round has made it unrunnable, as a
  thread does to its siblings when it calls \<^verbatim>\<open>exit\<close>. It is interpreted for threads that the timer preempts.
\<close>

subsection \<open>The state of a hart in the scheduler\<close>

text \<open>Between two processes, and within the visit of process \<open>p\<close>, whose lock the scheduler holds.\<close>

definition sched_idle :: "'a kernel_scheme \<Rightarrow> bool" where
  "sched_idle s \<longleftrightarrow> noff (mycpu s) = 0 \<and> locks_free s"

definition in_visit :: "nat \<Rightarrow> 'a kernel_scheme \<Rightarrow> bool" where
  "in_visit p s \<longleftrightarrow> noff (mycpu s) = 1 \<and> \<not> intr_get s \<and> holding (p_lock (procs s p)) s
     \<and> (\<forall>q<NPROC. q \<noteq> p \<longrightarrow> free_lock (p_lock (procs s q)))"

text \<open>Thread \<open>j\<close> of process \<open>q\<close> can be run.\<close>

definition ready :: "nat \<Rightarrow> nat \<Rightarrow> 'a kernel_scheme \<Rightarrow> bool" where
  "ready q j s \<longleftrightarrow> t_state (thr q j s) = RUNNABLE \<and> p_state (procs s q) \<noteq> UNUSED"

text \<open>The threads that could be run before and cannot be run after.\<close>

definition stopped :: "'a kernel_scheme \<Rightarrow> 'b kernel_scheme \<Rightarrow> (nat \<times> nat) set" where
  "stopped s t = {(q, j). ready q j s \<and> \<not> ready q j t}"

lemma more_upd [simp]: "kernel.more (upd_proc p f s) = kernel.more s" "kernel.more (upd_cpu g s) = kernel.more s"
  by (simp_all add: upd_proc_def upd_cpu_def)

lemma acquire_visit:
  assumes "sched_idle s" and "p < NPROC"
  shows "\<exists>t. acquire_p p s = Ok t \<and> in_visit p t \<and> kernel.more t = kernel.more s \<and> ready q j t = ready q j s"
proof -
  have f: "free_lock (p_lock (procs s p))" using assms by (simp add: sched_idle_def locks_free_def)
  let ?t = "upd_proc p (\<lambda>pr. pr\<lparr>p_lock := held (tp s) (p_lock pr)\<rparr>) (push_off s)"
  have "\<not> intr_get ?t" using intr_get_push_off [of s] by (simp add: intr_get_def)
  then have "in_visit p ?t" using assms by (simp add: in_visit_def sched_idle_def locks_free_def holding_def)
  moreover have "kernel.more ?t = kernel.more s" by (simp add: push_off_eq)
  moreover have "ready q j ?t = ready q j s" by (simp add: ready_def thr_def)
  ultimately show ?thesis using acquire_p_free [OF f] by blast
qed

lemma release_visit:
  assumes "in_visit p s"
  shows "\<exists>t. release_p p s = Ok t \<and> sched_idle t \<and> kernel.more t = kernel.more s \<and> ready q j t = ready q j s"
proof -
  have v: "\<not> intr_get s" "noff (mycpu s) = 1" "holding (p_lock (procs s p)) s" "\<forall>q<NPROC. q \<noteq> p \<longrightarrow> free_lock (p_lock (procs s q))"
    using assms by (simp_all add: in_visit_def)
  let ?u = "upd_cpu (\<lambda>c. c\<lparr>noff := 0, sstatus := (if intena c then sstatus c OR SSTATUS_SIE else sstatus c)\<rparr>) s"
  let ?t = "upd_proc p (\<lambda>pr. pr\<lparr>p_lock := (p_lock (procs s p))\<lparr>lcpu := None, locked := 0\<rparr>\<rparr>) ?u"
  have "release_p p s = Ok ?t" using v(3) pop_off_to_zero [OF v(1,2)] by (simp add: release_p_def release_def)
  moreover have "sched_idle ?t" using v(4) by (simp add: sched_idle_def locks_free_def free_lock_def)
  moreover have "ready q j ?t = ready q j s" by (simp add: ready_def thr_def)
  ultimately show ?thesis by auto
qed

lemma dispatch_visit:
  assumes "in_visit p s"
  shows "in_visit p (dispatch p i s)" and "kernel.more (dispatch p i s) = kernel.more s"
    and "(q, j) \<noteq> (p, i) \<Longrightarrow> ready q j (dispatch p i s) = ready q j s"
    and "c_thread (mycpu (dispatch p i s)) = Some (p, i)" and "c_proc (mycpu (dispatch p i s)) = Some p"
    and "t_state (thr p i (dispatch p i s)) = RUNNING"
  using assms by (auto simp: dispatch_def Let_def in_visit_def intr_get_def holding_def ready_def thr_def upd_thread_def comp_def)

lemma undispatch_visit:
  "in_visit p (undispatch s) = in_visit p s" "kernel.more (undispatch s) = kernel.more s" "ready q j (undispatch s) = ready q j s"
  by (simp_all add: undispatch_def in_visit_def intr_get_def holding_def ready_def thr_def)

subsection \<open>What threads owe the scheduler\<close>

text \<open>
  A thread that has been switched to switches back to the scheduler after some time, holding the lock of
  its process and no other lock of the table, with interrupts off. \<open>log\<close> reads from the rest of the state
  which threads have run, and which threads each of them has made unrunnable.
\<close>

type_synonym sched_log = "((nat \<times> nat) \<times> (nat \<times> nat) set) list"

locale scheduled =
  fixes run :: "nat \<Rightarrow> nat \<Rightarrow> 'a kernel_scheme \<Rightarrow> 'a kernel_scheme result"
    and log :: "'a \<Rightarrow> sched_log" and q :: nat and j :: nat
  assumes run_back: "in_visit p u \<Longrightarrow> p < NPROC \<Longrightarrow> i < NTHREAD \<Longrightarrow> c_thread (mycpu u) = Some (p, i) \<Longrightarrow> c_proc (mycpu u) = Some p
      \<Longrightarrow> \<exists>w. run p i u = Ok w \<and> in_visit p w \<and> log (kernel.more w) = log (kernel.more u) @ [((p, i), stopped u w)]"
begin

text \<open>Progress of the round: the log has grown, and the thread is still waiting, has been run or has been stopped.\<close>

definition mentioned :: "sched_log \<Rightarrow> bool" where
  "mentioned ys \<longleftrightarrow> (\<exists>e\<in>set ys. fst e = (q, j) \<or> (q, j) \<in> snd e)"

definition progressed :: "'a kernel_scheme \<Rightarrow> 'a kernel_scheme \<Rightarrow> bool" where
  "progressed s t \<longleftrightarrow> (\<exists>ys. log (kernel.more t) = log (kernel.more s) @ ys \<and> (ready q j s \<longrightarrow> ready q j t \<or> mentioned ys))"

definition served :: "'a kernel_scheme \<Rightarrow> 'a kernel_scheme \<Rightarrow> bool" where
  "served s t \<longleftrightarrow> (\<exists>ys. log (kernel.more t) = log (kernel.more s) @ ys \<and> mentioned ys)"

lemma mentioned_append [simp]: "mentioned (xs @ ys) \<longleftrightarrow> mentioned xs \<or> mentioned ys"
  by (auto simp: mentioned_def)

lemma mentioned_Nil [simp]: "\<not> mentioned []"
  by (simp add: mentioned_def)

lemma progressed_refl: "progressed s s"
  by (auto simp: progressed_def)

lemma progressed_trans: "progressed s t \<Longrightarrow> progressed t u \<Longrightarrow> progressed s u"
  unfolding progressed_def by (metis append.assoc mentioned_append)

lemma served_progressed: "served s t \<Longrightarrow> progressed t u \<Longrightarrow> served s u"
  unfolding served_def progressed_def by (metis append.assoc mentioned_append)

lemma progressed_served: "progressed s t \<Longrightarrow> ready q j s \<Longrightarrow> (ready q j t \<Longrightarrow> served t u) \<Longrightarrow> progressed t u \<Longrightarrow> served s u"
  unfolding served_def progressed_def by (metis append.assoc mentioned_append)

lemma progressed_same: "kernel.more t = kernel.more s \<Longrightarrow> ready q j t = ready q j s \<Longrightarrow> progressed s t"
  by (auto simp: progressed_def)

lemma run_thread:
  assumes "in_visit p s" and "p < NPROC" and "i < NTHREAD"
  shows "\<exists>t. bindR (run p i (dispatch p i s)) (\<lambda>s. Ok (undispatch s)) = Ok t \<and> in_visit p t \<and> progressed s t
    \<and> ((p, i) = (q, j) \<longrightarrow> served s t)"
proof -
  note d = dispatch_visit [OF assms(1), where i = i]
  from run_back [OF d(1) assms(2,3) d(4,5)] obtain w where
    w: "run p i (dispatch p i s) = Ok w" "in_visit p w"
       "log (kernel.more w) = log (kernel.more s) @ [((p, i), stopped (dispatch p i s) w)]" by (auto simp: d(2))
  have "ready q j w \<or> mentioned [((p, i), stopped (dispatch p i s) w)]" if "ready q j s"
    using d(3) [of q j] that by (auto simp: mentioned_def stopped_def)
  then show ?thesis using w by (auto simp: undispatch_visit progressed_def served_def mentioned_def)
qed

lemma visit_threads:
  assumes "in_visit p s" and "p < NPROC" and "set is \<subseteq> {..<NTHREAD}"
  shows "\<exists>t. foldR (\<lambda>i s. if t_state (thr p i s) = RUNNABLE then bindR (run p i (dispatch p i s)) (\<lambda>s. Ok (undispatch s)) else Ok s) is s = Ok t
    \<and> in_visit p t \<and> progressed s t \<and> (p = q \<and> j \<in> set is \<and> ready q j s \<longrightarrow> served s t)"
  using assms
proof (induction "is" arbitrary: s)
  case Nil
  then show ?case using progressed_refl by auto
next
  case (Cons i "is")
  have i: "i < NTHREAD" "set is \<subseteq> {..<NTHREAD}" using Cons.prems(3) by auto
  let ?step = "\<lambda>i s. if t_state (thr p i s) = RUNNABLE then bindR (run p i (dispatch p i s)) (\<lambda>s. Ok (undispatch s)) else Ok s"
  have "\<exists>u. ?step i s = Ok u \<and> in_visit p u \<and> progressed s u \<and> ((p, i) = (q, j) \<and> ready q j s \<longrightarrow> served s u)"
    using run_thread [OF Cons.prems(1,2) i(1)] Cons.prems(1) progressed_refl [of s] by (auto simp: ready_def)
  then obtain u where u: "?step i s = Ok u" "in_visit p u" "progressed s u" "(p, i) = (q, j) \<and> ready q j s \<longrightarrow> served s u" by blast
  from Cons.IH [OF u(2) Cons.prems(2) i(2)] obtain t where
    t: "foldR ?step is u = Ok t" "in_visit p t" "progressed u t" "p = q \<and> j \<in> set is \<and> ready q j u \<longrightarrow> served u t" by blast
  have "served s t" if "p = q" "j \<in> set (i # is)" "ready q j s"
  proof (cases "j = i")
    case True
    then show ?thesis using that u(4) served_progressed [OF _ t(3)] by simp
  next
    case False
    then show ?thesis using that t(4) progressed_served [OF u(3) that(3) _ t(3)] by simp
  qed
  then show ?case using u(1) t(1,2) progressed_trans [OF u(3) t(3)] by auto
qed

lemma visit_process:
  assumes "sched_idle s" and "p < NPROC"
  shows "\<exists>t. scheduler_visit run p s = Ok t \<and> sched_idle t \<and> progressed s t \<and> (p = q \<and> j < NTHREAD \<and> ready q j s \<longrightarrow> served s t)"
proof -
  from acquire_visit [OF assms, of q j] obtain u where
    u: "acquire_p p s = Ok u" "in_visit p u" "kernel.more u = kernel.more s" "ready q j u = ready q j s" by blast
  note su = progressed_same [OF u(3,4)]
  let ?body = "if p_state (procs u p) \<noteq> UNUSED
    then foldR (\<lambda>i s. if t_state (thr p i s) = RUNNABLE then bindR (run p i (dispatch p i s)) (\<lambda>s. Ok (undispatch s)) else Ok s) [0..<NTHREAD] u
    else Ok u"
  have "\<exists>w. ?body = Ok w \<and> in_visit p w \<and> progressed u w \<and> (p = q \<and> j < NTHREAD \<and> ready q j u \<longrightarrow> served u w)"
  proof (cases "p_state (procs u p) = UNUSED")
    case True
    then show ?thesis using u(2) progressed_refl [of u] by (auto simp: ready_def)
  next
    case False
    have "set [0..<NTHREAD] \<subseteq> {..<NTHREAD}" by auto
    from visit_threads [OF u(2) assms(2) this] False show ?thesis by auto
  qed
  then obtain w where w: "?body = Ok w" "in_visit p w" "progressed u w" "p = q \<and> j < NTHREAD \<and> ready q j u \<longrightarrow> served u w" by blast
  from release_visit [OF w(2), of q j] obtain t where
    t: "release_p p w = Ok t" "sched_idle t" "kernel.more t = kernel.more w" "ready q j t = ready q j w" by blast
  note wt = progressed_same [OF t(3,4)]
  have "scheduler_visit run p s = Ok t" unfolding scheduler_visit_def u(1) bindR.simps w(1) using t(1) by simp
  moreover have "progressed s t" using progressed_trans [OF su progressed_trans [OF w(3) wt]] .
  moreover have "served s t" if "p = q" "j < NTHREAD" "ready q j s"
    using progressed_served [OF su that(3) _ progressed_trans [OF w(3) wt]] w(4) that served_progressed [OF _ wt] by blast
  ultimately show ?thesis using t(2) by blast
qed

lemma visit_processes:
  assumes "sched_idle s" and "set ps \<subseteq> {..<NPROC}"
  shows "\<exists>t. foldR (scheduler_visit run) ps s = Ok t \<and> sched_idle t \<and> progressed s t \<and> (q \<in> set ps \<and> j < NTHREAD \<and> ready q j s \<longrightarrow> served s t)"
  using assms
proof (induction ps arbitrary: s)
  case Nil
  then show ?case using progressed_refl by auto
next
  case (Cons p ps)
  have p: "p < NPROC" "set ps \<subseteq> {..<NPROC}" using Cons.prems(2) by auto
  from visit_process [OF Cons.prems(1) p(1)] obtain u where
    u: "scheduler_visit run p s = Ok u" "sched_idle u" "progressed s u" "p = q \<and> j < NTHREAD \<and> ready q j s \<longrightarrow> served s u" by blast
  from Cons.IH [OF u(2) p(2)] obtain t where
    t: "foldR (scheduler_visit run) ps u = Ok t" "sched_idle t" "progressed u t" "q \<in> set ps \<and> j < NTHREAD \<and> ready q j u \<longrightarrow> served u t" by blast
  have "served s t" if "q \<in> set (p # ps)" "j < NTHREAD" "ready q j s"
  proof (cases "p = q")
    case True
    then show ?thesis using that u(4) served_progressed [OF _ t(3)] by simp
  next
    case False
    then show ?thesis using that t(4) progressed_served [OF u(3) that(3) _ t(3)] by simp
  qed
  then show ?case using u(1) t(1,2) progressed_trans [OF u(3) t(3)] by auto
qed

lemma pass_serves:
  assumes "sched_idle s" and "q < NPROC" and "j < NTHREAD" and "ready q j s"
  shows "\<exists>t ys. scheduler_pass run s = Ok t \<and> sched_idle t \<and> log (kernel.more t) = log (kernel.more s) @ ys
    \<and> (\<exists>e\<in>set ys. fst e = (q, j) \<or> (q, j) \<in> snd e)"
proof -
  have i: "sched_idle (intr_on s)" "ready q j (intr_on s)" "kernel.more (intr_on s) = kernel.more s"
    using assms by (simp_all add: intr_on_def sched_idle_def locks_free_def ready_def thr_def)
  have "set [0..<NPROC] \<subseteq> {..<NPROC}" by auto
  from visit_processes [OF i(1) this] obtain t where
    t: "foldR (scheduler_visit run) [0..<NPROC] (intr_on s) = Ok t" "sched_idle t" "served (intr_on s) t" using assms(2,3) i(2) by auto
  then show ?thesis unfolding scheduler_pass_def served_def i(3) mentioned_def by auto
qed

end

subsection \<open>Threads that the timer preempts\<close>

text \<open>
  A thread that was preempted comes back in \<^verbatim>\<open>yield\<close>, runs, and is preempted again: \<^verbatim>\<open>usertrap\<close> calls \<^verbatim>\<open>yield\<close> on the
  next timer interrupt. The state is extended by the log: such a thread makes no other unrunnable.
\<close>

definition preempted :: "nat \<Rightarrow> nat \<Rightarrow> sched_log kernel_scheme \<Rightarrow> sched_log kernel_scheme result" where
  "preempted p i s =
     bindR (yield_back True p s) (\<lambda>s.
     bindR (yield_out (kernel.more_update (\<lambda>l. l @ [((p, i), {})]) s)) (\<lambda>(ena, s). Ok s))"

lemma yield_back_visit:
  assumes "in_visit p s" and "p < NPROC"
  shows "\<exists>t. yield_back True p s = Ok t \<and> settled t \<and> noff (mycpu t) = 0 \<and> locks_free t \<and> kernel.more t = kernel.more s
    \<and> c_proc (mycpu t) = c_proc (mycpu s) \<and> c_thread (mycpu t) = c_thread (mycpu s) \<and> (\<forall>q j. ready q j t = ready q j s)"
proof -
  let ?b = "sched_back True s"
  have v: "\<not> intr_get ?b" "noff (mycpu ?b) = 1" "holding (p_lock (procs ?b p)) ?b" "\<forall>q<NPROC. q \<noteq> p \<longrightarrow> free_lock (p_lock (procs s q))"
    using assms by (simp_all add: in_visit_def sched_back_def intr_get_def holding_def)
  let ?u = "upd_cpu (\<lambda>c. c\<lparr>noff := 0, sstatus := (if intena c then sstatus c OR SSTATUS_SIE else sstatus c)\<rparr>) ?b"
  let ?t = "upd_proc p (\<lambda>pr. pr\<lparr>p_lock := (p_lock (procs s p))\<lparr>lcpu := None, locked := 0\<rparr>\<rparr>) ?u"
  have "yield_back True p s = Ok ?t"
    unfolding yield_back_def release_p_def release_def using v(3) pop_off_to_zero [OF v(1,2)] by (simp add: sched_back_def)
  moreover have "intr_get ?t" by (simp add: intr_get_iff sched_back_def bit_simps)
  then have "settled ?t" by (simp add: settled_def off_inv_def sched_back_def)
  moreover have "locks_free ?t" using v(4) by (simp add: locks_free_def free_lock_def sched_back_def)
  moreover have "ready q j ?t = ready q j s" for q j by (simp add: ready_def thr_def sched_back_def)
  ultimately show ?thesis by (auto simp: sched_back_def)
qed

lemma yield_out_visit:
  assumes "settled s" and "noff (mycpu s) = 0" and "locks_free s" and "p < NPROC" and "c_proc (mycpu s) = Some p" and "c_thread (mycpu s) = Some (p, i)"
  shows "\<exists>ena t. yield_out s = Ok (ena, t) \<and> in_visit p t \<and> kernel.more t = kernel.more s \<and> (\<forall>q j. ready q j s \<longrightarrow> ready q j t)"
proof -
  let ?h = "upd_thread p i (\<lambda>t. t\<lparr>t_state := RUNNABLE\<rparr>) (hold p s)"
  have f: "free_lock (p_lock (procs s p))" using assms(3,4) by (simp add: locks_free_def)
  have st: "settled ?h" using assms(1) by (simp add: upd_thread_def)
  have m: "mycpu ?h = mycpu (push_off s)" by (simp add: upd_thread_def hold_def)
  have c: "c_proc (mycpu ?h) = Some p" "c_thread (mycpu ?h) = Some (p, i)" "noff (mycpu ?h) = 1" unfolding m using assms(2,5,6) by simp_all
  have i: "\<not> intr_get ?h" using intr_get_push_off [of s] m by (simp add: intr_get_def)
  have lk: "holding (p_lock (procs ?h p)) ?h" by (simp add: upd_thread_def hold_def holding_def)
  let ?t = "upd_cpu (\<lambda>c. c\<lparr>c_regs := c_context c\<rparr>) (upd_thread p i (\<lambda>t. t\<lparr>t_context := c_regs (mycpu ?h)\<rparr>) ?h)"
  have "sched_out ?h = Ok (intena (mycpu ?h), ?t)"
    using st lk c i by (simp add: sched_out_def with_proc_settled with_thread_settled Let_def)
  then have "yield_out s = Ok (intena (mycpu ?h), ?t)"
    using assms(1,5,6) f by (simp add: yield_out_def with_proc_settled with_thread_settled acquire_p_hold)
  moreover have "in_visit p ?t"
    using c(3) i lk assms(3) by (auto simp: in_visit_def intr_get_def holding_def upd_thread_def hold_def locks_free_def)
  moreover have "kernel.more ?t = kernel.more s" by (simp add: upd_thread_def hold_def push_off_eq)
  moreover have "ready q j ?t" if "ready q j s" for q j
    using that by (auto simp: ready_def thr_def upd_thread_def hold_def)
  ultimately show ?thesis by blast
qed

lemma more_update_fields [simp]:
  "settled (kernel.more_update f s) = settled s" "mycpu (kernel.more_update f s) = mycpu s" "locks_free (kernel.more_update f s) = locks_free s"
  "ready q j (kernel.more_update f s) = ready q j s"
  by (simp_all add: settled_def off_inv_def intr_get_def mycpu_def locks_free_def ready_def thr_def)

lemma preempted_visit:
  assumes "in_visit p s" and "p < NPROC" and "c_thread (mycpu s) = Some (p, i)" and "c_proc (mycpu s) = Some p"
  shows "\<exists>t. preempted p i s = Ok t \<and> in_visit p t \<and> kernel.more t = kernel.more s @ [((p, i), stopped s t)]"
proof -
  from yield_back_visit [OF assms(1,2)] obtain u where
    u: "yield_back True p s = Ok u" "settled u" "noff (mycpu u) = 0" "locks_free u" "kernel.more u = kernel.more s"
       "c_proc (mycpu u) = c_proc (mycpu s)" "c_thread (mycpu u) = c_thread (mycpu s)" "\<forall>q j. ready q j u = ready q j s" by blast
  let ?u = "kernel.more_update (\<lambda>l. l @ [((p, i), {})]) u"
  from yield_out_visit [of ?u p i] u(2-8) assms(2-4) obtain ena t where
    "yield_out ?u = Ok (ena, t)" "in_visit p t" "kernel.more t = kernel.more ?u" "\<forall>q j. ready q j ?u \<longrightarrow> ready q j t" by auto
  moreover from this(4) u(8) have "stopped s t = {}" by (auto simp: stopped_def)
  ultimately show ?thesis using u(1,5) by (simp add: preempted_def)
qed

interpretation preempted: scheduled preempted "\<lambda>l. l" q j for q j
proof
  fix p i and u :: "sched_log kernel_scheme"
  assume "in_visit p u" "p < NPROC" "i < NTHREAD" "c_thread (mycpu u) = Some (p, i)" "c_proc (mycpu u) = Some p"
  then show "\<exists>w. preempted p i u = Ok w \<and> in_visit p w \<and> kernel.more w = kernel.more u @ [((p, i), stopped u w)]"
    by (intro preempted_visit)
qed

text \<open>
  C11. No runnable thread is passed over by the scheduler of a hart. If each thread that it switches to
  switches back with the lock of its process held and every other process unlocked, then one round of
  \<^verbatim>\<open>scheduler\<close> comes to its end, and every thread that was runnable at its beginning has run in it, or has
  been made unrunnable in it by one of the threads that ran. Other harts take no step in the meantime.
\<close>

theorem scheduler_runs_every_thread:
  assumes "scheduled run log" and "sched_idle s" and "q < NPROC" and "j < NTHREAD" and "ready q j s"
  shows "\<exists>t ys. scheduler_pass run s = Ok t \<and> sched_idle t \<and> log (kernel.more t) = log (kernel.more s) @ ys
    \<and> (\<exists>e\<in>set ys. fst e = (q, j) \<or> (q, j) \<in> snd e)"
  by (rule scheduled.pass_serves [OF assms])

definition sched_example :: "sched_log kernel_scheme" where
  "sched_example = upd_thread 2 0 (\<lambda>t. t\<lparr>t_state := RUNNABLE\<rparr>) (kernel.extend kernel_example [])"

theorem scheduler_runs_every_thread_witness:
  "\<exists>t. scheduler_pass preempted sched_example = Ok t \<and> (\<exists>e\<in>set (kernel.more t). fst e = (2, 0) \<or> (2, 0) \<in> snd e)"
proof -
  have "locks_free sched_example"
    by (auto simp: sched_example_def upd_thread_def locks_free_def kernel.defs kernel_example_def free_lock_def proc0_def proc_example_def)
  then have s: "sched_idle sched_example"
    by (simp add: sched_idle_def sched_example_def upd_thread_def kernel.defs kernel_example_def mycpu_def upd_proc_def cpu0_def)
  have r: "ready 2 0 sched_example"
    by (simp add: ready_def sched_example_def upd_thread_def thr_def kernel.defs kernel_example_def proc_example_def proc0_def)
  have n: "(2 :: nat) < NPROC" "(0 :: nat) < NTHREAD" by (simp_all add: NPROC_def NTHREAD_def)
  from scheduler_runs_every_thread [OF preempted.scheduled_axioms s n r] show ?thesis
    by (auto simp: sched_example_def upd_thread_def kernel.defs upd_proc_def)
qed

end
