(* ===== verification/Ring.thy ===== *)
theory Ring
  imports Prelude
begin

text \<open>
  Ring buffers. The pipe, the console input and the transmit queue of the UART all keep their bytes in
  an array indexed by two counters that are never reduced: \<open>buf[r % N]\<close> is the oldest byte, \<open>buf[w % N]\<close>
  the next free place, and both counters wrap at the width of their type. The array is a queue exactly
  because \<open>N\<close> divides the range of the counters. The locale proves that once; the components interpret
  it at the width and the size that the source uses.
\<close>

definition ring_queue :: "nat \<Rightarrow> (nat \<Rightarrow> 'b) \<Rightarrow> 'c::len word \<Rightarrow> 'c word \<Rightarrow> 'b list" where
  "ring_queue n buf r w = map (\<lambda>k. buf (unat (r + of_nat k) mod n)) [0..<unat (w - r)]"

lemma length_ring_queue [simp]: "length (ring_queue n buf r w) = unat (w - r)"
  by (simp add: ring_queue_def)

lemma ring_queue_empty: "ring_queue n buf r w = [] \<longleftrightarrow> r = w"
  by (simp add: ring_queue_def unat_eq_0) auto

lemma ring_queue_pop:
  fixes r w :: "'c::len word"
  assumes "r \<noteq> w"
  shows "ring_queue n buf r w = buf (unat r mod n) # ring_queue n buf (r + 1) w"
proof -
  have "w - r \<noteq> 0" using assms by simp
  then have l: "unat (w - r) = Suc (unat (w - (r + 1)))"
    using unat_minus_one [of "w - r"] by (simp add: diff_diff_eq unat_gt_0)
  have "map (\<lambda>k. buf (unat (r + of_nat k) mod n)) [0..<Suc (unat (w - (r + 1)))]
      = buf (unat r mod n) # map (\<lambda>k. buf (unat (r + 1 + of_nat k) mod n)) [0..<unat (w - (r + 1))]"
    by (subst upt_conv_Cons, simp)
       (simp add: map_Suc_upt [symmetric] o_def add.assoc del: upt_Suc)
  then show ?thesis unfolding ring_queue_def l .
qed

lemma ring_queue_drop_last:
  fixes r w :: "'c::len word"
  assumes "r \<noteq> w"
  shows "ring_queue n buf r w = ring_queue n buf r (w - 1) @ [buf (unat (w - 1) mod n)]"
proof -
  have n: "w - r \<noteq> 0" using assms by simp
  have c: "w - 1 - r = w - r - 1" by (simp add: diff_diff_eq add.commute)
  have "unat (w - 1 - r) = unat (w - r) - 1" unfolding c by (rule unat_minus_one [OF n])
  moreover have "0 < unat (w - r)" using n by (simp add: unat_gt_0)
  ultimately have l: "unat (w - r) = Suc (unat (w - 1 - r))" by linarith
  have e: "r + of_nat (unat (w - 1 - r)) = w - 1" by simp
  show ?thesis unfolding ring_queue_def l upt_Suc by (simp add: e)
qed

text \<open>The tests for room in the source: \<open>w = r + N\<close> is a full buffer.\<close>

lemma ring_room:
  fixes r w :: "'c::len word"
  assumes "unat (w - r) \<le> n" and "w \<noteq> r + of_nat n"
  shows "unat (w - r) < n"
proof (rule ccontr)
  assume "\<not> unat (w - r) < n"
  with assms(1) have n: "unat (w - r) = n" by simp
  have "of_nat (unat (w - r)) = w - r" by simp
  then have "w = r + of_nat n" unfolding n by (simp add: algebra_simps)
  with assms(2) show False by simp
qed

lemma ring_length_push:
  fixes r w :: "'c::len word"
  assumes "unat (w - r) + 1 < 2 ^ LENGTH('c)"
  shows "unat (w + 1 - r) = unat (w - r) + 1"
  using assms unat_word_ariths(1) [of "w - r" 1] by (simp add: diff_add_eq)

locale ring =
  fixes N :: nat and counter :: "'c::len itself"
  assumes pos: "0 < N" and dvd: "N dvd 2 ^ LENGTH('c)"
begin

lemma size_bound: "N \<le> 2 ^ LENGTH('c)"
  using dvd by (rule dvd_imp_le) simp

lemma index_add: "unat (r + of_nat k :: 'c word) mod N = (unat r + k) mod N"
proof -
  have "unat (r + of_nat k :: 'c word) = (unat r + k) mod 2 ^ LENGTH('c)"
    by (simp add: unat_word_ariths unat_of_nat mod_add_right_eq)
  then show ?thesis by (simp add: mod_mod_cancel [OF dvd])
qed

lemma push_other:
  assumes "k < unat (w - r)" and "unat (w - r) < N"
  shows "unat (r + of_nat k :: 'c word) mod N \<noteq> unat (w :: 'c word) mod N"
proof
  assume "unat (r + of_nat k) mod N = unat w mod N"
  moreover have "w = r + of_nat (unat (w - r))" by simp
  ultimately have "(unat r + k) mod N = (unat r + unat (w - r)) mod N"
    using index_add by metis
  then have "N dvd unat (w - r) - k"
    using assms(1) mod_eq_dvd_iff_nat [of "unat r + k" "unat r + unat (w - r)" N] by simp
  with assms show False by (auto dest: dvd_imp_le)
qed

lemma push:
  fixes r w :: "'c word"
  assumes room: "unat (w - r) < N" and fits: "unat (w - r) + 1 < 2 ^ LENGTH('c)"
  shows "ring_queue N (buf(unat w mod N := x)) r (w + 1) = ring_queue N buf r w @ [x]"
proof -
  let ?n = "unat (w - r)"
  have l: "unat (w + 1 - r) = Suc ?n"
    using ring_length_push [OF fits] by simp
  have e: "r + of_nat ?n = w" by simp
  have "map (\<lambda>k. (buf(unat w mod N := x)) (unat (r + of_nat k) mod N)) [0..<?n]
      = map (\<lambda>k. buf (unat (r + of_nat k) mod N)) [0..<?n]"
    using push_other [OF _ room] by (intro map_cong) auto
  then show ?thesis by (simp add: ring_queue_def l)
qed

end

subsection \<open>Bounded queues\<close>

text \<open>
  The contract of a queue whose operations are guarded by a test for room, and what follows for any
  sequence of operations, in whatever order writers and readers come: nothing is lost, nothing is
  invented, and the order is kept.
\<close>

datatype 'b queue_op = Put 'b | Get

text \<open>A put that finds no room and a get that finds nothing wait, and are not steps of the run.\<close>

fun queue_run :: "('s \<Rightarrow> bool) \<Rightarrow> ('s \<Rightarrow> bool) \<Rightarrow> ('b \<Rightarrow> 's \<Rightarrow> 's) \<Rightarrow> ('s \<Rightarrow> 'b \<times> 's) \<Rightarrow> 'b queue_op list \<Rightarrow> 's
    \<Rightarrow> ('b list \<times> 's) option" where
  "queue_run full none put get [] s = Some ([], s)"
| "queue_run full none put get (Put b # ops) s =
     (if full s then None else queue_run full none put get ops (put b s))"
| "queue_run full none put get (Get # ops) s =
     (if none s then None
      else let (b, s) = get s
           in map_option (\<lambda>(bs, t). (b # bs, t)) (queue_run full none put get ops s))"

fun puts :: "'b queue_op list \<Rightarrow> 'b list" where
  "puts [] = []"
| "puts (Put b # ops) = b # puts ops"
| "puts (Get # ops) = puts ops"

locale bounded_queue =
  fixes queue :: "'s \<Rightarrow> 'b list" and ok full none :: "'s \<Rightarrow> bool" and put :: "'b \<Rightarrow> 's \<Rightarrow> 's" and get :: "'s \<Rightarrow> 'b \<times> 's"
  assumes put_ok: "ok s \<Longrightarrow> \<not> full s \<Longrightarrow> ok (put b s)"
    and put_queue: "ok s \<Longrightarrow> \<not> full s \<Longrightarrow> queue (put b s) = queue s @ [b]"
    and get_ok: "ok s \<Longrightarrow> \<not> none s \<Longrightarrow> ok (snd (get s))"
    and get_queue: "ok s \<Longrightarrow> \<not> none s \<Longrightarrow> queue s = fst (get s) # queue (snd (get s))"
begin

lemma fifo:
  "ok s \<Longrightarrow> queue_run full none put get ops s = Some (out, t) \<Longrightarrow> ok t \<and> out @ queue t = queue s @ puts ops"
proof (induction ops arbitrary: s out)
  case Nil
  then show ?case by simp
next
  case (Cons op ops)
  show ?case
  proof (cases op)
    case (Put b)
    have f: "\<not> full s" and r: "queue_run full none put get ops (put b s) = Some (out, t)"
      using Cons.prems(2) unfolding Put by (simp_all split: if_splits)
    have "ok t \<and> out @ queue t = queue (put b s) @ puts ops"
      by (rule Cons.IH [OF put_ok [OF Cons.prems(1) f] r])
    then show ?thesis unfolding Put put_queue [OF Cons.prems(1) f] by simp
  next
    case Get
    have e: "\<not> none s" using Cons.prems(2) unfolding Get by (simp split: if_splits)
    obtain bs where o: "out = fst (get s) # bs" and r: "queue_run full none put get ops (snd (get s)) = Some (bs, t)"
      using Cons.prems(2) e unfolding Get by (cases "get s") auto
    have "ok t \<and> bs @ queue t = queue (snd (get s)) @ puts ops"
      by (rule Cons.IH [OF get_ok [OF Cons.prems(1) e] r])
    then show ?thesis unfolding Get o get_queue [OF Cons.prems(1) e] by simp
  qed
qed

end

end
