(* ===== verification/Uart.thy ===== *)
theory Uart
  imports Ring Inode
begin

text \<open>
  The UART driver (\<^verbatim>\<open>kernel/uart.c\<close>), formatted output (\<^verbatim>\<open>kernel/printf.c\<close>) and the state of the console
  device. The 16550A chip is a record with the registers that the driver uses: writes go to the transmit
  register, to the divisor latch or to the interrupt enable register as the line control register says,
  and the line status register tells whether there is room and whether input waits. The bytes sent are
  the list \<open>u_out\<close>. The critical sections under \<^verbatim>\<open>uart_tx_lock\<close>, \<^verbatim>\<open>cons.lock\<close> and \<^verbatim>\<open>pr.lock\<close> are single
  steps. A C string is the list of its bytes before the NUL.
\<close>

subsection \<open>The chip\<close>

record uart =
  u_lcr :: uchar
  u_ier :: uchar
  u_dll :: uchar
  u_dlm :: uchar
  u_fcr :: uchar
  u_room :: nat          \<comment> \<open>bytes that the transmitter accepts before it is busy\<close>
  u_in :: "uchar list"   \<comment> \<open>received, not yet read\<close>
  u_out :: "uchar list"  \<comment> \<open>sent\<close>

definition RHR :: nat where "RHR = 0"
definition THR :: nat where "THR = 0"
definition IER :: nat where "IER = 1"
definition IER_RX_ENABLE :: uchar where "IER_RX_ENABLE = 1"
definition IER_TX_ENABLE :: uchar where "IER_TX_ENABLE = 2"
definition FCR :: nat where "FCR = 2"
definition FCR_FIFO_ENABLE :: uchar where "FCR_FIFO_ENABLE = 1"
definition FCR_FIFO_CLEAR :: uchar where "FCR_FIFO_CLEAR = push_bit 1 3"
definition LCR :: nat where "LCR = 3"
definition LCR_EIGHT_BITS :: uchar where "LCR_EIGHT_BITS = 3"
definition LCR_BAUD_LATCH :: uchar where "LCR_BAUD_LATCH = push_bit 7 1"
definition LSR :: nat where "LSR = 5"
definition LSR_RX_READY :: uchar where "LSR_RX_READY = 1"
definition LSR_TX_IDLE :: uchar where "LSR_TX_IDLE = push_bit 5 1"

definition lsr :: "uart \<Rightarrow> uchar" where
  "lsr u = (if u_in u \<noteq> [] then LSR_RX_READY else 0) OR (if 0 < u_room u then LSR_TX_IDLE else 0)"

definition ReadReg :: "nat \<Rightarrow> uart \<Rightarrow> uchar \<times> uart" where
  "ReadReg reg u =
     (if reg = LSR then (lsr u, u)
      else if reg = RHR then (case u_in u of [] \<Rightarrow> (0, u) | c # cs \<Rightarrow> (c, u\<lparr>u_in := cs\<rparr>))
      else (0, u))"

definition WriteReg :: "nat \<Rightarrow> uchar \<Rightarrow> uart \<Rightarrow> uart" where
  "WriteReg reg v u =
     (if reg = THR
      then if u_lcr u AND LCR_BAUD_LATCH \<noteq> 0 then u\<lparr>u_dll := v\<rparr> else u\<lparr>u_out := u_out u @ [v], u_room := u_room u - 1\<rparr>
      else if reg = IER then if u_lcr u AND LCR_BAUD_LATCH \<noteq> 0 then u\<lparr>u_dlm := v\<rparr> else u\<lparr>u_ier := v\<rparr>
      else if reg = FCR then u\<lparr>u_fcr := v, u_in := (if v AND FCR_FIFO_CLEAR \<noteq> 0 then [] else u_in u)\<rparr>
      else if reg = LCR then u\<lparr>u_lcr := v\<rparr>
      else u)"

lemmas uart_regs = RHR_def THR_def IER_def IER_RX_ENABLE_def IER_TX_ENABLE_def FCR_def FCR_FIFO_ENABLE_def
  FCR_FIFO_CLEAR_def LCR_def LCR_EIGHT_BITS_def LCR_BAUD_LATCH_def LSR_def LSR_RX_READY_def LSR_TX_IDLE_def

subsection \<open>State of the console device\<close>

definition UART_TX_BUF_SIZE :: nat where "UART_TX_BUF_SIZE = 32"
definition INPUT_BUF :: nat where "INPUT_BUF = 128"

record cons =
  c_buf :: "nat \<Rightarrow> uchar"
  c_r :: uint
  c_w :: uint
  c_e :: uint

text \<open>What a slot of \<^verbatim>\<open>devsw\<close> may point to.\<close>

datatype devfun = Consoleread | Consolewrite

record devsw =
  dw_read :: "devfun option"
  dw_write :: "devfun option"

record devs = fsys +
  uart :: uart
  uart_tx_buf :: "nat \<Rightarrow> uchar"
  uart_tx_w :: uint64
  uart_tx_r :: uint64
  cons :: cons
  pr_locking :: int
  panicked :: int
  devsw :: "nat \<Rightarrow> devsw"

definition upd_uart :: "(uart \<Rightarrow> uart) \<Rightarrow> 'a devs_scheme \<Rightarrow> 'a devs_scheme" where
  "upd_uart f s = s\<lparr>uart := f (uart s)\<rparr>"

subsection \<open>The driver\<close>

definition uartinit :: "'a devs_scheme \<Rightarrow> 'a devs_scheme" where
  "uartinit s = upd_uart (\<lambda>u.
     let u = WriteReg IER 0 u;
         u = WriteReg LCR LCR_BAUD_LATCH u;
         u = WriteReg 0 3 u;
         u = WriteReg 1 0 u;
         u = WriteReg LCR LCR_EIGHT_BITS u;
         u = WriteReg FCR (FCR_FIFO_ENABLE OR FCR_FIFO_CLEAR) u
     in WriteReg IER (IER_TX_ENABLE OR IER_RX_ENABLE) u) s"

text \<open>The queue between \<^verbatim>\<open>uart_tx_r\<close> and \<^verbatim>\<open>uart_tx_w\<close>.\<close>

definition tx_empty :: "'a devs_scheme \<Rightarrow> bool" where
  "tx_empty s \<longleftrightarrow> uart_tx_w s = uart_tx_r s"

definition tx_full :: "'a devs_scheme \<Rightarrow> bool" where
  "tx_full s \<longleftrightarrow> uart_tx_w s = uart_tx_r s + of_nat UART_TX_BUF_SIZE"

definition tx_put :: "uchar \<Rightarrow> 'a devs_scheme \<Rightarrow> 'a devs_scheme" where
  "tx_put c s = s\<lparr>uart_tx_buf := (uart_tx_buf s)(unat (uart_tx_w s) mod UART_TX_BUF_SIZE := c), uart_tx_w := uart_tx_w s + 1\<rparr>"

definition tx_get :: "'a devs_scheme \<Rightarrow> uchar \<times> 'a devs_scheme" where
  "tx_get s = (uart_tx_buf s (unat (uart_tx_r s) mod UART_TX_BUF_SIZE), s\<lparr>uart_tx_r := uart_tx_r s + 1\<rparr>)"

text \<open>
  The loop of \<^verbatim>\<open>uartstart\<close> takes a byte from the queue in every round, so that it ends after at most as
  many rounds as there are bytes; \<open>n\<close> bounds the rounds.
\<close>

fun uartstart_loop :: "nat \<Rightarrow> 'a devs_scheme \<Rightarrow> 'a devs_scheme result" where
  "uartstart_loop n s =
     (if tx_empty s then Ok s
      else if fst (ReadReg LSR (uart s)) AND LSR_TX_IDLE = 0 then Ok s
      else case n of 0 \<Rightarrow> Hang
      | Suc n \<Rightarrow>
          let (c, s) = tx_get s
          in bindR (wakeup UartTxChan s) (\<lambda>s. uartstart_loop n (upd_uart (WriteReg THR c) s)))"

declare uartstart_loop.simps [simp del]

definition uartstart :: "'a devs_scheme \<Rightarrow> 'a devs_scheme result" where
  "uartstart s = uartstart_loop (unat (uart_tx_w s - uart_tx_r s)) s"

text \<open>\<open>False\<close>: the buffer is full and the caller sleeps; it tries again after a wakeup.\<close>

definition uartputc :: "uchar \<Rightarrow> 'a devs_scheme \<Rightarrow> (bool \<times> 'a devs_scheme) result" where
  "uartputc c s =
     (if panicked s \<noteq> 0 then Hang
      else if tx_full s then Ok (False, s)
      else bindR (uartstart (tx_put c s)) (\<lambda>s. Ok (True, s)))"

definition uartputc_sync :: "uchar \<Rightarrow> 'a devs_scheme \<Rightarrow> 'a devs_scheme result" where
  "uartputc_sync c s =
     (let s = push_off s
      in if panicked s \<noteq> 0 then Hang
         else if fst (ReadReg LSR (uart s)) AND LSR_TX_IDLE = 0 then Hang
         else pop_off (upd_uart (WriteReg THR c) s))"

definition uartgetc :: "'a devs_scheme \<Rightarrow> int \<times> 'a devs_scheme" where
  "uartgetc s =
     (if fst (ReadReg LSR (uart s)) AND 1 \<noteq> 0
      then let (c, u) = ReadReg RHR (uart s) in (uint c, s\<lparr>uart := u\<rparr>)
      else (-1, s))"

subsection \<open>Output to the console\<close>

definition BACKSPACE :: uint where "BACKSPACE = 0x100"

definition consputc :: "uint \<Rightarrow> 'a devs_scheme \<Rightarrow> 'a devs_scheme result" where
  "consputc c s =
     (if c = BACKSPACE
      then bindR (uartputc_sync 8 s) (\<lambda>s. bindR (uartputc_sync 32 s) (uartputc_sync 8))
      else uartputc_sync (ucast c) s)"

definition bytes :: "string \<Rightarrow> uchar list" where
  "bytes = map of_char"

definition put_str :: "uchar list \<Rightarrow> 'a devs_scheme \<Rightarrow> 'a devs_scheme result" where
  "put_str = foldR (\<lambda>c. consputc (ucast c))"

definition digits :: "uchar list" where "digits = bytes ''0123456789abcdef''"

text \<open>The digits of \<open>x\<close> in the order in which the loop stores them into \<^verbatim>\<open>buf\<close>, the lowest first.\<close>

function digit_loop :: "uint \<Rightarrow> uint \<Rightarrow> uchar list" where
  "digit_loop base x =
     (let c = digits ! unat (x mod base); x' = x div base
      in if x' = 0 \<or> base < 2 then [c] else c # digit_loop base x')"
  by pat_completeness auto
termination
proof (relation "measure (\<lambda>(base, x). unat x)")
  fix base x c x' :: uint
  assume "x' = x div base" "\<not> (x' = 0 \<or> base < 2)"
  then show "((base, x'), base, x) \<in> measure (\<lambda>(base, x). unat x)"
    by (auto simp: unat_div word_less_nat_alt intro!: div_less_dividend) (metis gr0I unat_eq_0 div_0 unat_div)
qed simp_all

declare digit_loop.simps [simp del]

definition printint_chars :: "uint \<Rightarrow> uint \<Rightarrow> bool \<Rightarrow> uchar list" where
  "printint_chars xx base sign =
     (let sign = (sign \<and> sint xx < 0);
          x = (if sign then - xx else xx);
          buf = digit_loop base x @ (if sign then bytes ''-'' else [])
      in rev buf)"

definition printint :: "uint \<Rightarrow> uint \<Rightarrow> bool \<Rightarrow> 'a devs_scheme \<Rightarrow> 'a devs_scheme result" where
  "printint xx base sign = put_str (printint_chars xx base sign)"

definition printptr :: "uint64 \<Rightarrow> 'a devs_scheme \<Rightarrow> 'a devs_scheme result" where
  "printptr x = put_str (bytes ''0x'' @ map (\<lambda>i. digits ! unat (drop_bit 60 (push_bit (4 * i) x))) [0..<16])"

text \<open>The arguments after the format: an \<^verbatim>\<open>int\<close>, a pointer, or a string (\<open>None\<close> is the null pointer).\<close>

datatype printf_arg = AInt uint | APtr uint64 | AStr "uchar list option"

fun printf_loop :: "uchar list \<Rightarrow> printf_arg list \<Rightarrow> 'a devs_scheme \<Rightarrow> 'a devs_scheme result" where
  "printf_loop [] args s = Ok s"
| "printf_loop (c # fmt) args s =
     (if c \<noteq> of_char (CHR ''%'') then bindR (consputc (ucast c) s) (printf_loop fmt args)
      else case fmt of
        [] \<Rightarrow> Ok s
      | c # fmt \<Rightarrow>
          if c = of_char (CHR ''d'') then
            (case args of AInt v # args \<Rightarrow> bindR (printint v 10 True s) (printf_loop fmt args) | _ \<Rightarrow> Undef ''printf argument'')
          else if c = of_char (CHR ''x'') then
            (case args of AInt v # args \<Rightarrow> bindR (printint v 16 True s) (printf_loop fmt args) | _ \<Rightarrow> Undef ''printf argument'')
          else if c = of_char (CHR ''p'') then
            (case args of APtr v # args \<Rightarrow> bindR (printptr v s) (printf_loop fmt args) | _ \<Rightarrow> Undef ''printf argument'')
          else if c = of_char (CHR ''s'') then
            (case args of AStr v # args \<Rightarrow>
               bindR (put_str (case v of None \<Rightarrow> bytes ''(null)'' | Some v \<Rightarrow> v) s) (printf_loop fmt args)
             | _ \<Rightarrow> Undef ''printf argument'')
          else if c = of_char (CHR ''%'') then bindR (consputc (ucast c) s) (printf_loop fmt args)
          else bindR (consputc (ucast (of_char (CHR ''%'') :: uchar)) s) (\<lambda>s. bindR (consputc (ucast c) s) (printf_loop fmt args)))"

declare printf_loop.simps [simp del]

definition printf :: "string \<Rightarrow> printf_arg list \<Rightarrow> 'a devs_scheme \<Rightarrow> 'a devs_scheme result" where
  "printf fmt args = printf_loop (bytes fmt) args"

text \<open>The state in which \<^verbatim>\<open>panic\<close> spins; where the rest of the model calls it, the result is \<open>Panic\<close>.\<close>

definition panic :: "string \<Rightarrow> 'a devs_scheme \<Rightarrow> 'a devs_scheme result" where
  "panic msg s =
     bindR (printf ''panic: '' [] (s\<lparr>pr_locking := 0\<rparr>)) (\<lambda>s.
     bindR (printf msg [] s) (\<lambda>s.
     bindR (printf (CHR 0x0A # []) [] s) (\<lambda>s. Ok (s\<lparr>panicked := 1\<rparr>))))"

definition printfinit :: "'a devs_scheme \<Rightarrow> 'a devs_scheme" where
  "printfinit s = s\<lparr>pr_locking := 1\<rparr>"

definition procdump_print :: "'a devs_scheme \<Rightarrow> 'a devs_scheme result" where
  "procdump_print s =
     bindR (printf (CHR 0x0A # []) [] s) (\<lambda>s.
       foldR (\<lambda>(pid, st, nm) s.
         bindR (printf ''%d %s %s'' [AInt (word_of_int pid), AStr (Some (bytes st)), AStr (Some (takeWhile (\<lambda>c. c \<noteq> 0) nm))] s)
           (printf (CHR 0x0A # []) [])) (procdump s) s)"

subsection \<open>The transmit queue\<close>

definition tx_queue :: "'a devs_scheme \<Rightarrow> uchar list" where
  "tx_queue s = ring_queue UART_TX_BUF_SIZE (uart_tx_buf s) (uart_tx_r s) (uart_tx_w s)"

definition ring_ok :: "'a devs_scheme \<Rightarrow> bool" where
  "ring_ok s \<longleftrightarrow> unat (uart_tx_w s - uart_tx_r s) \<le> UART_TX_BUF_SIZE"

interpretation tx_ring: ring UART_TX_BUF_SIZE "TYPE(64)"
  by unfold_locales (simp_all add: UART_TX_BUF_SIZE_def)

lemma tx_space: "ring_ok s \<Longrightarrow> \<not> tx_full s \<Longrightarrow> unat (uart_tx_w s - uart_tx_r s) < UART_TX_BUF_SIZE"
  unfolding ring_ok_def tx_full_def by (rule ring_room)

interpretation tx: bounded_queue tx_queue ring_ok tx_full tx_empty tx_put tx_get
proof
  fix s :: "'a devs_scheme" and b
  assume s: "ring_ok s" "\<not> tx_full s"
  have n: "unat (uart_tx_w s - uart_tx_r s) < UART_TX_BUF_SIZE" using tx_space [OF s] .
  then have f: "unat (uart_tx_w s - uart_tx_r s) + 1 < 2 ^ LENGTH(64)" by (simp add: UART_TX_BUF_SIZE_def)
  show "tx_queue (tx_put b s) = tx_queue s @ [b]"
    unfolding tx_queue_def using tx_ring.push [OF n f, of "uart_tx_buf s" b] by (simp add: tx_put_def)
  have "unat (uart_tx_w s + 1 - uart_tx_r s) = unat (uart_tx_w s - uart_tx_r s) + 1"
    by (rule ring_length_push [OF f])
  then show "ring_ok (tx_put b s)" using n by (simp add: ring_ok_def tx_put_def)
next
  fix s :: "'a devs_scheme"
  assume s: "ring_ok s" "\<not> tx_empty s"
  have ne: "uart_tx_r s \<noteq> uart_tx_w s" using s(2) by (simp add: tx_empty_def)
  show q: "tx_queue s = fst (tx_get s) # tx_queue (snd (tx_get s))"
    unfolding tx_queue_def using ring_queue_pop [OF ne] by (simp add: tx_get_def)
  show "ring_ok (snd (tx_get s))"
    using arg_cong [OF q, of length] s(1) by (simp add: ring_ok_def tx_queue_def)
qed

subsection \<open>Sending\<close>

text \<open>Nobody on this hart is inside the process table: wakeups go through.\<close>

definition quiet :: "'a kernel_scheme \<Rightarrow> bool" where
  "quiet s \<longleftrightarrow> settled s \<and> locks_free s"

lemma quiet_cong:
  assumes "tp t = tp s" and "cpus t = cpus s" and "procs t = procs s"
  shows "quiet t = quiet s"
proof -
  have "mycpu t = mycpu s" using assms by (simp add: mycpu_def)
  then have "settled t = settled s" using settled_same_mycpu [of s t] settled_same_mycpu [of t s] by auto
  with assms(3) show ?thesis by (simp add: quiet_def locks_free_def)
qed

lemma quiet_woken [simp]: "quiet (woken ch s) = quiet s"
  by (simp add: quiet_def locks_free_def)

lemma wakeup_quiet: "quiet s \<Longrightarrow> wakeup ch s = Ok (woken ch s)"
  by (simp add: quiet_def wakeup_spec woken_def)

lemma running_quiet: "running p i s \<Longrightarrow> quiet s"
  by (simp add: running_def quiet_def)

lemma woken_devs [simp]:
  "uart (woken ch s) = uart s" "uart_tx_buf (woken ch s) = uart_tx_buf s" "uart_tx_w (woken ch s) = uart_tx_w s"
  "uart_tx_r (woken ch s) = uart_tx_r s" "cons (woken ch s) = cons s" "panicked (woken ch s) = panicked s"
  by (simp_all add: woken_def)

lemma tx_woken [simp]: "tx_queue (woken ch s) = tx_queue s" "ring_ok (woken ch s) = ring_ok s" "tx_empty (woken ch s) = tx_empty s"
  by (simp_all add: tx_queue_def ring_ok_def tx_empty_def)

lemma tx_upd_uart [simp]:
  "tx_queue (upd_uart f s) = tx_queue s" "ring_ok (upd_uart f s) = ring_ok s" "uart (upd_uart f s) = f (uart s)"
  "cons (upd_uart f s) = cons s"
  by (simp_all add: tx_queue_def ring_ok_def upd_uart_def)

lemma quiet_upd_uart [simp]: "quiet (upd_uart f s) = quiet s"
  unfolding upd_uart_def by (rule quiet_cong) simp_all

lemma tx_empty_iff: "tx_empty s \<longleftrightarrow> tx_queue s = []"
  unfolding tx_queue_def tx_empty_def ring_queue_empty by auto

lemma tx_idle: "fst (ReadReg LSR u) AND LSR_TX_IDLE = 0 \<longleftrightarrow> u_room u = 0"
  by (simp add: ReadReg_def lsr_def uart_regs)

lemma write_thr:
  assumes "u_lcr u AND LCR_BAUD_LATCH = 0"
  shows "WriteReg THR c u = u\<lparr>u_out := u_out u @ [c], u_room := u_room u - 1\<rparr>"
  using assms by (simp add: WriteReg_def)

text \<open>What a run of the loop sends: as many bytes from the front of the queue as the transmitter has room for.\<close>

definition tx_sent :: "'a devs_scheme \<Rightarrow> 'a devs_scheme \<Rightarrow> bool" where
  "tx_sent s t \<longleftrightarrow> quiet t \<and> ring_ok t \<and> u_lcr (uart t) = u_lcr (uart s) \<and> u_in (uart t) = u_in (uart s) \<and> cons t = cons s
     \<and> (let k = min (length (tx_queue s)) (u_room (uart s))
        in u_out (uart t) = u_out (uart s) @ take k (tx_queue s) \<and> tx_queue t = drop k (tx_queue s)
           \<and> u_room (uart t) = u_room (uart s) - k)"

lemma uartstart_loop_sends:
  fixes s :: "'a devs_scheme"
  assumes "quiet s" and "ring_ok s" and "u_lcr (uart s) AND LCR_BAUD_LATCH = 0" and "length (tx_queue s) \<le> n"
  shows "\<exists>t. uartstart_loop n s = Ok t \<and> tx_sent s t"
  using assms
proof (induction n arbitrary: s)
  case 0
  then have "tx_empty s" by (simp only: tx_empty_iff le_zero_eq length_0_conv)
  with 0 show ?case by (simp add: uartstart_loop.simps [of 0] tx_sent_def)
next
  case (Suc n)
  show ?case
  proof (cases "tx_empty s \<or> u_room (uart s) = 0")
    case True
    then have "tx_sent s s" using Suc.prems by (auto simp: tx_sent_def tx_empty_iff)
    moreover have "uartstart_loop (Suc n) s = Ok s"
      using True tx_idle [of "uart s"] by (auto simp: uartstart_loop.simps [of "Suc n"])
    ultimately show ?thesis by blast
  next
    case False
    then have e: "\<not> tx_empty s" and room: "u_room (uart s) \<noteq> 0" by auto
    define c where "c = fst (tx_get s)"
    define u where "u = snd (tx_get s)"
    have g: "tx_get s = (c, u)" by (simp add: c_def u_def)
    have q: "tx_queue s = c # tx_queue u" using tx.get_queue [OF Suc.prems(2) e] by (simp add: c_def u_def)
    have ou: "ring_ok u" using tx.get_ok [OF Suc.prems(2) e] by (simp add: u_def)
    have fu: "quiet u" "uart u = uart s" "cons u = cons s"
      using Suc.prems(1) by (simp_all add: u_def tx_get_def quiet_cong [of "s\<lparr>uart_tx_r := uart_tx_r s + 1\<rparr>" s])
    define v where "v = upd_uart (WriteReg THR c) (woken UartTxChan u)"
    have wv: "uart v = (uart s)\<lparr>u_out := u_out (uart s) @ [c], u_room := u_room (uart s) - 1\<rparr>"
      using Suc.prems(3) by (simp add: v_def fu write_thr)
    have "quiet v" "ring_ok v" "tx_queue v = tx_queue u" "cons v = cons s" using fu ou by (simp_all add: v_def)
    moreover from this have "\<exists>t. uartstart_loop n v = Ok t \<and> tx_sent v t"
      by (intro Suc.IH) (use Suc.prems(3,4) q in \<open>simp_all add: wv\<close>)
    then obtain t where t: "uartstart_loop n v = Ok t" "tx_sent v t" by blast
    moreover obtain m where "u_room (uart s) = Suc m" using room by (cases "u_room (uart s)") auto
    ultimately have "tx_sent s t" by (simp add: tx_sent_def wv q Let_def)
    moreover have "uartstart_loop (Suc n) s = Ok t"
      using e room t(1) tx_idle [of "uart s"] wakeup_quiet [OF fu(1)]
      by (simp add: uartstart_loop.simps [of "Suc n"] g v_def)
    ultimately show ?thesis by blast
  qed
qed

text \<open>
  C32. \<^verbatim>\<open>uartstart\<close> always comes to an end, although its loop is \<^verbatim>\<open>while(1)\<close>: it sends bytes from the front of the
  transmit queue, in order, as many as the transmitter has room for and no more than there are, and
  leaves the rest in the queue.
\<close>

theorem uartstart_terminates:
  assumes "settled s" and "locks_free s" and "ring_ok s" and "u_lcr (uart s) AND LCR_BAUD_LATCH = 0"
  shows "\<exists>t. uartstart s = Ok t \<and> tx_sent s t"
  unfolding uartstart_def
  by (rule uartstart_loop_sends) (use assms in \<open>simp_all add: quiet_def tx_queue_def\<close>)

definition devs_example :: devs where
  "devs_example = fsys.extend fs_example
     \<lparr>uart = \<lparr>u_lcr = LCR_EIGHT_BITS, u_ier = 0, u_dll = 0, u_dlm = 0, u_fcr = 0, u_room = 2, u_in = [], u_out = []\<rparr>,
      uart_tx_buf = (\<lambda>k. of_nat k), uart_tx_w = 3, uart_tx_r = 0,
      cons = \<lparr>c_buf = (\<lambda>_. 0), c_r = 0, c_w = 0, c_e = 0\<rparr>, pr_locking = 0, panicked = 0,
      devsw = (\<lambda>_. \<lparr>dw_read = None, dw_write = None\<rparr>)\<rparr>"

lemma devs_example_running: "running 2 0 devs_example"
  using fs_example_running running_cong [of devs_example fs_example 2 0]
  by (simp add: devs_example_def fsys.defs)

theorem uartstart_terminates_witness:
  "\<exists>t. uartstart devs_example = Ok t \<and> tx_sent devs_example t"
  by (rule uartstart_terminates)
     (use running_quiet [OF devs_example_running] in \<open>simp_all add: quiet_def, simp_all add: devs_example_def fsys.defs ring_ok_def
        UART_TX_BUF_SIZE_def uart_regs\<close>)

subsection \<open>Formatted output\<close>

text \<open>The reference for numbers: the digits of a number in a base, the highest first, and their characters.\<close>

fun numeral_digits :: "nat \<Rightarrow> nat \<Rightarrow> nat list" where
  "numeral_digits b n = (if n < b \<or> b < 2 then [n mod b] else numeral_digits b (n div b) @ [n mod b])"

declare numeral_digits.simps [simp del]

definition digit_char :: "nat \<Rightarrow> uchar" where
  "digit_char d = (if d < 10 then 48 + of_nat d else 87 + of_nat d)"

lemma digits_nth: "d < 16 \<Longrightarrow> digits ! d = digit_char d"
proof -
  assume "d < 16"
  then have "d \<in> set [0..<16]" by simp
  moreover have "list_all (\<lambda>d. digits ! d = digit_char d) [0..<16]"
    by code_simp
  ultimately show ?thesis by (simp add: list_all_iff)
qed

lemma digit_loop_digits:
  assumes "2 \<le> unat base" and "unat base \<le> 16"
  shows "rev (digit_loop base x) = map digit_char (numeral_digits (unat base) (unat x))"
  using assms
proof (induction base x rule: digit_loop.induct)
  case (1 base x)
  have b: "\<not> base < 2" using 1(2) by (simp add: word_less_nat_alt)
  have d: "digits ! unat (x mod base) = digit_char (unat x mod unat base)"
  proof -
    have "unat x mod unat base < unat base" using 1(2) by (intro mod_less_divisor) simp
    then show ?thesis using digits_nth [of "unat x mod unat base"] 1(3) by (simp add: unat_mod)
  qed
  have small: "x div base = 0 \<longleftrightarrow> unat x < unat base"
  proof -
    have "x div base = 0 \<longleftrightarrow> unat (x div base) = 0" by (simp add: unat_eq_0)
    also have "\<dots> \<longleftrightarrow> unat x div unat base = 0" by (simp add: unat_div)
    also have "\<dots> \<longleftrightarrow> unat x < unat base" using 1(2) by (simp add: div_eq_0_iff) 
    finally show ?thesis .
  qed
  show ?case
  proof (cases "x div base = 0")
    case True
    then show ?thesis using small d 1(2)
      by (simp add: digit_loop.simps [of base x] numeral_digits.simps [of "unat base" "unat x"] Let_def)
  next
    case False
    have "rev (digit_loop base (x div base)) = map digit_char (numeral_digits (unat base) (unat x div unat base))"
      using 1(1) [OF refl refl] False b 1(2,3) by (simp add: unat_div)
    then show ?thesis using False small d 1(2) b
      by (simp add: digit_loop.simps [of base x] numeral_digits.simps [of "unat base" "unat x"] Let_def)
  qed
qed

definition number_text :: "nat \<Rightarrow> int \<Rightarrow> uchar list" where
  "number_text base z = (if z < 0 then bytes ''-'' else []) @ map digit_char (numeral_digits base (nat \<bar>z\<bar>))"

lemma unat_abs_sint: "unat (if sint x < 0 then - x else x) = nat \<bar>sint x\<bar>" for x :: uint
proof (cases "sint x < 0")
  case True
  have l: "- (2 ^ 31) \<le> sint x" using sint_ge [of x] by simp
  have "uint (- x) = - sint x"
  proof -
    have "- x = word_of_int (- sint x)" by simp
    then have "uint (- x) = take_bit 32 (- sint x)" using uint_word_of_int_eq [of "- sint x", where 'a = 32] by simp
    also have "\<dots> = (- sint x) mod 2 ^ 32" by (simp add: take_bit_eq_mod)
    also have "\<dots> = - sint x" using l True by simp
    finally show ?thesis .
  qed
  then show ?thesis using True by (simp flip: nat_uint_eq)
next
  case False
  have "uint x = sint x mod 2 ^ 32" using uint_word_of_int_eq [of "sint x", where 'a = 32] by (simp add: take_bit_eq_mod)
  also have "\<dots> = sint x" using False sint_lt [of x] by simp
  finally have "sint x = uint x" by simp
  then show ?thesis using False by (simp flip: nat_uint_eq)
qed

lemma printint_text:
  assumes "unat base = 10 \<or> unat base = 16"
  shows "printint_chars xx base True = number_text (unat base) (sint xx)"
  using digit_loop_digits [of base "if sint xx < 0 then - xx else xx"] assms unat_abs_sint [of xx]
  by (auto simp: printint_chars_def number_text_def bytes_def)

subsection \<open>Printing on the UART\<close>

text \<open>The UART accepts \<open>n\<close> more bytes from \<^verbatim>\<open>uartputc_sync\<close>.\<close>

definition can_print :: "nat \<Rightarrow> 'a devs_scheme \<Rightarrow> bool" where
  "can_print n s \<longleftrightarrow> settled s \<and> panicked s = 0 \<and> u_lcr (uart s) AND LCR_BAUD_LATCH = 0 \<and> n \<le> u_room (uart s)"

definition sent :: "uchar list \<Rightarrow> 'a devs_scheme \<Rightarrow> 'a devs_scheme" where
  "sent cs s = upd_uart (\<lambda>u. u\<lparr>u_out := u_out u @ cs, u_room := u_room u - length cs\<rparr>) s"

lemma sent_Nil [simp]: "sent [] s = s"
  by (simp add: sent_def upd_uart_def)

lemma sent_sent: "sent ds (sent cs s) = sent (cs @ ds) s"
  by (simp add: sent_def upd_uart_def)

lemma push_off_upd_uart: "upd_uart f (push_off s) = push_off (upd_uart f s)"
  by (simp add: push_off_eq upd_cpu_def upd_uart_def)

lemma settled_upd_uart [simp]: "settled (upd_uart f s) = settled s"
  using settled_same_mycpu [of s "upd_uart f s"] settled_same_mycpu [of "upd_uart f s" s]
  by (auto simp: upd_uart_def mycpu_def)

lemma push_off_devs [simp]: "uart (push_off s) = uart s" "panicked (push_off s) = panicked s"
  by (simp_all add: push_off_eq upd_cpu_def)

lemma can_print_sent: "can_print (length cs + n) s \<Longrightarrow> can_print n (sent cs s)"
  unfolding can_print_def sent_def settled_upd_uart by (simp add: upd_uart_def) arith

lemma uartputc_sync_sent:
  assumes "can_print (Suc n) s"
  shows "uartputc_sync c s = Ok (sent [c] s)"
proof -
  have "upd_uart (WriteReg THR c) s = sent [c] s"
    using assms by (simp add: can_print_def sent_def upd_uart_def write_thr)
  moreover have "pop_off (push_off (sent [c] s)) = Ok (sent [c] s)"
    using assms by (intro push_pop_settled) (simp add: can_print_def sent_def)
  ultimately show ?thesis
    using assms tx_idle [of "uart s"] by (simp add: uartputc_sync_def can_print_def push_off_upd_uart)
qed

lemma put_str_sent:
  assumes "can_print (length cs) s"
  shows "put_str cs s = Ok (sent cs s)"
  using assms
proof (induction cs arbitrary: s)
  case Nil
  then show ?case by (simp add: put_str_def)
next
  case (Cons c cs)
  have "ucast c \<noteq> BACKSPACE"
  proof
    assume "ucast c = BACKSPACE"
    then have "unat (ucast c :: uint) = 256" by (simp add: BACKSPACE_def)
    moreover have "unat (ucast c :: uint) \<le> unat c" by (simp add: unsigned_ucast_eq take_bit_nat_less_eq_self)
    moreover have "unat c < 256" using unsigned_less [of c] by simp
    ultimately show False by simp
  qed
  moreover have "ucast (ucast c :: uint) = c" by (rule bit_word_eqI) (simp add: bit_ucast_iff)
  moreover have "uartputc_sync c s = Ok (sent [c] s)"
    using Cons.prems by (intro uartputc_sync_sent) simp
  moreover have "can_print (length cs) (sent [c] s)" using can_print_sent [of "[c]"] Cons.prems by simp
  ultimately show ?case using Cons.IH [of "sent [c] s"] by (simp add: put_str_def consputc_def sent_sent)
qed

text \<open>
  C33. \<^verbatim>\<open>printint\<close> prints the number in the base that it is given, in the usual notation: a minus sign for
  a negative number, then the digits without leading zeros. The loop that divides the 32-bit value
  and reverses the buffer computes what the recursive definition of the notation does, also for the
  smallest \<^verbatim>\<open>int\<close>, and every character reaches the UART in order.
\<close>

theorem printint_prints_number:
  assumes "can_print (length (number_text (unat base) (sint xx))) s" and "unat base = 10 \<or> unat base = 16"
  shows "printint xx base True s = Ok (sent (number_text (unat base) (sint xx)) s)"
  using assms(1) put_str_sent [of "number_text (unat base) (sint xx)" s] printint_text [OF assms(2), of xx]
  by (simp add: printint_def)

definition uart_example :: devs where
  "uart_example = upd_uart (\<lambda>u. u\<lparr>u_room := 16\<rparr>) devs_example"

theorem printint_prints_number_witness:
  "unat (10 :: uint) = 10 \<and> printint (- 42) 10 True uart_example = Ok (sent (number_text (unat (10 :: uint)) (sint (- 42 :: uint))) uart_example)"
proof -
  have n: "length (number_text (unat (10 :: uint)) (sint (- 42 :: uint))) \<le> 16" by code_simp
  have s: "settled devs_example" using running_quiet [OF devs_example_running] by (simp add: quiet_def)
  have "can_print (length (number_text (unat (10 :: uint)) (sint (- 42 :: uint)))) uart_example"
    using n s by (simp add: can_print_def uart_example_def) (simp add: upd_uart_def devs_example_def fsys.defs uart_regs)
  then show ?thesis using printint_prints_number [of 10 "- 42" uart_example] by simp
qed

end
