(* ===== verification/Console.thy ===== *)
theory Console
  imports Uart
begin

text \<open>
  The console (\<^verbatim>\<open>kernel/console.c\<close>) and the interrupt handler of the UART: line editing on the input
  ring, and the functions that \<^verbatim>\<open>read\<close> and \<^verbatim>\<open>write\<close> reach through \<^verbatim>\<open>devsw\<close>.

  A call that transfers bytes one at a time and sleeps when it cannot go on returns \<open>Block ch i\<close>: it
  sleeps on channel \<open>ch\<close> with \<open>i\<close> bytes done, and after a wakeup the loop goes on from there.
\<close>

datatype 'a progress = Return 'a | Block chan nat

definition CONSOLE :: nat where "CONSOLE = 1"

definition ctrl :: "char \<Rightarrow> uchar" where
  "ctrl x = of_char x - 64"

definition newline :: uchar where "newline = 10"

subsection \<open>read and write\<close>

function consolewrite_loop :: "bool \<Rightarrow> uint64 \<Rightarrow> nat \<Rightarrow> nat \<Rightarrow> 'a devs_scheme \<Rightarrow> (int progress \<times> 'a devs_scheme) result" where
  "consolewrite_loop user_src src n i s =
     (if \<not> i < n then Ok (Return (int i), s)
      else bindR (either_copyin user_src (src + of_nat i) 1 s) (\<lambda>(r, bs).
        if r = -1 then Ok (Return (int i), s)
        else bindR (uartputc (hd bs) s) (\<lambda>(ok, s).
          if ok then consolewrite_loop user_src src n (i + 1) s else Ok (Block UartTxChan i, s))))"
  by pat_completeness auto
termination
  by (relation "measure (\<lambda>(u, src, n, i, s). n - i)") auto

declare consolewrite_loop.simps [simp del]

definition consolewrite :: "bool \<Rightarrow> uint64 \<Rightarrow> int \<Rightarrow> 'a devs_scheme \<Rightarrow> (int progress \<times> 'a devs_scheme) result" where
  "consolewrite user_src src n s = consolewrite_loop user_src src (nat n) 0 s"

definition upd_cons :: "(cons \<Rightarrow> cons) \<Rightarrow> 'a devs_scheme \<Rightarrow> 'a devs_scheme" where
  "upd_cons f s = s\<lparr>cons := f (cons s)\<rparr>"

text \<open>Whether \<^verbatim>\<open>myproc()->killed || mythread()->killed\<close>.\<close>

definition killed_here :: "'a kernel_scheme \<Rightarrow> bool result" where
  "killed_here = with_proc (\<lambda>p. with_thread (\<lambda>q i s. Ok (p_killed (procs s p) \<noteq> 0 \<or> t_killed (thr q i s) \<noteq> 0)))"

text \<open>\<open>i\<close> is \<^verbatim>\<open>target - n\<close>, the number of bytes delivered; \<open>target\<close> and \<open>n\<close> are positive here.\<close>

function consoleread_loop :: "bool \<Rightarrow> uint64 \<Rightarrow> nat \<Rightarrow> nat \<Rightarrow> 'a devs_scheme \<Rightarrow> (int progress \<times> 'a devs_scheme) result" where
  "consoleread_loop user_dst dst target i s =
     (if \<not> i < target then Ok (Return (int i), s)
      else if c_r (cons s) = c_w (cons s)
      then bindR (killed_here s) (\<lambda>k. if k then Ok (Return (-1), s) else Ok (Block ConsReadChan i, s))
      else
        let c = c_buf (cons s) (unat (c_r (cons s)) mod INPUT_BUF);
            s = upd_cons (\<lambda>x. x\<lparr>c_r := c_r x + 1\<rparr>) s
        in if c = ctrl (CHR ''D'')
           then Ok (Return (int i), if 0 < i then upd_cons (\<lambda>x. x\<lparr>c_r := c_r x - 1\<rparr>) s else s)
           else bindR (either_copyout user_dst (dst + of_nat i) [c] s) (\<lambda>(r, s).
             if r = -1 then Ok (Return (int i), s)
             else if c = newline then Ok (Return (int (i + 1)), s)
             else consoleread_loop user_dst dst target (i + 1) s))"
  by pat_completeness auto
termination
  by (relation "measure (\<lambda>(u, dst, target, i, s). target - i)") auto

declare consoleread_loop.simps [simp del]

definition consoleread :: "bool \<Rightarrow> uint64 \<Rightarrow> int \<Rightarrow> 'a devs_scheme \<Rightarrow> (int progress \<times> 'a devs_scheme) result" where
  "consoleread user_dst dst n s = consoleread_loop user_dst dst (nat n) 0 s"

subsection \<open>Interrupts\<close>

text \<open>Kill line: the loop steps back over at most the \<open>n\<close> bytes that are being edited.\<close>

fun kill_line :: "nat \<Rightarrow> 'a devs_scheme \<Rightarrow> 'a devs_scheme result" where
  "kill_line n s =
     (if c_e (cons s) \<noteq> c_w (cons s) \<and> c_buf (cons s) (unat (c_e (cons s) - 1) mod INPUT_BUF) \<noteq> newline
      then case n of 0 \<Rightarrow> Hang
        | Suc n \<Rightarrow> bindR (consputc BACKSPACE (upd_cons (\<lambda>x. x\<lparr>c_e := c_e x - 1\<rparr>) s)) (kill_line n)
      else Ok s)"

declare kill_line.simps [simp del]

definition consoleintr :: "uchar \<Rightarrow> 'a devs_scheme \<Rightarrow> 'a devs_scheme result" where
  "consoleintr c s =
     (if c = ctrl (CHR ''P'') then procdump_print s
      else if c = ctrl (CHR ''U'') then kill_line (unat (c_e (cons s) - c_w (cons s))) s
      else if c = ctrl (CHR ''H'') \<or> c = 0x7f
      then if c_e (cons s) \<noteq> c_w (cons s) then consputc BACKSPACE (upd_cons (\<lambda>x. x\<lparr>c_e := c_e x - 1\<rparr>) s) else Ok s
      else if c \<noteq> 0 \<and> c_e (cons s) - c_r (cons s) < of_nat INPUT_BUF
      then let c = (if c = 13 then newline else c)
           in bindR (consputc (ucast c) s) (\<lambda>s.
              let s = upd_cons (\<lambda>x. x\<lparr>c_buf := (c_buf x)(unat (c_e x) mod INPUT_BUF := c), c_e := c_e x + 1\<rparr>) s
              in if c = newline \<or> c = ctrl (CHR ''D'') \<or> c_e (cons s) = c_r (cons s) + of_nat INPUT_BUF
                 then wakeup ConsReadChan (upd_cons (\<lambda>x. x\<lparr>c_w := c_e x\<rparr>) s)
                 else Ok s)
      else Ok s)"

text \<open>The input loop of \<^verbatim>\<open>uartintr\<close>; every round takes a byte, and \<open>n\<close> bounds the rounds.\<close>

fun uartintr_loop :: "nat \<Rightarrow> 'a devs_scheme \<Rightarrow> 'a devs_scheme result" where
  "uartintr_loop n s =
     (let (c, s) = uartgetc s
      in if c = -1 then Ok s
         else case n of 0 \<Rightarrow> Hang | Suc n \<Rightarrow> bindR (consoleintr (word_of_int c) s) (uartintr_loop n))"

declare uartintr_loop.simps [simp del]

definition uartintr :: "'a devs_scheme \<Rightarrow> 'a devs_scheme result" where
  "uartintr s = bindR (uartintr_loop (length (u_in (uart s))) s) uartstart"

definition consoleinit :: "'a devs_scheme \<Rightarrow> 'a devs_scheme" where
  "consoleinit s = (let s = uartinit s
     in s\<lparr>devsw := (devsw s)(CONSOLE := \<lparr>dw_read = Some Consoleread, dw_write = Some Consolewrite\<rparr>)\<rparr>)"

subsection \<open>The line editor\<close>

text \<open>
  What the console promises: input is edited in a line of its own, and becomes readable when the line
  is complete. The abstract state is the input that is ready for \<^verbatim>\<open>consoleread\<close> and the line being edited.
\<close>

definition edit :: "uchar \<Rightarrow> uchar list \<times> uchar list \<Rightarrow> uchar list \<times> uchar list" where
  "edit c = (\<lambda>(ready, line).
     if c = ctrl (CHR ''U'') then (ready, [])
     else if c = ctrl (CHR ''H'') \<or> c = 0x7f then (ready, butlast line)
     else if c \<noteq> 0 \<and> length ready + length line < INPUT_BUF
     then let c = (if c = 13 then newline else c)
          in if c = newline \<or> c = ctrl (CHR ''D'') \<or> length ready + length line + 1 = INPUT_BUF
             then (ready @ line @ [c], []) else (ready, line @ [c])
     else (ready, line))"

definition cons_input :: "cons \<Rightarrow> uchar list" where
  "cons_input x = ring_queue INPUT_BUF (c_buf x) (c_r x) (c_e x)"

definition cons_abs :: "cons \<Rightarrow> uchar list \<times> uchar list" where
  "cons_abs x = (take (unat (c_w x - c_r x)) (cons_input x), drop (unat (c_w x - c_r x)) (cons_input x))"

definition cons_ok :: "cons \<Rightarrow> bool" where
  "cons_ok x \<longleftrightarrow> unat (c_w x - c_r x) \<le> unat (c_e x - c_r x) \<and> unat (c_e x - c_r x) \<le> INPUT_BUF
     \<and> newline \<notin> set (snd (cons_abs x))"

interpretation cons_ring: ring INPUT_BUF "TYPE(32)"
  by unfold_locales (simp_all add: INPUT_BUF_def)

lemma length_cons_input [simp]: "length (cons_input x) = unat (c_e x - c_r x)"
  by (simp add: cons_input_def)

lemma cons_abs_lengths:
  "cons_ok x \<Longrightarrow> length (fst (cons_abs x)) = unat (c_w x - c_r x)"
  "cons_ok x \<Longrightarrow> length (fst (cons_abs x)) + length (snd (cons_abs x)) = unat (c_e x - c_r x)"
  by (simp_all add: cons_ok_def cons_abs_def)

lemma unat_diff_eq: "unat (a - c) = unat (b - c) \<longleftrightarrow> a = b" for a b c :: "'c::len word"
  by (simp flip: word_unat_eq_iff)

lemma line_empty: "cons_ok x \<Longrightarrow> snd (cons_abs x) = [] \<longleftrightarrow> c_e x = c_w x"
  using unat_diff_eq [of "c_e x" "c_r x" "c_w x"] by (auto simp: cons_ok_def cons_abs_def)

text \<open>Stepping back over the last byte of the line.\<close>

definition step_back :: "cons \<Rightarrow> cons" where
  "step_back x = x\<lparr>c_e := c_e x - 1\<rparr>"

lemma step_back_ok:
  assumes "cons_ok x" and "c_e x \<noteq> c_w x"
  shows "cons_ok (step_back x)" and "cons_abs (step_back x) = (fst (cons_abs x), butlast (snd (cons_abs x)))"
    and "c_buf x (unat (c_e x - 1) mod INPUT_BUF) \<noteq> newline"
proof -
  let ?k = "unat (c_w x - c_r x)"
  have k: "?k < unat (c_e x - c_r x)" using assms unat_diff_eq [of "c_e x" "c_r x" "c_w x"] by (auto simp: cons_ok_def)
  then have ne: "c_r x \<noteq> c_e x" by auto
  define b where "b = c_buf x (unat (c_e x - 1) mod INPUT_BUF)"
  have q: "cons_input x = cons_input (step_back x) @ [b]"
    unfolding cons_input_def b_def using ring_queue_drop_last [OF ne, of INPUT_BUF "c_buf x"] by (simp add: step_back_def)
  have l: "length (cons_input x) = Suc (length (cons_input (step_back x)))" unfolding q by simp
  then have kl: "?k \<le> length (cons_input (step_back x))" using k by simp
  have line: "snd (cons_abs x) = drop ?k (cons_input (step_back x)) @ [b]" unfolding cons_abs_def q using kl by simp
  show a: "cons_abs (step_back x) = (fst (cons_abs x), butlast (snd (cons_abs x)))"
    unfolding line using kl by (simp add: cons_abs_def q) (simp add: step_back_def)
  have "newline \<notin> set (snd (cons_abs x))" using assms(1) by (simp add: cons_ok_def)
  then show "c_buf x (unat (c_e x - 1) mod INPUT_BUF) \<noteq> newline" unfolding line b_def [symmetric] by auto
  show "cons_ok (step_back x)"
    using assms(1) kl l a by (auto simp: cons_ok_def step_back_def dest: in_set_butlastD)
qed

text \<open>Storing a byte at the end of the line, and making the line readable.\<close>

definition store :: "uchar \<Rightarrow> cons \<Rightarrow> cons" where
  "store c x = x\<lparr>c_buf := (c_buf x)(unat (c_e x) mod INPUT_BUF := c), c_e := c_e x + 1\<rparr>"

definition flush :: "cons \<Rightarrow> cons" where
  "flush x = x\<lparr>c_w := c_e x\<rparr>"

lemma store_input:
  assumes "unat (c_e x - c_r x) < INPUT_BUF"
  shows "cons_input (store c x) = cons_input x @ [c]" and "unat (c_e (store c x) - c_r x) = unat (c_e x - c_r x) + 1"
proof -
  have f: "unat (c_e x - c_r x) + 1 < 2 ^ LENGTH(32)" using assms by (simp add: INPUT_BUF_def)
  show "cons_input (store c x) = cons_input x @ [c]"
    unfolding cons_input_def using cons_ring.push [OF assms f, of "c_buf x" c] by (simp add: store_def)
  show "unat (c_e (store c x) - c_r x) = unat (c_e x - c_r x) + 1"
    using ring_length_push [OF f] by (simp add: store_def)
qed

lemma store_ok:
  assumes "cons_ok x" and "unat (c_e x - c_r x) < INPUT_BUF"
  shows "c \<noteq> newline \<Longrightarrow> cons_ok (store c x)"
    and "cons_abs (store c x) = (fst (cons_abs x), snd (cons_abs x) @ [c])"
    and "cons_ok (flush (store c x))"
    and "cons_abs (flush (store c x)) = (fst (cons_abs x) @ snd (cons_abs x) @ [c], [])"
proof -
  note i = store_input [OF assms(2), of c]
  have k: "unat (c_w x - c_r x) \<le> unat (c_e x - c_r x)" using assms(1) by (simp add: cons_ok_def)
  have fields: "c_w (store c x) = c_w x" "c_r (store c x) = c_r x" by (simp_all add: store_def)
  show a: "cons_abs (store c x) = (fst (cons_abs x), snd (cons_abs x) @ [c])"
    using k by (simp add: cons_abs_def i fields)
  then show "c \<noteq> newline \<Longrightarrow> cons_ok (store c x)"
    using assms k i(2) by (auto simp: cons_ok_def fields)
  have "cons_input (flush y) = cons_input y" "c_w (flush y) = c_e y" "c_r (flush y) = c_r y" "c_e (flush y) = c_e y" for y
    by (simp_all add: flush_def cons_input_def)
  note fl = this
  have n: "unat (c_e (store c x) - c_r x) = length (cons_input x) + 1" using i(2) by simp
  show fa: "cons_abs (flush (store c x)) = (fst (cons_abs x) @ snd (cons_abs x) @ [c], [])"
    unfolding cons_abs_def fl fields i(1) n by simp
  show "cons_ok (flush (store c x))"
    using assms(2) i(2) fa by (simp add: cons_ok_def fl fields)
qed

subsection \<open>Interrupts on the console\<close>

lemma cons_frame [simp]:
  "cons (upd_cons f s) = f (cons s)" "cons (sent cs s) = cons s" "uart (upd_cons f s) = uart s"
  "u_in (uart (sent cs s)) = u_in (uart s)"
  by (simp_all add: upd_cons_def sent_def upd_uart_def)

lemma quiet_sent [simp]: "quiet (sent cs s) = quiet s"
  by (simp add: sent_def)

lemma quiet_upd_cons [simp]: "quiet (upd_cons f s) = quiet s"
  unfolding upd_cons_def by (rule quiet_cong) simp_all

lemma can_print_upd_cons [simp]: "can_print n (upd_cons f s) = can_print n s"
proof -
  have "settled (upd_cons f s) = settled s"
    using settled_same_mycpu [of s "upd_cons f s"] settled_same_mycpu [of "upd_cons f s" s]
    by (auto simp: upd_cons_def mycpu_def)
  then show ?thesis by (simp add: can_print_def) (simp add: upd_cons_def)
qed

lemma can_print_le: "can_print n s \<Longrightarrow> m \<le> n \<Longrightarrow> can_print m s"
  by (simp add: can_print_def)

lemma foldR_Nil: "foldR f [] = Ok"
  by (rule ext) simp

lemma consputc_backspace:
  assumes "can_print (Suc (Suc (Suc n))) s"
  shows "consputc BACKSPACE s = Ok (sent [8, 32, 8] s)" and "can_print n (sent [8, 32, 8] s)"
proof -
  have 1: "uartputc_sync 8 s = Ok (sent [8] s)" "can_print (Suc (Suc n)) (sent [8] s)"
    using uartputc_sync_sent [of "Suc (Suc n)" s 8] can_print_sent [of "[8]" "Suc (Suc n)" s] assms by simp_all
  have 2: "uartputc_sync 32 (sent [8] s) = Ok (sent [8, 32] s)" "can_print (Suc n) (sent [8, 32] s)"
    using uartputc_sync_sent [of "Suc n" "sent [8] s" 32] can_print_sent [of "[32]" "Suc n" "sent [8] s"] 1(2)
    by (simp_all add: sent_sent)
  have 3: "uartputc_sync 8 (sent [8, 32] s) = Ok (sent [8, 32, 8] s)"
    using uartputc_sync_sent [of n "sent [8, 32] s" 8] 2(2) by (simp add: sent_sent)
  show "consputc BACKSPACE s = Ok (sent [8, 32, 8] s)" by (simp add: consputc_def 1 2 3)
  show "can_print n (sent [8, 32, 8] s)" using can_print_sent [of "[8, 32, 8]" n s] assms by simp
qed

lemma consputc_char:
  assumes "can_print (Suc n) s"
  shows "consputc (ucast c) s = Ok (sent [c] s)"
  using can_print_le [OF assms, of "Suc 0"] put_str_sent [of "[c]" s] by (simp add: put_str_def foldR_Nil)

lemma kill_line_clears:
  assumes "cons_ok (cons s)" and "length (snd (cons_abs (cons s))) = n" and "can_print (3 * n) s"
  shows "\<exists>t. kill_line n s = Ok t \<and> cons_ok (cons t) \<and> cons_abs (cons t) = (fst (cons_abs (cons s)), [])"
  using assms
proof (induction n arbitrary: s)
  case 0
  then have "c_e (cons s) = c_w (cons s)" using line_empty [of "cons s"] by simp
  with 0 show ?case by (simp add: kill_line.simps [of 0] prod_eq_iff)
next
  case (Suc n)
  have ne: "c_e (cons s) \<noteq> c_w (cons s)" using Suc.prems(2) line_empty [OF Suc.prems(1)] by auto
  note b = step_back_ok [OF Suc.prems(1) ne]
  define u where "u = upd_cons step_back s"
  have "can_print (Suc (Suc (Suc (3 * n)))) u" using Suc.prems(3) by (simp add: u_def numeral_3_eq_3)
  note p = consputc_backspace [OF this]
  have "\<exists>t. kill_line n (sent [8, 32, 8] u) = Ok t \<and> cons_ok (cons t) \<and> cons_abs (cons t) = (fst (cons_abs (cons s)), [])"
    using Suc.IH [of "sent [8, 32, 8] u"] b(1,2) p(2) Suc.prems(2) by (simp add: u_def)
  moreover have "kill_line (Suc n) s = kill_line n (sent [8, 32, 8] u)"
    using ne b(3) p(1) by (simp add: kill_line.simps [of "Suc n"] u_def step_back_def [abs_def])
  ultimately show ?case by simp
qed

lemma input_room: "c_e x - c_r x < of_nat INPUT_BUF \<longleftrightarrow> unat (c_e x - c_r x) < INPUT_BUF"
  by (simp add: word_less_nat_alt INPUT_BUF_def)

lemma input_full:
  "unat (c_e x - c_r x) \<le> INPUT_BUF \<Longrightarrow> c_e x = c_r x + of_nat INPUT_BUF \<longleftrightarrow> unat (c_e x - c_r x) = INPUT_BUF"
  by (cases "c_e x = c_r x + of_nat INPUT_BUF") (use ring_room [of "c_e x" "c_r x" INPUT_BUF] in \<open>auto simp: INPUT_BUF_def\<close>)

text \<open>The three kinds of characters: kill the line, erase a character, enter one.\<close>

lemma consoleintr_kill:
  assumes "quiet s" and "can_print (3 * INPUT_BUF) s" and "cons_ok (cons s)" and "c = ctrl (CHR ''U'')"
  shows "\<exists>t. consoleintr c s = Ok t \<and> cons_ok (cons t) \<and> cons_abs (cons t) = edit c (cons_abs (cons s))"
proof -
  let ?x = "cons s"
  obtain ready line where a: "cons_abs ?x = (ready, line)" by (cases "cons_abs ?x") auto
  have n: "length ready + length line = unat (c_e ?x - c_r ?x)" using cons_abs_lengths(2) [OF assms(3)] a by simp
  have le: "unat (c_e ?x - c_r ?x) \<le> INPUT_BUF" using assms(3) by (simp add: cons_ok_def)
  have "c_e ?x - c_w ?x = (c_e ?x - c_r ?x) - (c_w ?x - c_r ?x)" by simp
  moreover have "c_w ?x - c_r ?x \<le> c_e ?x - c_r ?x" using assms(3) by (simp add: cons_ok_def word_le_nat_alt)
  ultimately have "unat (c_e ?x - c_w ?x) = unat (c_e ?x - c_r ?x) - unat (c_w ?x - c_r ?x)"
    by (simp only: unat_sub)
  then have w: "unat (c_e ?x - c_w ?x) = length line" using cons_abs_lengths(1) [OF assms(3)] n a by simp
  have "can_print (3 * length line) s" using n le by (intro can_print_le [OF assms(2)]) simp
  then have "\<exists>t. kill_line (length line) s = Ok t \<and> cons_ok (cons t) \<and> cons_abs (cons t) = (ready, [])"
    using kill_line_clears [OF assms(3), of "length line"] a by simp
  moreover have "c \<noteq> ctrl (CHR ''P'')" using assms(4) by (simp add: ctrl_def)
  ultimately show ?thesis using assms(4) by (simp add: consoleintr_def w a edit_def)
qed

lemma consoleintr_erase:
  assumes "quiet s" and "can_print (3 * INPUT_BUF) s" and "cons_ok (cons s)" and "c = ctrl (CHR ''H'') \<or> c = 0x7f"
  shows "\<exists>t. consoleintr c s = Ok t \<and> cons_ok (cons t) \<and> cons_abs (cons t) = edit c (cons_abs (cons s))"
proof -
  let ?x = "cons s"
  obtain ready line where a: "cons_abs ?x = (ready, line)" by (cases "cons_abs ?x") auto
  have c: "c \<noteq> ctrl (CHR ''P'')" "c \<noteq> ctrl (CHR ''U'')" using assms(4) by (auto simp: ctrl_def)
  show ?thesis
  proof (cases "c_e ?x = c_w ?x")
    case True
    then have "line = []" using line_empty [OF assms(3)] a by simp
    then show ?thesis using True c assms(3,4) a by (auto simp: consoleintr_def edit_def)
  next
    case False
    have "can_print (Suc (Suc (Suc 0))) (upd_cons step_back s)"
      using can_print_le [OF assms(2), of 3] by (simp add: INPUT_BUF_def numeral_3_eq_3)
    note p = consputc_backspace(1) [OF this]
    have "consoleintr c s = Ok (sent [8, 32, 8] (upd_cons step_back s))"
      using c assms(4) False p by (auto simp: consoleintr_def step_back_def [abs_def])
    then show ?thesis using step_back_ok [OF assms(3) False] c assms(4) a by (auto simp: edit_def)
  qed
qed

lemma consoleintr_char:
  assumes "quiet s" and "can_print (3 * INPUT_BUF) s" and "cons_ok (cons s)" and "c \<noteq> ctrl (CHR ''P'')" and "c \<noteq> ctrl (CHR ''U'')"
    and "\<not> (c = ctrl (CHR ''H'') \<or> c = 0x7f)"
  shows "\<exists>t. consoleintr c s = Ok t \<and> cons_ok (cons t) \<and> cons_abs (cons t) = edit c (cons_abs (cons s))"
proof -
  let ?x = "cons s"
  obtain ready line where a: "cons_abs ?x = (ready, line)" by (cases "cons_abs ?x") auto
  have n: "length ready + length line = unat (c_e ?x - c_r ?x)" using cons_abs_lengths(2) [OF assms(3)] a by simp
  show ?thesis
  proof (cases "c \<noteq> 0 \<and> unat (c_e ?x - c_r ?x) < INPUT_BUF")
    case False
    then have "consoleintr c s = Ok s" using assms(4-6) by (auto simp: consoleintr_def input_room)
    then show ?thesis using False assms(3,5,6) a n by (auto simp: edit_def)
  next
    case True
    define d where "d = (if c = 13 then newline else c)"
    define u where "u = upd_cons (store d) (sent [d] s)"
    have p: "consputc (ucast d) s = Ok (sent [d] s)"
      by (intro consputc_char [of 0] can_print_le [OF assms(2)]) (simp add: INPUT_BUF_def)
    have m: "unat (c_e (cons u) - c_r (cons u)) = length ready + length line + 1"
      using store_input(2) [of ?x d] True n by (simp add: u_def store_def)
    have i: "consoleintr c s = (if d = newline \<or> d = ctrl (CHR ''D'') \<or> length ready + length line + 1 = INPUT_BUF
        then Ok (woken ConsReadChan (upd_cons flush u)) else Ok u)"
      using True assms(1,4-6) p m input_full [of "cons u"] n
      by (simp add: consoleintr_def input_room Let_def d_def [symmetric] u_def store_def [abs_def] flush_def [abs_def] wakeup_quiet cong: if_cong)
    have e: "edit c (ready, line) = (if d = newline \<or> d = ctrl (CHR ''D'') \<or> length ready + length line + 1 = INPUT_BUF
        then (ready @ line @ [d], []) else (ready, line @ [d]))"
      using True assms(5,6) n by (auto simp: edit_def d_def Let_def)
    show ?thesis using store_ok [OF assms(3), of d] True a e i by (auto simp: u_def)
  qed
qed

text \<open>
  C31. The interrupt handler of the console is the line editor: kill, erase and ordinary characters act
  on the line being edited as the abstract editor says, a newline, an end of file or a full buffer
  makes the line readable, and the two counters of the 128-byte ring never lose a byte, also when they
  wrap. The handler returns whenever the UART takes the echo.
\<close>

theorem consoleintr_refines_editor:
  assumes "settled s" and "locks_free s" and "can_print (3 * INPUT_BUF) s" and "cons_ok (cons s)" and "c \<noteq> ctrl (CHR ''P'')"
  shows "\<exists>t. consoleintr c s = Ok t \<and> cons_ok (cons t) \<and> cons_abs (cons t) = edit c (cons_abs (cons s))"
proof -
  have q: "quiet s" using assms(1,2) by (simp add: quiet_def)
  show ?thesis
    using consoleintr_kill [OF q assms(3,4)] consoleintr_erase [OF q assms(3,4)] consoleintr_char [OF q assms(3-5)] by blast
qed

definition cons_example :: devs where
  "cons_example = upd_uart (\<lambda>u. u\<lparr>u_room := 3 * INPUT_BUF\<rparr>)
     (upd_cons (\<lambda>x. x\<lparr>c_buf := (\<lambda>_. 97), c_r := 0xfffffffe, c_w := 0xffffffff, c_e := 1\<rparr>) devs_example)"

theorem consoleintr_refines_editor_witness:
  "\<exists>t. consoleintr newline cons_example = Ok t \<and> cons_ok (cons t) \<and> cons_abs (cons t) = edit newline (cons_abs (cons cons_example))"
proof (rule consoleintr_refines_editor)
  have q: "quiet cons_example" using running_quiet [OF devs_example_running] by (simp add: cons_example_def)
  then show "settled cons_example" "locks_free cons_example" by (simp_all add: quiet_def)
  have c: "cons cons_example = \<lparr>c_buf = (\<lambda>_. 97), c_r = 0xfffffffe, c_w = 0xffffffff, c_e = 1\<rparr>"
    by (simp add: cons_example_def devs_example_def fsys.defs)
  show "can_print (3 * INPUT_BUF) cons_example"
    using q by (simp add: can_print_def quiet_def)
      (simp add: cons_example_def upd_uart_def upd_cons_def devs_example_def fsys.defs uart_regs)
  show "cons_ok (cons cons_example)"
    unfolding c by (auto simp: cons_ok_def cons_abs_def cons_input_def ring_queue_def INPUT_BUF_def newline_def dest!: in_set_dropD)
qed (simp add: newline_def ctrl_def)

end
