(* ===== verification/File.thy ===== *)
theory File
  imports Console
begin

text \<open>
  Open files and pipes (\<^verbatim>\<open>kernel/file.c\<close>, \<^verbatim>\<open>kernel/pipe.c\<close>). A \<^verbatim>\<open>struct file\<close> is a \<open>kfile\<close>, and a pointer to one an index into
  \<^verbatim>\<open>ftable.file\<close>. A \<^verbatim>\<open>struct pipe *\<close> is the address of the page that \<^verbatim>\<open>kalloc\<close> gave for it; the structure in
  that page is the entry of the map \<open>pipes\<close> at that address. The critical sections under \<^verbatim>\<open>ftable.lock\<close> and
  under the lock of a pipe are single steps; a transfer that has to wait ends in \<open>Block\<close>.
\<close>

definition PIPESIZE :: nat where "PIPESIZE = 512"

datatype ftype = FD_NONE | FD_PIPE | FD_INODE | FD_DEVICE

record kfile =
  f_type :: ftype
  f_ref :: int
  f_readable :: uchar
  f_writable :: uchar
  f_pipe :: uint64
  f_ip :: nat
  f_off :: uint
  f_major :: ushort

record pipe =
  pp_data :: "nat \<Rightarrow> uchar"
  nread :: uint
  nwrite :: uint
  readopen :: int
  writeopen :: int

record files = devs +
  ftable :: "nat \<Rightarrow> kfile"
  pipes :: "uint64 \<Rightarrow> pipe"

definition upd_file :: "nat \<Rightarrow> (kfile \<Rightarrow> kfile) \<Rightarrow> 'a files_scheme \<Rightarrow> 'a files_scheme" where
  "upd_file f g s = s\<lparr>ftable := (ftable s)(f := g (ftable s f))\<rparr>"

definition upd_pipe :: "uint64 \<Rightarrow> (pipe \<Rightarrow> pipe) \<Rightarrow> 'a files_scheme \<Rightarrow> 'a files_scheme" where
  "upd_pipe pi g s = s\<lparr>pipes := (pipes s)(pi := g (pipes s pi))\<rparr>"

subsection \<open>Pipes\<close>

abbreviation read_chan :: "uint64 \<Rightarrow> chan" where "read_chan pi \<equiv> PipeReadChan (unat pi)"
abbreviation write_chan :: "uint64 \<Rightarrow> chan" where "write_chan pi \<equiv> PipeWriteChan (unat pi)"

definition pipeclose :: "uint64 \<Rightarrow> bool \<Rightarrow> 'a files_scheme \<Rightarrow> 'a files_scheme result" where
  "pipeclose pi writable s =
     bindR (if writable then wakeup (read_chan pi) (upd_pipe pi (\<lambda>x. x\<lparr>writeopen := 0\<rparr>) s)
            else wakeup (write_chan pi) (upd_pipe pi (\<lambda>x. x\<lparr>readopen := 0\<rparr>) s)) (\<lambda>s.
       if readopen (pipes s pi) = 0 \<and> writeopen (pipes s pi) = 0 then kfree pi s else Ok s)"

definition pipe_full :: "pipe \<Rightarrow> bool" where
  "pipe_full x \<longleftrightarrow> nwrite x = nread x + of_nat PIPESIZE"

definition pipe_empty :: "pipe \<Rightarrow> bool" where
  "pipe_empty x \<longleftrightarrow> nread x = nwrite x"

definition pipe_put :: "uchar \<Rightarrow> pipe \<Rightarrow> pipe" where
  "pipe_put ch x = x\<lparr>pp_data := (pp_data x)(unat (nwrite x) mod PIPESIZE := ch), nwrite := nwrite x + 1\<rparr>"

definition pipe_get :: "pipe \<Rightarrow> uchar \<times> pipe" where
  "pipe_get x = (pp_data x (unat (nread x) mod PIPESIZE), x\<lparr>nread := nread x + 1\<rparr>)"

function pipewrite_loop :: "uint64 \<Rightarrow> nat \<Rightarrow> uint64 \<Rightarrow> nat \<Rightarrow> nat \<Rightarrow> 'a files_scheme \<Rightarrow> (int progress \<times> 'a files_scheme) result" where
  "pipewrite_loop pi pr addr n i s =
     (let finish = bindR (wakeup (read_chan pi) s) (\<lambda>s. Ok (Return (int i), s))
      in if \<not> i < n then finish
         else if readopen (pipes s pi) = 0 \<or> p_killed (procs s pr) \<noteq> 0 then Ok (Return (-1), s)
         else if pipe_full (pipes s pi)
         then bindR (wakeup (read_chan pi) s) (\<lambda>s. Ok (Block (write_chan pi) i, s))
         else bindR (copyin (p_pagetable (procs s pr)) (addr + of_nat i) 1 s) (\<lambda>(r, bs).
           if r = -1 then finish
           else pipewrite_loop pi pr addr n (i + 1) (upd_pipe pi (pipe_put (hd bs)) s)))"
  by pat_completeness auto
termination
  by (relation "measure (\<lambda>(pi, pr, addr, n, i, s). n - i)") auto

declare pipewrite_loop.simps [simp del]

definition pipewrite :: "uint64 \<Rightarrow> uint64 \<Rightarrow> int \<Rightarrow> 'a files_scheme \<Rightarrow> (int progress \<times> 'a files_scheme) result" where
  "pipewrite pi addr n = with_proc (\<lambda>pr s. pipewrite_loop pi pr addr (nat n) 0 s)"

function piperead_loop :: "uint64 \<Rightarrow> nat \<Rightarrow> uint64 \<Rightarrow> nat \<Rightarrow> nat \<Rightarrow> 'a files_scheme \<Rightarrow> (nat \<times> 'a files_scheme) result" where
  "piperead_loop pi pr addr n i s =
     (if \<not> i < n \<or> pipe_empty (pipes s pi) then Ok (i, s)
      else let (ch, x) = pipe_get (pipes s pi)
           in bindR (copyout (p_pagetable (procs s pr)) (addr + of_nat i) [ch] (upd_pipe pi (\<lambda>_. x) s)) (\<lambda>(r, s).
                if r = -1 then Ok (i, s) else piperead_loop pi pr addr n (i + 1) s))"
  by pat_completeness auto
termination
  by (relation "measure (\<lambda>(pi, pr, addr, n, i, s). n - i)") auto

declare piperead_loop.simps [simp del]

definition piperead :: "uint64 \<Rightarrow> uint64 \<Rightarrow> int \<Rightarrow> 'a files_scheme \<Rightarrow> (int progress \<times> 'a files_scheme) result" where
  "piperead pi addr n = with_proc (\<lambda>pr s.
     if pipe_empty (pipes s pi) \<and> writeopen (pipes s pi) \<noteq> 0
     then Ok (if p_killed (procs s pr) \<noteq> 0 then Return (-1) else Block (read_chan pi) 0, s)
     else bindR (piperead_loop pi pr addr (nat n) 0 s) (\<lambda>(i, s).
          bindR (wakeup (write_chan pi) s) (\<lambda>s. Ok (Return (int i), s))))"

subsection \<open>The file table\<close>

definition filealloc :: "'a files_scheme \<Rightarrow> nat option \<times> 'a files_scheme" where
  "filealloc s =
     (case scan NFILE (\<lambda>f. f_ref (ftable s f) = 0) of
        None \<Rightarrow> (None, s)
      | Some f \<Rightarrow> (Some f, upd_file f (\<lambda>x. x\<lparr>f_ref := 1\<rparr>) s))"

definition filedup :: "nat \<Rightarrow> 'a files_scheme \<Rightarrow> 'a files_scheme result" where
  "filedup f s =
     (if f_ref (ftable s f) < 1 then Panic ''filedup'' else Ok (upd_file f (\<lambda>x. x\<lparr>f_ref := f_ref x + 1\<rparr>) s))"

definition fileclose :: "nat \<Rightarrow> 'a files_scheme \<Rightarrow> 'a files_scheme result" where
  "fileclose f s =
     (if f_ref (ftable s f) < 1 then Panic ''fileclose''
      else let s = upd_file f (\<lambda>x. x\<lparr>f_ref := f_ref x - 1\<rparr>) s
           in if f_ref (ftable s f) > 0 then Ok s
              else let ff = ftable s f;
                       s = upd_file f (\<lambda>x. x\<lparr>f_ref := 0, f_type := FD_NONE\<rparr>) s
                   in case f_type ff of
                        FD_PIPE \<Rightarrow> pipeclose (f_pipe ff) (f_writable ff \<noteq> 0) s
                      | FD_INODE \<Rightarrow> bindR (begin_op s) (\<lambda>s. bindR (iput (f_ip ff) s) end_op)
                      | FD_DEVICE \<Rightarrow> bindR (begin_op s) (\<lambda>s. bindR (iput (f_ip ff) s) end_op)
                      | FD_NONE \<Rightarrow> Ok s)"

text \<open>The bytes of a \<^verbatim>\<open>struct stat\<close>; the four bytes before the size are padding and hold what the stack held.\<close>

definition stat_bytes :: "uchar list \<Rightarrow> stat \<Rightarrow> uchar list" where
  "stat_bytes pad st = le_bytes 4 (st_dev st) @ le_bytes 4 (st_ino st) @ le_bytes 2 (st_type st) @ le_bytes 2 (st_nlink st)
     @ take 4 pad @ le_bytes 8 (st_size st)"

definition filestat :: "uchar list \<Rightarrow> nat \<Rightarrow> uint64 \<Rightarrow> 'a files_scheme \<Rightarrow> (int \<times> 'a files_scheme) result" where
  "filestat pad f addr = with_proc (\<lambda>p s.
     if f_type (ftable s f) = FD_INODE \<or> f_type (ftable s f) = FD_DEVICE
     then let ip = f_ip (ftable s f)
          in bindR (ilock ip s) (\<lambda>s.
             let st = stati ip s
             in bindR (iunlock ip s) (\<lambda>s.
                bindR (copyout (p_pagetable (procs s p)) addr (stat_bytes pad st) s) (\<lambda>(r, s).
                  Ok (if r < 0 then -1 else 0, s))))
     else Ok (-1, s))"

definition call_dev :: "devfun \<Rightarrow> uint64 \<Rightarrow> int \<Rightarrow> 'a devs_scheme \<Rightarrow> (int progress \<times> 'a devs_scheme) result" where
  "call_dev d addr n = (case d of Consoleread \<Rightarrow> consoleread True addr n | Consolewrite \<Rightarrow> consolewrite True addr n)"

definition fileread :: "nat \<Rightarrow> uint64 \<Rightarrow> int \<Rightarrow> 'a files_scheme \<Rightarrow> (int progress \<times> 'a files_scheme) result" where
  "fileread f addr n s =
     (let x = ftable s f
      in if f_readable x = 0 then Ok (Return (-1), s)
         else case f_type x of
           FD_PIPE \<Rightarrow> piperead (f_pipe x) addr n s
         | FD_DEVICE \<Rightarrow>
             if sint (f_major x) < 0 \<or> sint (f_major x) \<ge> int NDEV then Ok (Return (-1), s)
             else (case dw_read (devsw s (unat (f_major x))) of
                     None \<Rightarrow> Ok (Return (-1), s)
                   | Some d \<Rightarrow> call_dev d addr n s)
         | FD_INODE \<Rightarrow>
             bindR (ilock (f_ip x) s) (\<lambda>s.
             bindR (readi (f_ip x) (At True addr) (f_off (ftable s f)) (word_of_int n) s) (\<lambda>(r, _, s).
             let s = (if r > 0 then upd_file f (\<lambda>x. x\<lparr>f_off := f_off x + word_of_int r\<rparr>) s else s)
             in bindR (iunlock (f_ip x) s) (\<lambda>s. Ok (Return r, s))))
         | FD_NONE \<Rightarrow> Panic ''fileread'')"

text \<open>
  The loop over the pieces of a write to an inode. \<open>i\<close> bytes are written; when the log has no room for
  another transaction the call sleeps in \<^verbatim>\<open>begin_op\<close>.
\<close>

definition WRITE_MAX :: nat where "WRITE_MAX = ((MAXOPBLOCKS - 1 - 1 - 2) div 2) * BSIZE"

lemma WRITE_MAX_pos: "0 < WRITE_MAX"
  by (simp add: WRITE_MAX_def MAXOPBLOCKS_def BSIZE_def)

function filewrite_loop :: "nat \<Rightarrow> uint64 \<Rightarrow> nat \<Rightarrow> nat \<Rightarrow> 'a files_scheme \<Rightarrow> (int progress \<times> 'a files_scheme) result" where
  "filewrite_loop f addr n i s =
     (if \<not> i < n then Ok (Return (if i = n then int n else -1), s)
      else let n1 = min (n - i) WRITE_MAX
           in case begin_op s of
                Sleep ch \<Rightarrow> Ok (Block ch i, s)
              | res \<Rightarrow> bindR res (\<lambda>s.
                  let ip = f_ip (ftable s f)
                  in bindR (ilock ip s) (\<lambda>s.
                     bindR (writei ip (At True (addr + of_nat i)) (f_off (ftable s f)) (of_nat n1) s) (\<lambda>(r, s).
                     let s = (if r > 0 then upd_file f (\<lambda>x. x\<lparr>f_off := f_off x + word_of_int r\<rparr>) s else s)
                     in bindR (iunlock ip s) (\<lambda>s.
                        bindR (end_op s) (\<lambda>s.
                          if r \<noteq> int n1 then Ok (Return (-1), s) else filewrite_loop f addr n (i + n1) s))))))"
  by pat_completeness auto
termination
  by (relation "measure (\<lambda>(f, addr, n, i, s). n - i)") (use WRITE_MAX_pos in auto)

declare filewrite_loop.simps [simp del]

definition filewrite :: "nat \<Rightarrow> uint64 \<Rightarrow> int \<Rightarrow> 'a files_scheme \<Rightarrow> (int progress \<times> 'a files_scheme) result" where
  "filewrite f addr n s =
     (let x = ftable s f
      in if f_writable x = 0 then Ok (Return (-1), s)
         else case f_type x of
           FD_PIPE \<Rightarrow> pipewrite (f_pipe x) addr n s
         | FD_DEVICE \<Rightarrow>
             if sint (f_major x) < 0 \<or> sint (f_major x) \<ge> int NDEV then Ok (Return (-1), s)
             else (case dw_write (devsw s (unat (f_major x))) of
                     None \<Rightarrow> Ok (Return (-1), s)
                   | Some d \<Rightarrow> call_dev d addr n s)
         | FD_INODE \<Rightarrow> if n < 0 then Ok (Return (-1), s) else filewrite_loop f addr (nat n) 0 s
         | FD_NONE \<Rightarrow> Panic ''filewrite'')"

definition pipealloc :: "'a files_scheme \<Rightarrow> ((nat \<times> nat) option \<times> 'a files_scheme) result" where
  "pipealloc s =
     (case filealloc s of
        (None, s) \<Rightarrow> Ok (None, s)
      | (Some f0, s) \<Rightarrow>
          (case filealloc s of
             (None, s) \<Rightarrow> bindR (fileclose f0 s) (\<lambda>s. Ok (None, s))
           | (Some f1, s) \<Rightarrow>
               let (pi, s) = kalloc s
               in if pi = 0
                  then bindR (fileclose f0 s) (\<lambda>s. bindR (fileclose f1 s) (\<lambda>s. Ok (None, s)))
                  else let s = upd_pipe pi (\<lambda>x. x\<lparr>readopen := 1, writeopen := 1, nwrite := 0, nread := 0\<rparr>) s;
                           s = upd_file f0 (\<lambda>x. x\<lparr>f_type := FD_PIPE, f_readable := 1, f_writable := 0, f_pipe := pi\<rparr>) s;
                           s = upd_file f1 (\<lambda>x. x\<lparr>f_type := FD_PIPE, f_readable := 0, f_writable := 1, f_pipe := pi\<rparr>) s
                       in Ok (Some (f0, f1), s)))"

subsection \<open>A pipe is a queue\<close>

definition pipe_queue :: "pipe \<Rightarrow> uchar list" where
  "pipe_queue x = ring_queue PIPESIZE (pp_data x) (nread x) (nwrite x)"

definition pipe_ok :: "pipe \<Rightarrow> bool" where
  "pipe_ok x \<longleftrightarrow> length (pipe_queue x) \<le> PIPESIZE"

interpretation pipe_ring: ring PIPESIZE "TYPE(32)"
  by unfold_locales (simp_all add: PIPESIZE_def)

lemma pipe_room: "pipe_ok x \<Longrightarrow> \<not> pipe_full x \<Longrightarrow> length (pipe_queue x) < PIPESIZE"
  unfolding pipe_ok_def pipe_full_def pipe_queue_def length_ring_queue by (rule ring_room)

lemma pipe_full_iff: "pipe_ok x \<Longrightarrow> pipe_full x \<longleftrightarrow> length (pipe_queue x) = PIPESIZE"
  using pipe_room [of x] by (cases "pipe_full x") (auto simp: pipe_full_def pipe_queue_def PIPESIZE_def)

lemma pipe_empty_iff: "pipe_empty x \<longleftrightarrow> pipe_queue x = []"
  by (simp add: pipe_empty_def pipe_queue_def ring_queue_empty)

interpretation pipeq: bounded_queue pipe_queue pipe_ok pipe_full pipe_empty pipe_put pipe_get
proof
  fix x :: pipe and b
  assume x: "pipe_ok x" "\<not> pipe_full x"
  have n: "unat (nwrite x - nread x) < PIPESIZE" using pipe_room [OF x] by (simp add: pipe_queue_def)
  then have f: "unat (nwrite x - nread x) + 1 < 2 ^ LENGTH(32)" by (simp add: PIPESIZE_def)
  show q: "pipe_queue (pipe_put b x) = pipe_queue x @ [b]"
    unfolding pipe_queue_def using pipe_ring.push [OF n f, of "pp_data x" b] by (simp add: pipe_put_def)
  show "pipe_ok (pipe_put b x)" using pipe_room [OF x] by (simp add: pipe_ok_def q)
next
  fix x :: pipe
  assume x: "pipe_ok x" "\<not> pipe_empty x"
  have ne: "nread x \<noteq> nwrite x" using x(2) by (simp add: pipe_empty_def)
  show q: "pipe_queue x = fst (pipe_get x) # pipe_queue (snd (pipe_get x))"
    unfolding pipe_queue_def using ring_queue_pop [OF ne] by (simp add: pipe_get_def)
  show "pipe_ok (snd (pipe_get x))" using x(1) unfolding pipe_ok_def q by simp
qed

text \<open>
  C12. A pipe is a first-in-first-out queue. Whatever the order in which writers store bytes and readers
  take them, with each store guarded by the test for a full and each read by the test for an empty
  buffer, the bytes read so far followed by the bytes in the buffer are the bytes that were there
  followed by the bytes written, and there are never more than 512 in the buffer. This holds also when
  the 32-bit counters wrap.
\<close>

theorem pipe_fifo:
  assumes "length (pipe_queue x) \<le> PIPESIZE" and "queue_run pipe_full pipe_empty pipe_put pipe_get ops x = Some (out, y)"
  shows "out @ pipe_queue y = pipe_queue x @ puts ops \<and> length (pipe_queue y) \<le> PIPESIZE"
  using pipeq.fifo [of x ops out y] assms by (simp add: pipe_ok_def)

definition pipe_example :: pipe where
  "pipe_example = \<lparr>pp_data = (\<lambda>_. 0), nread = 0xffffffff, nwrite = 0xffffffff, readopen = 1, writeopen = 1\<rparr>"

theorem pipe_fifo_witness:
  "\<exists>y. queue_run pipe_full pipe_empty pipe_put pipe_get [Put 7, Put 8, Get] pipe_example = Some ([7], y)
     \<and> [7] @ pipe_queue y = pipe_queue pipe_example @ puts [Put 7, Put 8, Get] \<and> length (pipe_queue y) \<le> PIPESIZE"
proof -
  have l: "length (pipe_queue pipe_example) \<le> PIPESIZE" by (simp add: pipe_queue_def pipe_example_def)
  obtain y where y: "queue_run pipe_full pipe_empty pipe_put pipe_get [Put 7, Put 8, Get] pipe_example = Some ([7], y)"
    by (simp add: pipe_example_def pipe_full_def pipe_empty_def pipe_put_def pipe_get_def PIPESIZE_def)
  with pipe_fifo [OF l y] show ?thesis by blast
qed

subsection \<open>Transfers through a pipe\<close>

lemma pipe_frame [simp]:
  "pipes (upd_pipe pi f s) = (pipes s)(pi := f (pipes s pi))" "procs (upd_pipe pi f s) = procs s" "mem (upd_pipe pi f s) = mem s"
  by (simp_all add: upd_pipe_def)

lemma woken_pipes [simp]: "pipes (woken ch s) = pipes s" "ftable (woken ch s) = ftable s"
  by (simp_all add: woken_def)

lemma quiet_upd_pipe [simp]: "quiet (upd_pipe pi f s) = quiet s"
  unfolding upd_pipe_def by (rule quiet_cong) simp_all

lemma user_byte:
  assumes "upage pt s a \<noteq> 0"
  shows "copyin pt a 1 s = Ok (0, [ubyte pt s a])"
  using copyin_bytes [of 1 pt s a] assms by simp

lemma ubyte_mem: "mem s = mem u \<Longrightarrow> ubyte pt s a = ubyte pt u a"
  using upage_mem [of s u pt a] by (simp add: ubyte_def uaddr_def)

text \<open>The bytes that a write takes from user memory.\<close>

definition ubytes :: "uint64 \<Rightarrow> 'a kmem_scheme \<Rightarrow> uint64 \<Rightarrow> nat \<Rightarrow> nat \<Rightarrow> uchar list" where
  "ubytes pt s addr i k = map (\<lambda>j. ubyte pt s (addr + of_nat j)) [i..<i + k]"

lemma pipewrite_loop_appends:
  fixes s :: "'a files_scheme"
  assumes "quiet s" and "pipe_ok (pipes s pi)" and "readopen (pipes s pi) \<noteq> 0" and "p_killed (procs s pr) = 0" and "i \<le> n"
    and "\<And>k. k < n \<Longrightarrow> upage (p_pagetable (procs s pr)) s (addr + of_nat k) \<noteq> 0"
    and "m = min (n - i) (PIPESIZE - length (pipe_queue (pipes s pi)))"
  shows "\<exists>x. pipewrite_loop pi pr addr n i s
            = Ok (if i + m = n then Return (int n) else Block (write_chan pi) (i + m), woken (read_chan pi) (upd_pipe pi (\<lambda>_. x) s))
       \<and> pipe_ok x \<and> pipe_queue x = pipe_queue (pipes s pi) @ ubytes (p_pagetable (procs s pr)) s addr i m
       \<and> readopen x = readopen (pipes s pi) \<and> writeopen x = writeopen (pipes s pi)"
  using assms
proof (induction "n - i" arbitrary: i s m)
  case 0
  have "upd_pipe pi (\<lambda>_. pipes s pi) s = s" by (simp add: upd_pipe_def)
  moreover have "pipewrite_loop pi pr addr n i s = Ok (Return (int i), woken (read_chan pi) s)"
    using 0 by (subst pipewrite_loop.simps) (simp add: wakeup_quiet)
  ultimately show ?case using 0 by (intro exI [of _ "pipes s pi"]) (simp add: ubytes_def)
next
  case (Suc d)
  let ?pt = "p_pagetable (procs s pr)" and ?q = "pipe_queue (pipes s pi)"
  have i: "i < n" using Suc.hyps(2) by simp
  show ?case
  proof (cases "pipe_full (pipes s pi)")
    case True
    then have "m = 0" using Suc.prems(7) pipe_full_iff [OF Suc.prems(2)] by simp
    moreover have "upd_pipe pi (\<lambda>_. pipes s pi) s = s" by (simp add: upd_pipe_def)
    ultimately show ?thesis using True i Suc.prems(1-4)
      by (intro exI [of _ "pipes s pi"]) (simp add: pipewrite_loop.simps [of pi pr addr n i] wakeup_quiet ubytes_def)
  next
    case False
    define b where "b = ubyte ?pt s (addr + of_nat i)"
    define u where "u = upd_pipe pi (pipe_put b) s"
    have q: "pipe_queue (pipes u pi) = ?q @ [b]" and ok: "pipe_ok (pipes u pi)"
      using pipeq.put_queue [OF Suc.prems(2) False] pipeq.put_ok [OF Suc.prems(2) False] by (simp_all add: u_def)
    have room: "length ?q < PIPESIZE" using pipe_room [OF Suc.prems(2) False] .
    have fields: "readopen (pipes u pi) = readopen (pipes s pi)" "writeopen (pipes u pi) = writeopen (pipes s pi)"
      "procs u = procs s" by (simp_all add: u_def pipe_put_def)
    have up: "upage ?pt u a = upage ?pt s a" "ubyte ?pt u a = ubyte ?pt s a" for a
      using upage_mem [of u s ?pt a] ubyte_mem [of u s ?pt a] by (simp_all add: u_def)
    define m' where "m' = min (n - Suc i) (PIPESIZE - length (pipe_queue (pipes u pi)))"
    have "length (pipe_queue (pipes u pi)) = Suc (length ?q)" by (simp add: q)
    then have m: "m = Suc m'" using Suc.prems(7) i room unfolding m'_def by arith
    have "\<exists>x. pipewrite_loop pi pr addr n (Suc i) u
            = Ok (if Suc i + m' = n then Return (int n) else Block (write_chan pi) (Suc i + m'), woken (read_chan pi) (upd_pipe pi (\<lambda>_. x) u))
       \<and> pipe_ok x \<and> pipe_queue x = pipe_queue (pipes u pi) @ ubytes (p_pagetable (procs u pr)) u addr (Suc i) m'
       \<and> readopen x = readopen (pipes u pi) \<and> writeopen x = writeopen (pipes u pi)"
      by (rule Suc.hyps(1)) (use Suc.hyps(2) Suc.prems i ok fields up in \<open>simp_all add: m'_def, simp_all add: u_def\<close>)
    then obtain x where x: "pipewrite_loop pi pr addr n (Suc i) u
            = Ok (if Suc i + m' = n then Return (int n) else Block (write_chan pi) (Suc i + m'), woken (read_chan pi) (upd_pipe pi (\<lambda>_. x) u))"
       "pipe_ok x" "pipe_queue x = ?q @ [b] @ ubytes ?pt s addr (Suc i) m'"
       "readopen x = readopen (pipes s pi)" "writeopen x = writeopen (pipes s pi)"
      using q fields up by (auto simp: ubytes_def)
    have "upd_pipe pi (\<lambda>_. x) u = upd_pipe pi (\<lambda>_. x) s" by (simp add: u_def upd_pipe_def)
    moreover have "[i..<i + m] = i # [Suc i..<Suc i + m']" by (simp add: m upt_conv_Cons del: upt_Suc)
    then have "[b] @ ubytes ?pt s addr (Suc i) m' = ubytes ?pt s addr i m" by (simp add: ubytes_def b_def)
    moreover have "pipewrite_loop pi pr addr n i s = pipewrite_loop pi pr addr n (Suc i) u"
      using i False Suc.prems(3,4) user_byte [OF Suc.prems(6) [OF i]]
      by (simp add: pipewrite_loop.simps [of pi pr addr n i s] u_def b_def)
    ultimately show ?thesis using x m by (intro exI [of _ x]) simp
  qed
qed

lemma copyout_byte:
  assumes "user_mem pt s U" and "no_alias pt s" and "upage pt s a \<noteq> 0"
  shows "copyout pt a [b] s = Ok (0, s\<lparr>mem := (mem s)(uaddr pt s a := b)\<rparr>)"
proof -
  obtain m where m: "copyout pt a [b] s = Ok (0, s\<lparr>mem := m\<rparr>)" "m (uaddr pt s a) = b"
    and out: "\<And>x. x \<noteq> uaddr pt s a \<Longrightarrow> m x = mem s x"
    using copyout_writes [OF assms(1,2), of "[b]" a] assms(3) by auto
  have "m = (mem s)(uaddr pt s a := b)" using m(2) out by (auto simp: fun_eq_iff)
  with m(1) show ?thesis by simp
qed

text \<open>User memory after bytes have been stored at consecutive user addresses.\<close>

fun ustore :: "uint64 \<Rightarrow> 'a kmem_scheme \<Rightarrow> uint64 \<Rightarrow> uchar list \<Rightarrow> memory \<Rightarrow> memory" where
  "ustore pt s a [] m = m"
| "ustore pt s a (b # bs) m = ustore pt s (a + 1) bs (m(uaddr pt s a := b))"

lemma piperead_loop_takes:
  fixes s :: "'a files_scheme"
  assumes "user_mem pt s U" and "no_alias pt s" and "pipe_ok (pipes s pi)" and "pt = p_pagetable (procs s pr)" and "i \<le> n"
    and "\<And>k. k < n \<Longrightarrow> upage pt s (addr + of_nat k) \<noteq> 0"
    and "m = min (n - i) (length (pipe_queue (pipes s pi)))"
  shows "\<exists>x. piperead_loop pi pr addr n i s = Ok (i + m, (upd_pipe pi (\<lambda>_. x) s)
            \<lparr>mem := ustore pt s (addr + of_nat i) (take m (pipe_queue (pipes s pi))) (mem s)\<rparr>)
       \<and> pipe_ok x \<and> pipe_queue x = drop m (pipe_queue (pipes s pi))
       \<and> readopen x = readopen (pipes s pi) \<and> writeopen x = writeopen (pipes s pi)"
  using assms
proof (induction "n - i" arbitrary: i s m)
  case 0
  have "(upd_pipe pi (\<lambda>_. pipes s pi) s)\<lparr>mem := mem s\<rparr> = s" by (simp add: upd_pipe_def)
  with 0 show ?case by (intro exI [of _ "pipes s pi"]) (subst piperead_loop.simps, simp)
next
  case (Suc d)
  let ?q = "pipe_queue (pipes s pi)"
  have i: "i < n" using Suc.hyps(2) by simp
  show ?case
  proof (cases "pipe_empty (pipes s pi)")
    case True
    then have q: "?q = []" by (simp add: pipe_empty_iff)
    have "(upd_pipe pi (\<lambda>_. pipes s pi) s)\<lparr>mem := mem s\<rparr> = s" by (simp add: upd_pipe_def)
    with True Suc.prems(3,7) show ?thesis
      by (intro exI [of _ "pipes s pi"]) (subst piperead_loop.simps, simp add: q)
  next
    case False
    define b where "b = fst (pipe_get (pipes s pi))"
    define y where "y = snd (pipe_get (pipes s pi))"
    have g: "pipe_get (pipes s pi) = (b, y)" by (simp add: b_def y_def)
    have q: "?q = b # pipe_queue y" and ok: "pipe_ok y"
      using pipeq.get_queue [OF Suc.prems(3) False] pipeq.get_ok [OF Suc.prems(3) False] by (simp_all add: b_def y_def)
    have fy: "readopen y = readopen (pipes s pi)" "writeopen y = writeopen (pipes s pi)" by (simp_all add: y_def pipe_get_def)
    define a where "a = addr + of_nat i"
    define v where "v = upd_pipe pi (\<lambda>_. y) s"
    have mv: "mem v = mem s" by (simp add: v_def)
    have uv: "upage pt v va = upage pt s va" for va by (rule upage_mem [OF mv])
    then have av: "uaddr pt v va = uaddr pt s va" for va by (simp add: uaddr_def)
    have sv: "upage pt (v\<lparr>mem := M\<rparr>) va = upage pt (s\<lparr>mem := M\<rparr>) va" for M va by (rule upage_mem) simp
    have umv: "user_mem pt v U" using Suc.prems(1) unfolding user_mem_def uv av sv mv .
    have nav: "no_alias pt v" using Suc.prems(2) unfolding no_alias_def uv .
    define M where "M = (mem s)(uaddr pt s a := b)"
    have c: "copyout pt a [b] v = Ok (0, v\<lparr>mem := M\<rparr>)"
      using copyout_byte [OF umv nav, of a b] Suc.prems(6) [OF i] by (simp add: uv av mv M_def a_def)
    have "M x = mem v x" if "x \<notin> U" for x
      using that Suc.prems(1) Suc.prems(6) [OF i] by (auto simp: M_def mv a_def user_mem_def)
    note keep = user_mem_store [OF umv this]
    define u where "u = v\<lparr>mem := M\<rparr>"
    define m' where "m' = min (n - Suc i) (length (pipe_queue y))"
    have m: "m = Suc m'" using Suc.prems(7) i unfolding m'_def q by simp
    have pu: "pipes u pi = y" "procs u = procs s" "mem u = M" by (simp_all add: u_def v_def)
    have "\<exists>x. piperead_loop pi pr addr n (Suc i) u = Ok (Suc i + m', (upd_pipe pi (\<lambda>_. x) u)
            \<lparr>mem := ustore pt u (addr + of_nat (Suc i)) (take m' (pipe_queue (pipes u pi))) (mem u)\<rparr>)
       \<and> pipe_ok x \<and> pipe_queue x = drop m' (pipe_queue (pipes u pi))
       \<and> readopen x = readopen (pipes u pi) \<and> writeopen x = writeopen (pipes u pi)"
    proof (rule Suc.hyps(1))
      show "d = n - Suc i" "Suc i \<le> n" using Suc.hyps(2) i by simp_all
      show "user_mem pt u U" unfolding u_def by (rule keep(3))
      show "no_alias pt u" using nav keep(4) by (simp add: u_def)
      show "upage pt u (addr + of_nat k) \<noteq> 0" if "k < n" for k
        using Suc.prems(6) [OF that] keep(1) [of "addr + of_nat k"] uv [of "addr + of_nat k"] unfolding u_def by simp
    qed (use ok Suc.prems(4) in \<open>simp_all add: m'_def pu\<close>)
    then obtain x where x: "piperead_loop pi pr addr n (Suc i) u = Ok (Suc i + m', (upd_pipe pi (\<lambda>_. x) u)
            \<lparr>mem := ustore pt u (addr + of_nat (Suc i)) (take m' (pipe_queue y)) M\<rparr>)"
       "pipe_ok x" "pipe_queue x = drop m' (pipe_queue y)" "readopen x = readopen y" "writeopen x = writeopen y"
      by (auto simp: pu)
    have au: "uaddr pt u = uaddr pt s" unfolding u_def by (rule ext) (simp add: keep(2) av)
    have us: "ustore pt u z bs N = ustore pt s z bs N" for z bs N
      by (induction bs arbitrary: z N) (simp_all add: au)
    have st: "(upd_pipe pi (\<lambda>_. x) u)\<lparr>mem := N\<rparr> = (upd_pipe pi (\<lambda>_. x) s)\<lparr>mem := N\<rparr>" for N
      by (simp add: u_def v_def upd_pipe_def)
    have "piperead_loop pi pr addr n i s = piperead_loop pi pr addr n (Suc i) u"
      using i False c Suc.prems(4) by (subst piperead_loop.simps) (simp add: g a_def v_def u_def)
    moreover have e: "addr + of_nat (Suc i) = a + 1" by (simp add: a_def add.commute)
    have "piperead_loop pi pr addr n (Suc i) u = Ok (i + m, (upd_pipe pi (\<lambda>_. x) s)\<lparr>mem := ustore pt s a (take m ?q) (mem s)\<rparr>)"
      using x(1) unfolding e us st m q by (simp add: M_def)
    ultimately show ?thesis using x(2-5) fy unfolding a_def [symmetric] m q by (intro exI [of _ x]) simp
  qed
qed

text \<open>
  C13. \<^verbatim>\<open>pipewrite\<close> moves bytes from user memory to the end of the queue: all of them when there is room, and
  otherwise as many as fit before it goes to sleep with that many done, after waking the readers.
\<close>

theorem pipewrite_appends:
  fixes s :: "'a files_scheme"
  assumes "running p i s" and "length (pipe_queue (pipes s pi)) \<le> PIPESIZE" and "p_killed (procs s p) = 0"
    and "readopen (pipes s pi) \<noteq> 0" and "0 \<le> n"
    and "\<And>k. k < nat n \<Longrightarrow> upage (p_pagetable (procs s p)) s (addr + of_nat k) \<noteq> 0"
  shows "let q = pipe_queue (pipes s pi); m = min (nat n) (PIPESIZE - length q)
     in \<exists>t. pipewrite pi addr n s = Ok (if m = nat n then Return n else Block (write_chan pi) m, t)
          \<and> pipe_queue (pipes t pi) = q @ ubytes (p_pagetable (procs s p)) s addr 0 m
          \<and> length (pipe_queue (pipes t pi)) \<le> PIPESIZE"
proof -
  let ?q = "pipe_queue (pipes s pi)"
  define m where "m = min (nat n) (PIPESIZE - length ?q)"
  have ok: "pipe_ok (pipes s pi)" using assms(2) by (simp add: pipe_ok_def)
  obtain x where x: "pipewrite_loop pi p addr (nat n) 0 s
      = Ok (if m = nat n then Return (int (nat n)) else Block (write_chan pi) m, woken (read_chan pi) (upd_pipe pi (\<lambda>_. x) s))"
    "pipe_ok x" "pipe_queue x = ?q @ ubytes (p_pagetable (procs s p)) s addr 0 m"
    using pipewrite_loop_appends [OF running_quiet [OF assms(1)] ok assms(4,3), of 0 "nat n" addr m, OF le0 assms(6)] m_def
    unfolding add_0 minus_nat.diff_0 by blast
  have "pipewrite pi addr n s = pipewrite_loop pi p addr (nat n) 0 s"
    using runningD [OF assms(1)] by (simp add: pipewrite_def with_proc_def myproc_settled)
  then have "pipewrite pi addr n s = Ok (if m = nat n then Return n else Block (write_chan pi) m,
      woken (read_chan pi) (upd_pipe pi (\<lambda>_. x) s))"
    using x(1) assms(5) by simp
  moreover have "pipes (woken (read_chan pi) (upd_pipe pi (\<lambda>_. x) s)) pi = x" by simp
  ultimately show ?thesis using x(2,3) unfolding Let_def m_def [symmetric] pipe_ok_def by auto
qed

text \<open>
  C14. \<^verbatim>\<open>piperead\<close> on a pipe that is not empty takes bytes from the front of the queue, as many as are there and
  were asked for, stores them at consecutive addresses of the reader, returns their number and leaves
  the rest in the queue; it does not wait for more. Every other thread that sleeps until the pipe has
  room is made runnable, and no other thread is changed.
\<close>

theorem piperead_takes:
  fixes s :: "'a files_scheme"
  assumes "running p i s" and "length (pipe_queue (pipes s pi)) \<le> PIPESIZE" and "pipe_queue (pipes s pi) \<noteq> []"
    and "user_mem (p_pagetable (procs s p)) s U" and "no_alias (p_pagetable (procs s p)) s"
    and "\<And>k. k < nat n \<Longrightarrow> upage (p_pagetable (procs s p)) s (addr + of_nat k) \<noteq> 0"
  shows "let q = pipe_queue (pipes s pi); m = min (nat n) (length q)
     in \<exists>t. piperead pi addr n s = Ok (Return (int m), t) \<and> pipe_queue (pipes t pi) = drop m q
          \<and> mem t = ustore (p_pagetable (procs s p)) s addr (take m q) (mem s)
          \<and> (\<forall>r<NPROC. \<forall>j<NTHREAD. thr r j t = wake_thread (write_chan pi) (Some (p, i)) r j (thr r j s))"
proof -
  let ?q = "pipe_queue (pipes s pi)" and ?pt = "p_pagetable (procs s p)"
  define m where "m = min (nat n) (length ?q)"
  obtain x where x: "piperead_loop pi p addr (nat n) 0 s
      = Ok (m, (upd_pipe pi (\<lambda>_. x) s)\<lparr>mem := ustore ?pt s addr (take m ?q) (mem s)\<rparr>)" "pipe_queue x = drop m ?q"
    using piperead_loop_takes [OF assms(4,5), of pi p 0 "nat n" addr m] assms(2,6) by (auto simp: pipe_ok_def m_def)
  let ?u = "(upd_pipe pi (\<lambda>_. x) s)\<lparr>mem := ustore ?pt s addr (take m ?q) (mem s)\<rparr>"
  have "quiet ?u = quiet (upd_pipe pi (\<lambda>_. x) s)" by (rule quiet_cong) simp_all
  then have "quiet ?u" using running_quiet [OF assms(1)] by simp
  then have "piperead pi addr n s = Ok (Return (int m), woken (write_chan pi) ?u)"
    using runningD [OF assms(1)] assms(3) x(1)
    by (simp add: piperead_def with_proc_def myproc_settled pipe_empty_iff wakeup_quiet)
  moreover have "pipes (woken (write_chan pi) ?u) pi = x" "mem (woken (write_chan pi) ?u) = ustore ?pt s addr (take m ?q) (mem s)"
    by simp_all
  moreover have "thr r j (woken (write_chan pi) ?u) = wake_thread (write_chan pi) (Some (p, i)) r j (thr r j s)"
    if "r < NPROC" "j < NTHREAD" for r j
    using that runningD(4) [OF assms(1)] by (simp add: woken_def thr_def wake_proc_def upd_pipe_def mycpu_def)
  ultimately show ?thesis using x(2) unfolding Let_def m_def [symmetric] by auto
qed

subsection \<open>Examples\<close>

text \<open>The state of the examples with an address space for the running process, a pipe whose
  counters are about to wrap, and a thread that sleeps until it has room.\<close>

definition files_example :: files where
  "files_example = devs.extend
     (upd_proc 2 (\<lambda>pr. pr\<lparr>p_pagetable := 0x87FFC000, p_killed := 0\<rparr>)
       (upd_thread 3 1 (\<lambda>t. t\<lparr>t_state := SLEEPING, t_chan := Some (write_chan 5)\<rparr>) (devs_example\<lparr>mem := mem user_example\<rparr>)))
     \<lparr>ftable = (\<lambda>_. \<lparr>f_type = FD_NONE, f_ref = 0, f_readable = 0, f_writable = 0, f_pipe = 0, f_ip = 0, f_off = 0, f_major = 0\<rparr>),
      pipes = (\<lambda>_. pipe_put 9 pipe_example)\<rparr>"

lemma files_example_fields [simp]:
  "pipes files_example = (\<lambda>_. pipe_put 9 pipe_example)" "mem files_example = mem user_example"
  "p_pagetable (procs files_example 2) = 0x87FFC000" "p_killed (procs files_example 2) = 0"
  by (simp_all add: files_example_def devs.defs upd_proc_def upd_thread_def)

lemma files_example_running: "running 2 0 files_example"
proof -
  let ?u = "upd_proc 2 (\<lambda>pr. pr\<lparr>p_pagetable := 0x87FFC000, p_killed := 0\<rparr>)
    (upd_thread 3 1 (\<lambda>t. t\<lparr>t_state := SLEEPING, t_chan := Some (write_chan 5)\<rparr>) (devs_example\<lparr>mem := mem user_example\<rparr>))"
  have "running 2 0 ?u"
    using devs_example_running unfolding upd_thread_def by (intro running_upd) (simp_all add: keeps_lock_def)
  moreover have "running 2 0 files_example = running 2 0 ?u"
    by (rule running_cong) (simp_all add: files_example_def devs.defs)
  ultimately show ?thesis by simp
qed

lemma files_example_user:
  "upage pt files_example va = upage pt user_example va"
  "user_mem pt files_example U = user_mem pt user_example U" "no_alias pt files_example = no_alias pt user_example"
proof -
  have u: "upage pt files_example va = upage pt user_example va" for va by (rule upage_mem) simp
  then show "upage pt files_example va = upage pt user_example va" .
  have s: "upage pt (files_example\<lparr>mem := M\<rparr>) va = upage pt (user_example\<lparr>mem := M\<rparr>) va" for M va by (rule upage_mem) simp
  show "user_mem pt files_example U = user_mem pt user_example U" unfolding user_mem_def uaddr_def u s by simp
  show "no_alias pt files_example = no_alias pt user_example" unfolding no_alias_def u ..
qed

lemma files_example_queue: "pipe_queue (pipe_put 9 pipe_example) = [9]"
  by (simp add: pipe_queue_def pipe_put_def pipe_example_def ring_queue_def PIPESIZE_def)

lemma files_example_open: "readopen (pipe_put 9 pipe_example) = 1"
  by (simp add: pipe_put_def pipe_example_def)

lemma files_example_mapped: "k < 3 \<Longrightarrow> upage 0x87FFC000 files_example (0 + of_nat k) \<noteq> 0"
  using uaddr_within(1) [of k 0 "0x87FFC000" user_example] user_example_upage
  by (simp add: files_example_user(1) PGROUNDDOWN_def)

theorem pipewrite_appends_witness:
  "\<exists>t. pipewrite 5 0 3 files_example = Ok (Return 3, t) \<and> pipe_queue (pipes t 5) = [9] @ ubytes 0x87FFC000 files_example 0 0 3
     \<and> length (pipe_queue (pipes t 5)) \<le> PIPESIZE"
proof -
  have "let q = pipe_queue (pipes files_example 5); m = min (nat 3) (PIPESIZE - length q)
     in \<exists>t. pipewrite 5 0 3 files_example = Ok (if m = nat 3 then Return 3 else Block (write_chan 5) m, t)
          \<and> pipe_queue (pipes t 5) = q @ ubytes (p_pagetable (procs files_example 2)) files_example 0 0 m
          \<and> length (pipe_queue (pipes t 5)) \<le> PIPESIZE"
    by (rule pipewrite_appends [OF files_example_running])
       (use files_example_mapped in \<open>simp_all add: files_example_queue PIPESIZE_def files_example_open\<close>)
  then show ?thesis by (simp add: files_example_queue Let_def PIPESIZE_def)
qed

theorem piperead_takes_witness:
  "\<exists>t. piperead 5 0 3 files_example = Ok (Return 1, t) \<and> pipe_queue (pipes t 5) = []
     \<and> mem t = ustore 0x87FFC000 files_example 0 [9] (mem files_example) \<and> t_state (thr 3 1 t) = RUNNABLE"
proof -
  have "let q = pipe_queue (pipes files_example 5); m = min (nat 3) (length q)
     in \<exists>t. piperead 5 0 3 files_example = Ok (Return (int m), t) \<and> pipe_queue (pipes t 5) = drop m q
          \<and> mem t = ustore (p_pagetable (procs files_example 2)) files_example 0 (take m q) (mem files_example)
          \<and> (\<forall>r<NPROC. \<forall>j<NTHREAD. thr r j t = wake_thread (write_chan 5) (Some (2, 0)) r j (thr r j files_example))"
    by (rule piperead_takes [OF files_example_running, where U = "{a. in_page 0x87FFF000 a}"])
       (use files_example_mapped user_example_ok user_example_no_alias in
         \<open>simp_all add: files_example_queue PIPESIZE_def files_example_user\<close>)
  then obtain t where t: "piperead 5 0 3 files_example = Ok (Return 1, t)" "pipe_queue (pipes t 5) = []"
    "mem t = ustore 0x87FFC000 files_example 0 [9] (mem files_example)"
    "\<And>r j. r < NPROC \<Longrightarrow> j < NTHREAD \<Longrightarrow> thr r j t = wake_thread (write_chan 5) (Some (2, 0)) r j (thr r j files_example)"
    by (auto simp: files_example_queue Let_def)
  have "thr 3 1 t = wake_thread (write_chan 5) (Some (2, 0)) 3 1 (thr 3 1 files_example)"
    by (rule t(4)) (simp_all add: NPROC_def NTHREAD_def)
  then have "t_state (thr 3 1 t) = RUNNABLE"
    by (simp add: wake_thread_def files_example_def devs.defs upd_proc_def upd_thread_def thr_def)
  with t(1-3) show ?thesis by blast
qed

end
