(* ===== verification/Thread.thy ===== *)
theory Thread
  imports Sched
begin

text \<open>
  Kernel threads in \<^verbatim>\<open>kernel/proc.c\<close>: \<^verbatim>\<open>kthread_create\<close>, \<^verbatim>\<open>kthread_id\<close> and \<^verbatim>\<open>kthread_join\<close>. A round of the
  endless loop of \<^verbatim>\<open>kthread_join\<close> is \<open>join_round\<close>; it starts with \<^verbatim>\<open>wait_lock\<close> held. \<^verbatim>\<open>kthread_exit\<close>
  calls \<^verbatim>\<open>exit\<close> for the last thread and is with it in the theory of process lifecycles.
\<close>

definition kthread_create :: "uint64 \<Rightarrow> uint64 \<Rightarrow> 'a kernel_scheme \<Rightarrow> (int \<times> 'a kernel_scheme) result" where
  "kthread_create start_func stack = with_proc (\<lambda>p. with_thread (\<lambda>q i s.
     bindR (acquire_p p s) (\<lambda>s.
     bindR (allocthread p s) (\<lambda>(nt, s). case nt of
       None \<Rightarrow> Ok (0, s)
     | Some j \<Rightarrow>
         bindR (tf_copy (t_trapframe (thr p j s)) (t_trapframe (thr q i s)) s) (\<lambda>s.
         bindR (tf_set (t_trapframe (thr p j s)) TF_epc start_func s) (\<lambda>s.
         bindR (tf_set (t_trapframe (thr p j s)) TF_sp (stack + of_nat MAX_STACK_SIZE - 16) s) (\<lambda>s.
         bindR (release_p p (upd_thread p j (\<lambda>t. t\<lparr>t_state := RUNNABLE\<rparr>) s)) (\<lambda>s.
           Ok (t_id (thr p j s), s)))))))))"

definition kthread_id :: "'a kernel_scheme \<Rightarrow> (int \<times> 'a kernel_scheme) result" where
  "kthread_id = with_thread (\<lambda>p i s. Ok (t_id (thr p i s), s))"

fun join_scan :: "nat \<Rightarrow> int \<Rightarrow> uint64 \<Rightarrow> nat list \<Rightarrow> nat option \<Rightarrow> 'a kernel_scheme
    \<Rightarrow> (int option \<times> nat option \<times> 'a kernel_scheme) result" where
  "join_scan p thread_id addr [] found s = Ok (None, found, s)"
| "join_scan p thread_id addr (nt # nts) found s =
     (if t_id (thr p nt s) = thread_id
      then bindR (acquire_p p s) (\<lambda>s.
        if t_state (thr p nt s) = ZOMBIE
        then bindR (if addr \<noteq> 0
                    then copyout (p_pagetable (procs s p)) addr
                           (le_bytes 4 (word_of_int (t_xstate (thr p nt s)) :: uint)) s
                    else Ok (0, s)) (\<lambda>(r, s).
             if r < 0
             then bindR (release_p p s) (\<lambda>s. bindR (release_wait s) (\<lambda>s. Ok (Some (-1), Some nt, s)))
             else bindR (freethread p nt s) (\<lambda>s.
                  bindR (release_p p s) (\<lambda>s.
                  bindR (release_wait s) (\<lambda>s. Ok (Some 0, Some nt, s)))))
        else bindR (release_p p s) (join_scan p thread_id addr nts (Some nt)))
      else join_scan p thread_id addr nts found s)"

definition join_round :: "nat \<Rightarrow> int \<Rightarrow> uint64 \<Rightarrow> 'a kernel_scheme \<Rightarrow> (int outcome \<times> 'a kernel_scheme) result" where
  "join_round p thread_id addr s =
     bindR (join_scan p thread_id addr [0..<NTHREAD] None s) (\<lambda>(r, found, s).
       case r of Some v \<Rightarrow> Ok (Done v, s)
       | None \<Rightarrow> (case found of
           None \<Rightarrow> bindR (release_wait s) (\<lambda>s. Ok (Done (-1), s))
         | Some nt \<Rightarrow> with_thread (\<lambda>q i s.
             if t_killed (thr q i s) \<noteq> 0 then bindR (release_wait s) (\<lambda>s. Ok (Done (-1), s))
             else bindR (sleep_out (ThreadChan p nt) release_wait s) (\<lambda>(ena, s). Ok (Switched ena, s))) s))"

definition kthread_join :: "int \<Rightarrow> uint64 \<Rightarrow> 'a kernel_scheme \<Rightarrow> (int outcome \<times> 'a kernel_scheme) result" where
  "kthread_join thread_id addr = with_thread (\<lambda>q i s.
     case tproc (thr q i s) of
       None \<Rightarrow> Undef ''no process''
     | Some p \<Rightarrow>
         if thread_id = 0 then Ok (Done (-1), s)
         else with_thread (\<lambda>q i s.
           if thread_id = t_id (thr q i s) then Ok (Done (-1), s)
           else bindR (acquire_wait s) (join_round p thread_id addr)) s)"

definition kthread_join_back :: "bool \<Rightarrow> nat \<Rightarrow> nat \<Rightarrow> int \<Rightarrow> uint64 \<Rightarrow> 'a kernel_scheme
    \<Rightarrow> (int outcome \<times> 'a kernel_scheme) result" where
  "kthread_join_back ena p i thread_id addr s =
     bindR (sleep_back ena p p i acquire_wait s) (join_round p thread_id addr)"

end
