(* ===== verification/Lifecycle.thy ===== *)
theory Lifecycle
  imports File Dir Thread
begin

text \<open>
  The life of a process in \<^verbatim>\<open>kernel/proc.c\<close>: \<^verbatim>\<open>userinit\<close>, \<^verbatim>\<open>fork\<close>, \<^verbatim>\<open>exit\<close> and \<^verbatim>\<open>kthread_exit\<close>. They touch
  the process table, the file table and the file system, and are therefore over the state with all of
  them. \<^verbatim>\<open>exit\<close> and \<^verbatim>\<open>kthread_exit\<close> end with the switch to the scheduler and never come back from it.
\<close>

text \<open>Storing a string into \<^verbatim>\<open>p->name\<close>; bytes after what \<^verbatim>\<open>safestrcpy\<close> writes stay.\<close>

definition set_name :: "nat \<Rightarrow> uchar list \<Rightarrow> 'a kernel_scheme \<Rightarrow> 'a kernel_scheme" where
  "set_name p nm s = upd_proc p (\<lambda>pr. pr\<lparr>p_name := nm @ drop (length nm) (p_name pr)\<rparr>) s"

definition initcode :: "uchar list" where
  "initcode =
    [0x17, 0x05, 0x00, 0x00, 0x13, 0x05, 0x45, 0x02,
     0x97, 0x05, 0x00, 0x00, 0x93, 0x85, 0x35, 0x02,
     0x93, 0x08, 0x70, 0x00, 0x73, 0x00, 0x00, 0x00,
     0x93, 0x08, 0x20, 0x00, 0x73, 0x00, 0x00, 0x00,
     0xef, 0xf0, 0x9f, 0xff, 0x2f, 0x69, 0x6e, 0x69,
     0x74, 0x00, 0x00, 0x24, 0x00, 0x00, 0x00, 0x00,
     0x00, 0x00, 0x00, 0x00]"

definition userinit :: "'a fsys_scheme \<Rightarrow> 'a fsys_scheme result" where
  "userinit s =
     bindR (allocproc s) (\<lambda>(t, s). case t of
       None \<Rightarrow> Undef ''null thread''
     | Some (p, i) \<Rightarrow>
         bindR (uvminit (p_pagetable (procs s p)) initcode (s\<lparr>initproc := Some p\<rparr>)) (\<lambda>s.
         let s = upd_proc p (\<lambda>pr. pr\<lparr>p_sz := PGSIZE\<rparr>) s
         in bindR (tf_set (t_trapframe (thr p i s)) TF_epc 0 s) (\<lambda>s.
            bindR (tf_set (t_trapframe (thr p i s)) TF_sp PGSIZE s) (\<lambda>s.
            bindR (safestrcpy (bytes ''initcode'' @ [0]) 16) (\<lambda>nm.
            bindR (namei [slash] (set_name p nm s)) (\<lambda>(cw, s).
            let s = upd_proc p (\<lambda>pr. pr\<lparr>cwd := cw, p_state := RUNNABLE, frozen := 0, signal_mask := 0\<rparr>) s
            in release_p p (upd_thread p i (\<lambda>t. t\<lparr>t_state := RUNNABLE\<rparr>) s)))))))"

text \<open>The loop of \<^verbatim>\<open>fork\<close> over the descriptors of the parent.\<close>

definition dup_files :: "nat \<Rightarrow> nat \<Rightarrow> 'a files_scheme \<Rightarrow> 'a files_scheme result" where
  "dup_files p np = foldR (\<lambda>i s.
     case ofile (procs s p) i of
       None \<Rightarrow> Ok s
     | Some f \<Rightarrow> bindR (filedup f s) (\<lambda>s. Ok (upd_proc np (\<lambda>pr. pr\<lparr>ofile := (ofile pr)(i := Some f)\<rparr>) s)))
     [0..<NOFILE]"

definition fork :: "'a files_scheme \<Rightarrow> (int \<times> 'a files_scheme) result" where
  "fork = with_proc (\<lambda>p. with_thread (\<lambda>q i s.
     bindR (allocproc s) (\<lambda>(r, s). case r of
       None \<Rightarrow> Ok (-1, s)
     | Some (np, nt) \<Rightarrow>
         bindR (uvmcopy (p_pagetable (procs s p)) (p_pagetable (procs s np)) (p_sz (procs s p)) s) (\<lambda>(c, s).
           if c < 0
           then bindR (freeproc np s) (\<lambda>s. bindR (release_p np s) (\<lambda>s. Ok (-1, s)))
           else
             let s = upd_proc np (\<lambda>pr. pr\<lparr>p_sz := p_sz (procs s p)\<rparr>) s
             in bindR (tf_copy (t_trapframe (thr np nt s)) (t_trapframe (thr q i s)) s) (\<lambda>s.
                bindR (tf_set (t_trapframe (thr np nt s)) (TF_a 0) 0 s) (\<lambda>s.
                bindR (dup_files p np s) (\<lambda>s.
                bindR (case cwd (procs s p) of
                         None \<Rightarrow> Undef ''no cwd''
                       | Some ip \<Rightarrow> Ok (upd_proc np (\<lambda>pr. pr\<lparr>cwd := Some ip\<rparr>) (idup ip s))) (\<lambda>s.
                bindR (safestrcpy (p_name (procs s p)) 16) (\<lambda>nm.
                let s = set_name np nm s;
                    pid = p_pid (procs s np);
                    s = upd_proc np (\<lambda>pr. pr\<lparr>signal_mask := signal_mask (procs s p),
                          signal_handlers := (\<lambda>i. if i < 32 then signal_handlers (procs s p) i else signal_handlers pr i),
                          signal_handlers_mask := (\<lambda>i. if i < 32 then signal_handlers_mask (procs s p) i else signal_handlers_mask pr i),
                          frozen := 0, signal_handling_flag := 0\<rparr>) s
                in bindR (release_p np s) (\<lambda>s.
                   bindR (acquire_wait s) (\<lambda>s.
                   bindR (release_wait (upd_proc np (\<lambda>pr. pr\<lparr>p_parent := Some p\<rparr>) s)) (\<lambda>s.
                   bindR (acquire_p np s) (\<lambda>s.
                   bindR (release_p np (upd_thread np nt (\<lambda>t. t\<lparr>t_state := RUNNABLE\<rparr>)
                            (upd_proc np (\<lambda>pr. pr\<lparr>p_state := RUNNABLE\<rparr>) s))) (\<lambda>s.
                     Ok (pid, s)))))))))))))))"

text \<open>The loop of \<^verbatim>\<open>exit\<close> over the descriptors of the process.\<close>

definition close_files :: "nat \<Rightarrow> 'a files_scheme \<Rightarrow> 'a files_scheme result" where
  "close_files p = foldR (\<lambda>fd s.
     case ofile (procs s p) fd of
       None \<Rightarrow> Ok s
     | Some f \<Rightarrow> bindR (fileclose f s) (\<lambda>s. Ok (upd_proc p (\<lambda>pr. pr\<lparr>ofile := (ofile pr)(fd := None)\<rparr>) s)))
     [0..<NOFILE]"

text \<open>The threads of a process that \<^verbatim>\<open>exit\<close> turns into zombies.\<close>

definition zombie_thread :: "int \<Rightarrow> thread \<Rightarrow> thread" where
  "zombie_thread status t =
     (if t_state t \<noteq> UNUSED \<and> t_state t \<noteq> ZOMBIE then t\<lparr>t_state := ZOMBIE, t_xstate := status\<rparr> else t)"

text \<open>
  The last part of \<^verbatim>\<open>exit\<close>, after the descriptors and the current directory have been given up. A
  process without a parent wakes nobody: no thread sleeps on the null channel.
\<close>

definition exit_finish :: "nat \<Rightarrow> int \<Rightarrow> 'a kernel_scheme \<Rightarrow> (bool \<times> 'a kernel_scheme) result" where
  "exit_finish p status s =
     bindR (acquire_wait s) (\<lambda>s.
     bindR (reparent p s) (\<lambda>s.
     bindR (case p_parent (procs s p) of None \<Rightarrow> Ok s | Some q \<Rightarrow> wakeup (ProcChan q) s) (\<lambda>s.
     bindR (acquire_p p s) (\<lambda>s.
     let s = upd_proc p (\<lambda>pr. pr\<lparr>
           threads := (\<lambda>i. if i < NTHREAD then zombie_thread status (threads pr i) else threads pr i),
           p_xstate := status, p_state := ZOMBIE\<rparr>) s
     in bindR (release_wait s) sched_out))))"

definition exit :: "int \<Rightarrow> 'a files_scheme \<Rightarrow> (bool \<times> 'a files_scheme) result" where
  "exit status = with_proc (\<lambda>p s.
     if Some p = initproc s then Panic ''init exiting''
     else bindR (close_files p s) (\<lambda>s.
          bindR (begin_op s) (\<lambda>s.
          bindR (case cwd (procs s p) of None \<Rightarrow> Undef ''no cwd'' | Some ip \<Rightarrow> iput ip s) (\<lambda>s.
          bindR (end_op s) (\<lambda>s.
            exit_finish p status (upd_proc p (\<lambda>pr. pr\<lparr>cwd := None\<rparr>) s))))))"

definition live_threads :: "nat \<Rightarrow> 'a kernel_scheme \<Rightarrow> nat list" where
  "live_threads p s = filter (\<lambda>i. t_state (thr p i s) \<noteq> UNUSED \<and> t_state (thr p i s) \<noteq> ZOMBIE) [0..<NTHREAD]"

definition kthread_exit :: "int \<Rightarrow> 'a files_scheme \<Rightarrow> (bool \<times> 'a files_scheme) result" where
  "kthread_exit status = with_thread (\<lambda>q i s.
     case tproc (thr q i s) of
       None \<Rightarrow> Undef ''no process''
     | Some p \<Rightarrow>
         bindR (acquire_p p s) (\<lambda>s.
         let s = upd_thread q i (\<lambda>t. t\<lparr>t_state := ZOMBIE, t_xstate := status\<rparr>) s
         in if live_threads p s = []
            then bindR (release_p p s) (exit status)
            else bindR (release_p p s) (\<lambda>s.
                 bindR (acquire_wait s) (\<lambda>s.
                 bindR (wakeup (ThreadChan q i) s) (\<lambda>s.
                 bindR (release_wait s) (\<lambda>s.
                 bindR (acquire_p p s) sched_out))))))"

end
