(* ===== verification/Exec.thy ===== *)
theory Exec
  imports Lifecycle
begin

text \<open>
  \<^verbatim>\<open>kernel/exec.c\<close>: replacing the image of a process by a program from the file system. \<^verbatim>\<open>exec\<close> first marks
  the other threads of the process killed and spins until none of them is live; the model returns \<open>Hang\<close>
  while it would spin. An argument string is the list of its bytes before the NUL.
\<close>

subsection \<open>ELF headers (kernel/elf.h)\<close>

definition ELF_MAGIC :: uint where "ELF_MAGIC = 0x464C457F"
definition ELF_PROG_LOAD :: uint where "ELF_PROG_LOAD = 1"

record elfhdr =
  e_magic :: uint
  e_elf :: "uchar list"
  e_type :: ushort
  e_machine :: ushort
  e_version :: uint
  e_entry :: uint64
  e_phoff :: uint64
  e_shoff :: uint64
  e_flags :: uint
  e_ehsize :: ushort
  e_phentsize :: ushort
  e_phnum :: ushort
  e_shentsize :: ushort
  e_shnum :: ushort
  e_shstrndx :: ushort

record proghdr =
  ph_type :: uint
  ph_flags :: uint
  ph_off :: uint64
  ph_vaddr :: uint64
  ph_paddr :: uint64
  ph_filesz :: uint64
  ph_memsz :: uint64
  ph_align :: uint64

definition field :: "nat \<Rightarrow> nat \<Rightarrow> uchar list \<Rightarrow> 'a::len word" where
  "field off n bs = le_word (take n (drop off bs))"

definition bytes_elfhdr :: "uchar list \<Rightarrow> elfhdr" where
  "bytes_elfhdr bs = \<lparr>e_magic = field 0 4 bs, e_elf = take 12 (drop 4 bs), e_type = field 16 2 bs, e_machine = field 18 2 bs,
     e_version = field 20 4 bs, e_entry = field 24 8 bs, e_phoff = field 32 8 bs, e_shoff = field 40 8 bs,
     e_flags = field 48 4 bs, e_ehsize = field 52 2 bs, e_phentsize = field 54 2 bs, e_phnum = field 56 2 bs,
     e_shentsize = field 58 2 bs, e_shnum = field 60 2 bs, e_shstrndx = field 62 2 bs\<rparr>"

definition bytes_proghdr :: "uchar list \<Rightarrow> proghdr" where
  "bytes_proghdr bs = \<lparr>ph_type = field 0 4 bs, ph_flags = field 4 4 bs, ph_off = field 8 8 bs, ph_vaddr = field 16 8 bs,
     ph_paddr = field 24 8 bs, ph_filesz = field 32 8 bs, ph_memsz = field 40 8 bs, ph_align = field 48 8 bs\<rparr>"

definition ELFHDR_SIZE :: nat where "ELFHDR_SIZE = 64"
definition PROGHDR_SIZE :: nat where "PROGHDR_SIZE = 56"

subsection \<open>Loading\<close>

fun loadseg_loop :: "uint64 \<Rightarrow> uint64 \<Rightarrow> nat \<Rightarrow> uint \<Rightarrow> uint \<Rightarrow> nat list \<Rightarrow> 'a fsys_scheme \<Rightarrow> (int \<times> 'a fsys_scheme) result" where
  "loadseg_loop pagetable va ip offset sz [] s = Ok (0, s)"
| "loadseg_loop pagetable va ip offset sz (i # is) s =
     bindR (walkaddr pagetable (va + of_nat i) s) (\<lambda>pa.
       if pa = 0 then Panic ''loadseg: address should exist''
       else let n = (if unat sz - i < 4096 then unat sz - i else 4096)
            in bindR (readi ip (At False pa) (offset + of_nat i) (of_nat n) s) (\<lambda>(r, _, s).
                 if r \<noteq> int n then Ok (-1, s) else loadseg_loop pagetable va ip offset sz is s))"

definition loadseg :: "uint64 \<Rightarrow> uint64 \<Rightarrow> nat \<Rightarrow> uint \<Rightarrow> uint \<Rightarrow> 'a fsys_scheme \<Rightarrow> (int \<times> 'a fsys_scheme) result" where
  "loadseg pagetable va ip offset sz s =
     (if va mod PGSIZE \<noteq> 0 then Panic ''loadseg: va must be page aligned''
      else loadseg_loop pagetable va ip offset sz (map (\<lambda>k. 4096 * k) [0..<(unat sz + 4095) div 4096]) s)"

text \<open>The loop over \<open>n\<close> program headers from offset \<open>off\<close>; it returns whether all went well and the size reached.\<close>

fun load_segments :: "uint64 \<Rightarrow> nat \<Rightarrow> nat \<Rightarrow> uint \<Rightarrow> uint64 \<Rightarrow> 'a fsys_scheme \<Rightarrow> (bool \<times> uint64 \<times> 'a fsys_scheme) result" where
  "load_segments pagetable ip 0 off sz s = Ok (True, sz, s)"
| "load_segments pagetable ip (Suc n) off sz s =
     bindR (readi ip (Local []) off (of_nat PROGHDR_SIZE) s) (\<lambda>(r, pl, s).
       if r \<noteq> int PROGHDR_SIZE then Ok (False, sz, s)
       else let ph = bytes_proghdr (local_bytes pl);
                off' = off + of_nat PROGHDR_SIZE
            in if ph_type ph \<noteq> ELF_PROG_LOAD then load_segments pagetable ip n off' sz s
               else if ph_memsz ph < ph_filesz ph then Ok (False, sz, s)
               else if ph_vaddr ph + ph_memsz ph < ph_vaddr ph then Ok (False, sz, s)
               else bindR (uvmalloc pagetable sz (ph_vaddr ph + ph_memsz ph) s) (\<lambda>(sz1, s).
                 if sz1 = 0 then Ok (False, sz, s)
                 else if ph_vaddr ph mod PGSIZE \<noteq> 0 then Ok (False, sz1, s)
                 else bindR (loadseg pagetable (ph_vaddr ph) ip (ucast (ph_off ph)) (ucast (ph_filesz ph)) s) (\<lambda>(r, s).
                   if r < 0 then Ok (False, sz1, s)
                   else load_segments pagetable ip n off' sz1 s)))"

subsection \<open>Arguments\<close>

text \<open>Pushing the argument strings; \<open>us\<close> is \<^verbatim>\<open>ustack\<close> so far. \<open>None\<close>: the stack or the argument count ran out.\<close>

fun push_args :: "uint64 \<Rightarrow> uint64 \<Rightarrow> uchar list list \<Rightarrow> uint64 \<Rightarrow> uint64 list \<Rightarrow> 'a kmem_scheme
    \<Rightarrow> ((uint64 \<times> uint64 list) option \<times> 'a kmem_scheme) result" where
  "push_args pagetable stackbase [] sp us s = Ok (Some (sp, us), s)"
| "push_args pagetable stackbase (arg # argv) sp us s =
     (if length us \<ge> MAXARG then Ok (None, s)
      else let sp = sp - of_nat (length arg + 1); sp = sp - sp mod 16
           in if sp < stackbase then Ok (None, s)
              else bindR (copyout pagetable sp (arg @ [0]) s) (\<lambda>(r, s).
                if r < 0 then Ok (None, s) else push_args pagetable stackbase argv sp (us @ [sp]) s))"

definition push_argv :: "uint64 \<Rightarrow> uint64 \<Rightarrow> uchar list list \<Rightarrow> uint64 \<Rightarrow> 'a kmem_scheme
    \<Rightarrow> ((uint64 \<times> nat) option \<times> 'a kmem_scheme) result" where
  "push_argv pagetable stackbase argv sp s =
     bindR (push_args pagetable stackbase argv sp [] s) (\<lambda>(r, s). case r of
       None \<Rightarrow> Ok (None, s)
     | Some (sp, us) \<Rightarrow>
         let argc = length us; sp = sp - of_nat ((argc + 1) * 8); sp = sp - sp mod 16
         in if sp < stackbase then Ok (None, s)
            else bindR (copyout pagetable sp (concat (map (le_bytes 8) (us @ [0]))) s) (\<lambda>(r, s).
              Ok (if r < 0 then None else Some (sp, argc), s)))"

text \<open>The part of a path after its last slash.\<close>

fun base_name :: "uchar list \<Rightarrow> uchar list \<Rightarrow> uchar list" where
  "base_name lst [] = lst"
| "base_name lst (c # cs) = (if c = slash then base_name cs cs else base_name lst cs)"

subsection \<open>exec\<close>

definition kill_others :: "nat \<Rightarrow> nat \<Rightarrow> 'a kernel_scheme \<Rightarrow> 'a kernel_scheme result" where
  "kill_others p i = foldR (\<lambda>j s.
     if t_state (thr p j s) \<noteq> UNUSED \<and> j \<noteq> i
     then Ok (upd_thread p j (\<lambda>t. t\<lparr>t_killed := 1, t_state := (if t_state t = SLEEPING then RUNNABLE else t_state t)\<rparr>) s)
     else Ok s) [0..<NTHREAD]"

text \<open>
  The test of the handlers compares the address of the array element, which is never \<^verbatim>\<open>SIG_DFL\<close> or
  \<^verbatim>\<open>SIG_IGN\<close>, so that every handler is reset.
\<close>

definition exec_commit :: "nat \<Rightarrow> nat \<Rightarrow> uint64 \<Rightarrow> uint64 \<Rightarrow> uint64 \<Rightarrow> uint64 \<Rightarrow> 'a kernel_scheme \<Rightarrow> 'a kernel_scheme result" where
  "exec_commit p i pagetable sz entry sp s =
     (let s = upd_proc p (\<lambda>pr. pr\<lparr>p_pagetable := pagetable, p_sz := sz,
            signal_handlers := (\<lambda>i. if i < 32 then SIG_DFL else signal_handlers pr i),
            signal_handlers_mask := (\<lambda>i. if i < 32 then 0 else signal_handlers_mask pr i)\<rparr>) s
      in bindR (tf_set (t_trapframe (thr p i s)) TF_epc entry s) (\<lambda>s.
           tf_set (t_trapframe (thr p i s)) TF_sp sp s))"

definition exec_fail :: "uint64 \<Rightarrow> uint64 \<Rightarrow> nat option \<Rightarrow> 'a fsys_scheme \<Rightarrow> (int \<times> 'a fsys_scheme) result" where
  "exec_fail pagetable sz ip s =
     bindR (if pagetable \<noteq> 0 then proc_freepagetable pagetable sz s else Ok s) (\<lambda>s.
     bindR (case ip of None \<Rightarrow> Ok s | Some ip \<Rightarrow> bindR (iunlockput ip s) end_op) (\<lambda>s.
       Ok (-1, s)))"

text \<open>From the second allocation on: the stack, the arguments and the new image.\<close>

definition exec_stack :: "uchar list \<Rightarrow> uchar list list \<Rightarrow> uint64 \<Rightarrow> uint64 \<Rightarrow> uint64 \<Rightarrow> 'a fsys_scheme \<Rightarrow> (int \<times> 'a fsys_scheme) result" where
  "exec_stack path argv pagetable sz entry = with_thread (\<lambda>q i s.
     case tproc (thr q i s) of
       None \<Rightarrow> Undef ''no process''
     | Some p \<Rightarrow>
         let oldsz = p_sz (procs s p); sz = PGROUNDUP sz
         in bindR (uvmalloc pagetable sz (sz + 2 * PGSIZE) s) (\<lambda>(sz1, s).
              if sz1 = 0 then exec_fail pagetable sz None s
              else let sz = sz1 in
                bindR (uvmclear pagetable (sz - 2 * PGSIZE) s) (\<lambda>s.
                bindR (push_argv pagetable (sz - PGSIZE) argv sz s) (\<lambda>(r, s). case r of
                  None \<Rightarrow> exec_fail pagetable sz None s
                | Some (sp, argc) \<Rightarrow>
                    bindR (tf_set (t_trapframe (thr q i s)) (TF_a 1) sp s) (\<lambda>s.
                    bindR (safestrcpy (base_name path path @ [0]) 16) (\<lambda>nm.
                    let s = set_name p nm s; oldpagetable = p_pagetable (procs s p)
                    in bindR (exec_commit p i pagetable sz entry sp s) (\<lambda>s.
                       bindR (proc_freepagetable oldpagetable oldsz s) (\<lambda>s.
                         Ok (int argc, s)))))))))"

definition exec :: "uchar list \<Rightarrow> uchar list list \<Rightarrow> 'a fsys_scheme \<Rightarrow> (int \<times> 'a fsys_scheme) result" where
  "exec path argv = with_thread (\<lambda>q i s.
     case tproc (thr q i s) of
       None \<Rightarrow> Undef ''no process''
     | Some p \<Rightarrow>
         bindR (acquire_p p s) (\<lambda>s.
         bindR (kill_others p i s) (\<lambda>s.
         bindR (release_p p s) (\<lambda>s.
         if filter (\<lambda>j. j \<noteq> i) (live_threads p s) \<noteq> [] then Hang
         else bindR (begin_op s) (\<lambda>s.
              bindR (namei path s) (\<lambda>(r, s). case r of
                None \<Rightarrow> bindR (end_op s) (\<lambda>s. Ok (-1, s))
              | Some ip \<Rightarrow>
                  bindR (ilock ip s) (\<lambda>s.
                  bindR (readi ip (Local []) 0 (of_nat ELFHDR_SIZE) s) (\<lambda>(r, pl, s).
                  let elf = bytes_elfhdr (local_bytes pl)
                  in if r \<noteq> int ELFHDR_SIZE \<or> e_magic elf \<noteq> ELF_MAGIC then exec_fail 0 0 (Some ip) s
                     else bindR (proc_pagetable (p_trapframe (procs s p)) s) (\<lambda>(pagetable, s).
                       if pagetable = 0 then exec_fail 0 0 (Some ip) s
                       else bindR (load_segments pagetable ip (unat (e_phnum elf)) (ucast (e_phoff elf)) 0 s) (\<lambda>(ok, sz, s).
                         if \<not> ok then exec_fail pagetable sz (Some ip) s
                         else bindR (iunlockput ip s) (\<lambda>s.
                              bindR (end_op s) (exec_stack path argv pagetable sz (e_entry elf)))))))))))))"

end
