(* ===== verification/Syscall.thy ===== *)
theory Syscall
  imports Exec Semaphore
begin

text \<open>
  Arguments of system calls (\<^verbatim>\<open>kernel/syscall.c\<close>) and the system calls on processes, signals, threads and
  semaphores (\<^verbatim>\<open>kernel/sysproc.c\<close>). The registers of the caller are in the trapframe of its thread.

  A system call returns a value, or it sleeps: \<open>Blocked ch k\<close> in the loop of a transfer or of \<^verbatim>\<open>sleep\<close>
  with the progress \<open>k\<close>, or \<open>Away ena\<close> after the switch to the scheduler.
\<close>

record ksys = files +
  ticks :: uint

datatype sysres = Value uint64 | Blocked chan nat | Away bool

abbreviation FAIL :: sysres where "FAIL \<equiv> Value (-1)"

definition of_int_res :: "int \<Rightarrow> sysres" where
  "of_int_res r = Value (word_of_int r)"

primrec of_outcome :: "int outcome \<Rightarrow> sysres" where
  "of_outcome (Done r) = of_int_res r"
| "of_outcome (Switched ena) = Away ena"

primrec of_wait :: "int progress \<Rightarrow> sysres" where
  "of_wait (Return r) = of_int_res r"
| "of_wait (Block ch k) = Blocked ch k"

subsection \<open>Arguments\<close>

definition fetchaddr :: "uint64 \<Rightarrow> 'a kernel_scheme \<Rightarrow> uint64 option result" where
  "fetchaddr addr = with_proc (\<lambda>p s.
     if addr \<ge> p_sz (procs s p) \<or> addr + 8 > p_sz (procs s p) then Ok None
     else bindR (copyin (p_pagetable (procs s p)) addr 8 s) (\<lambda>(r, bs).
       Ok (if r \<noteq> 0 then None else Some (le_word bs))))"

text \<open>
  \<open>None\<close> is the error; otherwise the bytes that \<^verbatim>\<open>copyinstr\<close> stored, whose length up to the NUL the code
  returns.
\<close>

definition fetchstr :: "uint64 \<Rightarrow> nat \<Rightarrow> 'a kernel_scheme \<Rightarrow> (int \<times> uchar list) result" where
  "fetchstr addr mx = with_proc (\<lambda>p s.
     bindR (copyinstr (p_pagetable (procs s p)) addr mx s) (\<lambda>(err, buf).
       if err < 0 then Ok (err, buf)
       else bindR (strlen buf) (\<lambda>n. Ok (int n, buf))))"

definition argraw :: "int \<Rightarrow> 'a kernel_scheme \<Rightarrow> uint64 result" where
  "argraw n = with_thread (\<lambda>q i s.
     if 0 \<le> n \<and> n \<le> 5 then tf_get (t_trapframe (thr q i s)) (TF_a (nat n)) s
     else Panic ''argraw'')"

definition argint :: "int \<Rightarrow> 'a kernel_scheme \<Rightarrow> int result" where
  "argint n s = bindR (argraw n s) (\<lambda>v. Ok (sint (ucast v :: uint)))"

definition argaddr :: "int \<Rightarrow> 'a kernel_scheme \<Rightarrow> uint64 result" where
  "argaddr n s = argraw n s"

definition argstr :: "int \<Rightarrow> nat \<Rightarrow> 'a kernel_scheme \<Rightarrow> (int \<times> uchar list) result" where
  "argstr n mx s = bindR (argaddr n s) (\<lambda>addr. fetchstr addr mx s)"

text \<open>A path argument as the file system code takes it: the bytes before the NUL, \<open>None\<close> for an error.\<close>

definition argpath :: "int \<Rightarrow> 'a kernel_scheme \<Rightarrow> uchar list option result" where
  "argpath n s = bindR (argstr n MAXPATH s) (\<lambda>(r, buf). Ok (if r < 0 then None else Some (take (nat r) buf)))"

subsection \<open>Processes\<close>

definition sys_exit :: "'a files_scheme \<Rightarrow> (sysres \<times> 'a files_scheme) result" where
  "sys_exit s = bindR (argint 0 s) (\<lambda>n. bindR (exit n s) (\<lambda>(ena, s). Ok (Away ena, s)))"

definition sys_getpid :: "'a kernel_scheme \<Rightarrow> (sysres \<times> 'a kernel_scheme) result" where
  "sys_getpid = with_proc (\<lambda>p s. Ok (of_int_res (p_pid (procs s p)), s))"

definition sys_fork :: "'a files_scheme \<Rightarrow> (sysres \<times> 'a files_scheme) result" where
  "sys_fork s = bindR (fork s) (\<lambda>(r, s). Ok (of_int_res r, s))"

definition sys_wait :: "'a kernel_scheme \<Rightarrow> (sysres \<times> 'a kernel_scheme) result" where
  "sys_wait s = bindR (argaddr 0 s) (\<lambda>p. bindR (wait p s) (\<lambda>(r, s). Ok (of_outcome r, s)))"

definition sys_sbrk :: "'a kernel_scheme \<Rightarrow> (sysres \<times> 'a kernel_scheme) result" where
  "sys_sbrk s =
     bindR (argint 0 s) (\<lambda>n.
     with_proc (\<lambda>p s.
       let addr = ucast (p_sz (procs s p)) :: uint
       in bindR (growproc n s) (\<lambda>(r, s). Ok (if r < 0 then FAIL else Value (scast addr), s))) s)"

text \<open>
  One round of the loop of \<^verbatim>\<open>sys_sleep\<close>. The comparison is unsigned: \<open>n\<close> is converted to \<^verbatim>\<open>uint\<close>.
\<close>

definition sleep_round :: "int \<Rightarrow> uint \<Rightarrow> 'a ksys_scheme \<Rightarrow> (sysres \<times> 'a ksys_scheme) result" where
  "sleep_round n ticks0 s =
     (if ticks s - ticks0 < word_of_int n
      then with_proc (\<lambda>p s. Ok (if p_killed (procs s p) \<noteq> 0 then FAIL else Blocked TicksChan (unat ticks0), s)) s
      else Ok (Value 0, s))"

definition sys_sleep :: "'a ksys_scheme \<Rightarrow> (sysres \<times> 'a ksys_scheme) result" where
  "sys_sleep s = bindR (argint 0 s) (\<lambda>n. sleep_round n (ticks s) s)"

definition sys_kill :: "'a kernel_scheme \<Rightarrow> (sysres \<times> 'a kernel_scheme) result" where
  "sys_kill s =
     bindR (argint 0 s) (\<lambda>pid. bindR (argint 1 s) (\<lambda>signum.
     bindR (kill pid signum s) (\<lambda>(r, s). Ok (of_int_res r, s))))"

definition sys_uptime :: "'a ksys_scheme \<Rightarrow> (sysres \<times> 'a ksys_scheme) result" where
  "sys_uptime s = Ok (Value (ucast (ticks s)), s)"

subsection \<open>Signals\<close>

definition sys_sigprocmask :: "'a kernel_scheme \<Rightarrow> (sysres \<times> 'a kernel_scheme) result" where
  "sys_sigprocmask s =
     bindR (argint 0 s) (\<lambda>newmask. bindR (sigprocmask (word_of_int newmask) s) (\<lambda>(r, s). Ok (Value (ucast r), s)))"

definition sys_sigaction :: "uchar list \<Rightarrow> 'a kernel_scheme \<Rightarrow> (sysres \<times> 'a kernel_scheme) result" where
  "sys_sigaction stack s =
     bindR (argint 0 s) (\<lambda>signum. bindR (argaddr 1 s) (\<lambda>act. bindR (argaddr 2 s) (\<lambda>oldact.
     bindR (sigaction stack signum act oldact s) (\<lambda>(r, s). Ok (of_int_res r, s)))))"

definition sys_sigret :: "'a kernel_scheme \<Rightarrow> (sysres \<times> 'a kernel_scheme) result" where
  "sys_sigret s = bindR (sigret s) (\<lambda>s. Ok (Value 0, s))"

subsection \<open>Threads and semaphores\<close>

definition sys_kthread_create :: "'a kernel_scheme \<Rightarrow> (sysres \<times> 'a kernel_scheme) result" where
  "sys_kthread_create s =
     bindR (argaddr 0 s) (\<lambda>start_func. bindR (argaddr 1 s) (\<lambda>stack.
     bindR (kthread_create start_func stack s) (\<lambda>(r, s). Ok (of_int_res r, s))))"

definition sys_kthread_id :: "'a kernel_scheme \<Rightarrow> (sysres \<times> 'a kernel_scheme) result" where
  "sys_kthread_id s = bindR (kthread_id s) (\<lambda>(r, s). Ok (of_int_res r, s))"

definition sys_kthread_exit :: "'a files_scheme \<Rightarrow> (sysres \<times> 'a files_scheme) result" where
  "sys_kthread_exit s = bindR (argint 0 s) (\<lambda>status. bindR (kthread_exit status s) (\<lambda>(ena, s). Ok (Away ena, s)))"

definition sys_kthread_join :: "'a kernel_scheme \<Rightarrow> (sysres \<times> 'a kernel_scheme) result" where
  "sys_kthread_join s =
     bindR (argint 0 s) (\<lambda>tid. bindR (argaddr 1 s) (\<lambda>status.
     bindR (kthread_join tid status s) (\<lambda>(r, s). Ok (of_outcome r, s))))"

definition sys_bsem_alloc :: "'a kernel_scheme \<Rightarrow> (sysres \<times> 'a kernel_scheme) result" where
  "sys_bsem_alloc s = bindR (bsem_alloc s) (\<lambda>(r, s). Ok (of_int_res r, s))"

definition sys_bsem_free :: "'a kernel_scheme \<Rightarrow> (sysres \<times> 'a kernel_scheme) result" where
  "sys_bsem_free s = bindR (argint 0 s) (\<lambda>b. bindR (bsem_free b s) (\<lambda>s. Ok (Value 0, s)))"

definition sys_bsem_down :: "'a kernel_scheme \<Rightarrow> (sysres \<times> 'a kernel_scheme) result" where
  "sys_bsem_down s =
     bindR (argint 0 s) (\<lambda>b. bindR (bsem_down b s) (\<lambda>(r, s).
       Ok (case r of Done _ \<Rightarrow> Value 0 | Switched ena \<Rightarrow> Away ena, s)))"

definition sys_bsem_up :: "'a kernel_scheme \<Rightarrow> (sysres \<times> 'a kernel_scheme) result" where
  "sys_bsem_up s = bindR (argint 0 s) (\<lambda>b. bindR (bsem_up b s) (\<lambda>s. Ok (Value 0, s)))"

end
