(* ===== verification/Sysfile.thy ===== *)
theory Sysfile
  imports Syscall
begin

text \<open>
  The system calls on files (\<^verbatim>\<open>kernel/sysfile.c\<close>). \<^verbatim>\<open>begin_op\<close>, \<^verbatim>\<open>ilock\<close> and the buffer cache may put the
  caller to sleep; the result is then \<open>Sleep\<close>, and the model follows the call no further.
\<close>

subsection \<open>Descriptors\<close>

definition argfd :: "int \<Rightarrow> 'a kernel_scheme \<Rightarrow> (nat \<times> nat) option result" where
  "argfd n s = bindR (argint n s) (\<lambda>fd.
     if fd < 0 \<or> fd \<ge> int NOFILE then Ok None
     else with_proc (\<lambda>p s. Ok (map_option (\<lambda>f. (nat fd, f)) (ofile (procs s p) (nat fd)))) s)"

definition set_ofile :: "nat \<Rightarrow> nat \<Rightarrow> nat option \<Rightarrow> 'a kernel_scheme \<Rightarrow> 'a kernel_scheme" where
  "set_ofile p fd f s = upd_proc p (\<lambda>pr. pr\<lparr>ofile := (ofile pr)(fd := f)\<rparr>) s"

definition fdalloc :: "nat \<Rightarrow> 'a kernel_scheme \<Rightarrow> (nat option \<times> 'a kernel_scheme) result" where
  "fdalloc f = with_proc (\<lambda>p s.
     case scan NOFILE (\<lambda>fd. ofile (procs s p) fd = None) of
       None \<Rightarrow> Ok (None, s)
     | Some fd \<Rightarrow> Ok (Some fd, set_ofile p fd (Some f) s))"

definition sys_dup :: "'a files_scheme \<Rightarrow> (sysres \<times> 'a files_scheme) result" where
  "sys_dup s =
     bindR (argfd 0 s) (\<lambda>r. case r of None \<Rightarrow> Ok (FAIL, s) | Some (_, f) \<Rightarrow>
     bindR (fdalloc f s) (\<lambda>(fd, s). case fd of None \<Rightarrow> Ok (FAIL, s) | Some fd \<Rightarrow>
     bindR (filedup f s) (\<lambda>s. Ok (of_int_res (int fd), s))))"

definition sys_read :: "'a files_scheme \<Rightarrow> (sysres \<times> 'a files_scheme) result" where
  "sys_read s =
     bindR (argfd 0 s) (\<lambda>r. case r of None \<Rightarrow> Ok (FAIL, s) | Some (_, f) \<Rightarrow>
     bindR (argint 2 s) (\<lambda>n. bindR (argaddr 1 s) (\<lambda>p.
     bindR (fileread f p n s) (\<lambda>(r, s). Ok (of_wait r, s)))))"

definition sys_write :: "'a files_scheme \<Rightarrow> (sysres \<times> 'a files_scheme) result" where
  "sys_write s =
     bindR (argfd 0 s) (\<lambda>r. case r of None \<Rightarrow> Ok (FAIL, s) | Some (_, f) \<Rightarrow>
     bindR (argint 2 s) (\<lambda>n. bindR (argaddr 1 s) (\<lambda>p.
     bindR (filewrite f p n s) (\<lambda>(r, s). Ok (of_wait r, s)))))"

definition sys_close :: "'a files_scheme \<Rightarrow> (sysres \<times> 'a files_scheme) result" where
  "sys_close s =
     bindR (argfd 0 s) (\<lambda>r. case r of None \<Rightarrow> Ok (FAIL, s) | Some (fd, f) \<Rightarrow>
     with_proc (\<lambda>p s. bindR (fileclose f (set_ofile p fd None s)) (\<lambda>s. Ok (Value 0, s))) s)"

definition sys_fstat :: "uchar list \<Rightarrow> 'a files_scheme \<Rightarrow> (sysres \<times> 'a files_scheme) result" where
  "sys_fstat pad s =
     bindR (argfd 0 s) (\<lambda>r. case r of None \<Rightarrow> Ok (FAIL, s) | Some (_, f) \<Rightarrow>
     bindR (argaddr 1 s) (\<lambda>st. bindR (filestat pad f st s) (\<lambda>(r, s). Ok (of_int_res r, s))))"

subsection \<open>Links\<close>

definition end_fail :: "'a fslog_scheme \<Rightarrow> (sysres \<times> 'a fslog_scheme) result" where
  "end_fail s = bindR (end_op s) (\<lambda>s. Ok (FAIL, s))"

definition add_nlink :: "ushort \<Rightarrow> nat \<Rightarrow> 'a fsys_scheme \<Rightarrow> 'a fsys_scheme" where
  "add_nlink k ip s = upd_inode ip (\<lambda>x. x\<lparr>i_nlink := i_nlink x + k\<rparr>) s"

text \<open>The part of \<^verbatim>\<open>sys_link\<close> after the label \<^verbatim>\<open>bad\<close>.\<close>

definition link_bad :: "nat \<Rightarrow> 'a fsys_scheme \<Rightarrow> (sysres \<times> 'a fsys_scheme) result" where
  "link_bad ip s =
     bindR (ilock ip s) (\<lambda>s.
     bindR (iupdate ip (add_nlink (-1) ip s)) (\<lambda>s.
     bindR (iunlockput ip s) end_fail))"

definition sys_link :: "'a fsys_scheme \<Rightarrow> (sysres \<times> 'a fsys_scheme) result" where
  "sys_link s =
     bindR (argpath 0 s) (\<lambda>old. case old of None \<Rightarrow> Ok (FAIL, s) | Some old \<Rightarrow>
     bindR (argpath 1 s) (\<lambda>new. case new of None \<Rightarrow> Ok (FAIL, s) | Some new \<Rightarrow>
     bindR (begin_op s) (\<lambda>s.
     bindR (namei old s) (\<lambda>(r, s). case r of None \<Rightarrow> end_fail s | Some ip \<Rightarrow>
     bindR (ilock ip s) (\<lambda>s.
     if i_type (inodes s ip) = T_DIR then bindR (iunlockput ip s) end_fail
     else bindR (iupdate ip (add_nlink 1 ip s)) (\<lambda>s.
          bindR (iunlock ip s) (\<lambda>s.
          bindR (nameiparent new s) (\<lambda>(r, name, s). case r of None \<Rightarrow> link_bad ip s | Some dp \<Rightarrow>
          bindR (ilock dp s) (\<lambda>s.
          bindR (if i_dev (inodes s dp) \<noteq> i_dev (inodes s ip) then Ok (-1, s)
                 else dirlink dp name (i_inum (inodes s ip)) s) (\<lambda>(r, s).
          if r < 0 then bindR (iunlockput dp s) (link_bad ip)
          else bindR (iunlockput dp s) (\<lambda>s.
               bindR (iput ip s) (\<lambda>s.
               bindR (end_op s) (\<lambda>s. Ok (Value 0, s))))))))))))))"

fun isdirempty_loop :: "nat \<Rightarrow> nat list \<Rightarrow> 'a fsys_scheme \<Rightarrow> (bool \<times> 'a fsys_scheme) result" where
  "isdirempty_loop dp [] s = Ok (True, s)"
| "isdirempty_loop dp (off # offs) s =
     bindR (readi dp (Local []) (of_nat off) (of_nat DIRENT_SIZE) s) (\<lambda>(r, pl, s).
       if r \<noteq> int DIRENT_SIZE then Panic ''isdirempty: readi''
       else if de_inum (bytes_dirent (local_bytes pl)) \<noteq> 0 then Ok (False, s)
       else isdirempty_loop dp offs s)"

definition isdirempty :: "nat \<Rightarrow> 'a fsys_scheme \<Rightarrow> (bool \<times> 'a fsys_scheme) result" where
  "isdirempty dp s = isdirempty_loop dp (drop 2 (dir_offs (i_size (inodes s dp)))) s"

definition dot :: "uchar list" where "dot = bytes ''.'' @ [0]"
definition dotdot :: "uchar list" where "dotdot = bytes ''..'' @ [0]"

definition unlink_bad :: "nat \<Rightarrow> 'a fsys_scheme \<Rightarrow> (sysres \<times> 'a fsys_scheme) result" where
  "unlink_bad dp s = bindR (iunlockput dp s) end_fail"

definition sys_unlink :: "'a fsys_scheme \<Rightarrow> (sysres \<times> 'a fsys_scheme) result" where
  "sys_unlink s =
     bindR (argpath 0 s) (\<lambda>path. case path of None \<Rightarrow> Ok (FAIL, s) | Some path \<Rightarrow>
     bindR (begin_op s) (\<lambda>s.
     bindR (nameiparent path s) (\<lambda>(r, name, s). case r of None \<Rightarrow> end_fail s | Some dp \<Rightarrow>
     bindR (ilock dp s) (\<lambda>s.
     bindR (namecmp name dot) (\<lambda>c1. bindR (if c1 = 0 then Ok 0 else namecmp name dotdot) (\<lambda>c.
     if c = 0 then unlink_bad dp s
     else bindR (dirlookup dp name s) (\<lambda>(r, s). case r of None \<Rightarrow> unlink_bad dp s | Some (ip, off) \<Rightarrow>
     bindR (ilock ip s) (\<lambda>s.
     if sint (i_nlink (inodes s ip)) < 1 then Panic ''unlink: nlink < 1''
     else bindR (if i_type (inodes s ip) = T_DIR then isdirempty ip s else Ok (True, s)) (\<lambda>(empty, s).
       if \<not> empty then bindR (iunlockput ip s) (unlink_bad dp)
       else bindR (writei dp (Local (replicate DIRENT_SIZE 0)) (of_nat off) (of_nat DIRENT_SIZE) s) (\<lambda>(r, s).
         if r \<noteq> int DIRENT_SIZE then Panic ''unlink: writei''
         else bindR (if i_type (inodes s ip) = T_DIR then iupdate dp (add_nlink (-1) dp s) else Ok s) (\<lambda>s.
              bindR (iunlockput dp s) (\<lambda>s.
              bindR (iupdate ip (add_nlink (-1) ip s)) (\<lambda>s.
              bindR (iunlockput ip s) (\<lambda>s.
              bindR (end_op s) (\<lambda>s. Ok (Value 0, s))))))))))))))))"

subsection \<open>Creating and opening\<close>

definition create :: "uchar list \<Rightarrow> ushort \<Rightarrow> ushort \<Rightarrow> ushort \<Rightarrow> 'a fsys_scheme \<Rightarrow> (nat option \<times> 'a fsys_scheme) result" where
  "create path type major minor s =
     bindR (nameiparent path s) (\<lambda>(r, name, s). case r of None \<Rightarrow> Ok (None, s) | Some dp \<Rightarrow>
     bindR (ilock dp s) (\<lambda>s.
     bindR (dirlookup dp name s) (\<lambda>(r, s). case r of
       Some (ip, _) \<Rightarrow>
         bindR (iunlockput dp s) (\<lambda>s.
         bindR (ilock ip s) (\<lambda>s.
         if type = T_FILE \<and> (i_type (inodes s ip) = T_FILE \<or> i_type (inodes s ip) = T_DEVICE) then Ok (Some ip, s)
         else bindR (iunlockput ip s) (\<lambda>s. Ok (None, s))))
     | None \<Rightarrow>
         bindR (ialloc (i_dev (inodes s dp)) type s) (\<lambda>(ip, s).
         bindR (ilock ip s) (\<lambda>s.
         bindR (iupdate ip (upd_inode ip (\<lambda>x. x\<lparr>i_major := major, i_minor := minor, i_nlink := 1\<rparr>) s)) (\<lambda>s.
         bindR (if type = T_DIR
                then bindR (iupdate dp (add_nlink 1 dp s)) (\<lambda>s.
                     bindR (dirlink ip dot (i_inum (inodes s ip)) s) (\<lambda>(r, s).
                     bindR (if r < 0 then Ok (r, s) else dirlink ip dotdot (i_inum (inodes s dp)) s) (\<lambda>(r, s).
                       if r < 0 then Panic ''create dots'' else Ok s)))
                else Ok s) (\<lambda>s.
         bindR (dirlink dp name (i_inum (inodes s ip)) s) (\<lambda>(r, s).
         if r < 0 then Panic ''create: dirlink''
         else bindR (iunlockput dp s) (\<lambda>s. Ok (Some ip, s))))))))))"

definition O_RDONLY :: uint where "O_RDONLY = 0"
definition O_WRONLY :: uint where "O_WRONLY = 1"
definition O_RDWR :: uint where "O_RDWR = 2"
definition O_CREATE :: uint where "O_CREATE = 0x200"
definition O_TRUNC :: uint where "O_TRUNC = 0x400"

text \<open>The two ways in which \<^verbatim>\<open>sys_open\<close> gets at a locked inode.\<close>

definition open_inode :: "uchar list \<Rightarrow> uint \<Rightarrow> 'a fsys_scheme \<Rightarrow> (nat option \<times> 'a fsys_scheme) result" where
  "open_inode path omode s =
     (if omode AND O_CREATE \<noteq> 0 then create path T_FILE 0 0 s
      else bindR (namei path s) (\<lambda>(r, s). case r of None \<Rightarrow> Ok (None, s) | Some ip \<Rightarrow>
           bindR (ilock ip s) (\<lambda>s.
           if i_type (inodes s ip) = T_DIR \<and> omode \<noteq> O_RDONLY then bindR (iunlockput ip s) (\<lambda>s. Ok (None, s))
           else Ok (Some ip, s))))"

text \<open>The file structure and the descriptor; on failure of the second the first is given back.\<close>

definition open_file :: "'a files_scheme \<Rightarrow> ((nat \<times> nat) option \<times> 'a files_scheme) result" where
  "open_file s =
     (case filealloc s of
        (None, s) \<Rightarrow> Ok (None, s)
      | (Some f, s) \<Rightarrow> bindR (fdalloc f s) (\<lambda>(fd, s). case fd of
            None \<Rightarrow> bindR (fileclose f s) (\<lambda>s. Ok (None, s))
          | Some fd \<Rightarrow> Ok (Some (f, fd), s)))"

definition fill_file :: "nat \<Rightarrow> inode \<Rightarrow> uint \<Rightarrow> kfile \<Rightarrow> kfile" where
  "fill_file ip i omode x =
     (let x = (if i_type i = T_DEVICE then x\<lparr>f_type := FD_DEVICE, f_major := i_major i\<rparr>
               else x\<lparr>f_type := FD_INODE, f_off := 0\<rparr>)
      in x\<lparr>f_ip := ip, f_readable := (if omode AND O_WRONLY = 0 then 1 else 0),
           f_writable := (if omode AND O_WRONLY \<noteq> 0 \<or> omode AND O_RDWR \<noteq> 0 then 1 else 0)\<rparr>)"

definition sys_open :: "'a files_scheme \<Rightarrow> (sysres \<times> 'a files_scheme) result" where
  "sys_open s =
     bindR (argpath 0 s) (\<lambda>path. case path of None \<Rightarrow> Ok (FAIL, s) | Some path \<Rightarrow>
     bindR (argint 1 s) (\<lambda>mode. let omode = word_of_int mode in
     bindR (begin_op s) (\<lambda>s.
     bindR (open_inode path omode s) (\<lambda>(r, s). case r of None \<Rightarrow> end_fail s | Some ip \<Rightarrow>
       if i_type (inodes s ip) = T_DEVICE \<and> (sint (i_major (inodes s ip)) < 0 \<or> sint (i_major (inodes s ip)) \<ge> int NDEV)
       then bindR (iunlockput ip s) end_fail
       else bindR (open_file s) (\<lambda>(r, s). case r of
         None \<Rightarrow> bindR (iunlockput ip s) end_fail
       | Some (f, fd) \<Rightarrow>
           let s = upd_file f (fill_file ip (inodes s ip) omode) s
           in bindR (if omode AND O_TRUNC \<noteq> 0 \<and> i_type (inodes s ip) = T_FILE then itrunc ip s else Ok s) (\<lambda>s.
              bindR (iunlock ip s) (\<lambda>s.
              bindR (end_op s) (\<lambda>s. Ok (of_int_res (int fd), s)))))))))"

definition sys_mkdir :: "'a fsys_scheme \<Rightarrow> (sysres \<times> 'a fsys_scheme) result" where
  "sys_mkdir s =
     bindR (begin_op s) (\<lambda>s.
     bindR (argpath 0 s) (\<lambda>path. case path of None \<Rightarrow> end_fail s | Some path \<Rightarrow>
     bindR (create path T_DIR 0 0 s) (\<lambda>(r, s). case r of None \<Rightarrow> end_fail s | Some ip \<Rightarrow>
     bindR (iunlockput ip s) (\<lambda>s.
     bindR (end_op s) (\<lambda>s. Ok (Value 0, s))))))"

definition sys_mknod :: "'a fsys_scheme \<Rightarrow> (sysres \<times> 'a fsys_scheme) result" where
  "sys_mknod s =
     bindR (begin_op s) (\<lambda>s.
     bindR (argpath 0 s) (\<lambda>path. case path of None \<Rightarrow> end_fail s | Some path \<Rightarrow>
     bindR (argint 1 s) (\<lambda>major. bindR (argint 2 s) (\<lambda>minor.
     bindR (create path T_DEVICE (word_of_int major) (word_of_int minor) s) (\<lambda>(r, s). case r of None \<Rightarrow> end_fail s | Some ip \<Rightarrow>
     bindR (iunlockput ip s) (\<lambda>s.
     bindR (end_op s) (\<lambda>s. Ok (Value 0, s))))))))"

definition sys_chdir :: "'a fsys_scheme \<Rightarrow> (sysres \<times> 'a fsys_scheme) result" where
  "sys_chdir = with_proc (\<lambda>p s.
     bindR (begin_op s) (\<lambda>s.
     bindR (argpath 0 s) (\<lambda>path. case path of None \<Rightarrow> end_fail s | Some path \<Rightarrow>
     bindR (namei path s) (\<lambda>(r, s). case r of None \<Rightarrow> end_fail s | Some ip \<Rightarrow>
     bindR (ilock ip s) (\<lambda>s.
     if i_type (inodes s ip) \<noteq> T_DIR then bindR (iunlockput ip s) end_fail
     else bindR (iunlock ip s) (\<lambda>s.
          bindR (case cwd (procs s p) of None \<Rightarrow> Undef ''no cwd'' | Some c \<Rightarrow> iput c s) (\<lambda>s.
          bindR (end_op s) (\<lambda>s.
            Ok (Value 0, upd_proc p (\<lambda>pr. pr\<lparr>cwd := Some ip\<rparr>) s)))))))))"

subsection \<open>exec and pipe\<close>

definition free_args :: "uint64 list \<Rightarrow> 'a kmem_scheme \<Rightarrow> 'a kmem_scheme result" where
  "free_args = foldR kfree"

text \<open>
  The loop of \<^verbatim>\<open>sys_exec\<close> that fetches the argument strings, each into a page of its own; \<open>n\<close> entries of
  \<^verbatim>\<open>argv\<close> are left. The result is whether all went well, with the pages and the strings so far.
\<close>

fun fetch_args :: "nat \<Rightarrow> uint64 \<Rightarrow> uint64 list \<Rightarrow> uchar list list \<Rightarrow> 'a kernel_scheme
    \<Rightarrow> (bool \<times> uint64 list \<times> uchar list list \<times> 'a kernel_scheme) result" where
  "fetch_args 0 uargv pages args s = Ok (False, pages, args, s)"
| "fetch_args (Suc n) uargv pages args s =
     bindR (fetchaddr uargv s) (\<lambda>r. case r of
       None \<Rightarrow> Ok (False, pages, args, s)
     | Some uarg \<Rightarrow>
         if uarg = 0 then Ok (True, pages, args, s)
         else let (page, s) = kalloc s
              in if page = 0 then Ok (False, pages, args, s)
                 else bindR (fetchstr uarg 4096 s) (\<lambda>(r, buf).
                   let s = s\<lparr>mem := store_bytes page buf (mem s)\<rparr>
                   in if r < 0 then Ok (False, pages @ [page], args, s)
                      else fetch_args n (uargv + 8) (pages @ [page]) (args @ [take (nat r) buf]) s))"

definition sys_exec :: "'a fsys_scheme \<Rightarrow> (sysres \<times> 'a fsys_scheme) result" where
  "sys_exec s =
     bindR (argpath 0 s) (\<lambda>path. case path of None \<Rightarrow> Ok (FAIL, s) | Some path \<Rightarrow>
     bindR (argaddr 1 s) (\<lambda>uargv.
     bindR (fetch_args MAXARG uargv [] [] s) (\<lambda>(ok, pages, args, s).
       if ok then bindR (exec path args s) (\<lambda>(ret, s).
                  bindR (free_args pages s) (\<lambda>s. Ok (of_int_res ret, s)))
       else bindR (free_args pages s) (\<lambda>s. Ok (FAIL, s)))))"

definition pipe_bad :: "nat \<Rightarrow> nat \<Rightarrow> 'a files_scheme \<Rightarrow> (sysres \<times> 'a files_scheme) result" where
  "pipe_bad rfile wfile s = bindR (fileclose rfile s) (\<lambda>s. bindR (fileclose wfile s) (\<lambda>s. Ok (FAIL, s)))"

definition sys_pipe :: "'a files_scheme \<Rightarrow> (sysres \<times> 'a files_scheme) result" where
  "sys_pipe = with_proc (\<lambda>p s.
     bindR (argaddr 0 s) (\<lambda>fdarray.
     bindR (pipealloc s) (\<lambda>(r, s). case r of None \<Rightarrow> Ok (FAIL, s) | Some (rfile, wfile) \<Rightarrow>
     bindR (fdalloc rfile s) (\<lambda>(fd0, s). case fd0 of None \<Rightarrow> pipe_bad rfile wfile s | Some fd0 \<Rightarrow>
     bindR (fdalloc wfile s) (\<lambda>(fd1, s). case fd1 of None \<Rightarrow> pipe_bad rfile wfile (set_ofile p fd0 None s) | Some fd1 \<Rightarrow>
     bindR (copyout (p_pagetable (procs s p)) fdarray (le_bytes 4 (of_nat fd0 :: uint)) s) (\<lambda>(r, s).
     bindR (if r < 0 then Ok (r, s)
            else copyout (p_pagetable (procs s p)) (fdarray + 4) (le_bytes 4 (of_nat fd1 :: uint)) s) (\<lambda>(r, s).
       if r < 0 then pipe_bad rfile wfile (set_ofile p fd1 None (set_ofile p fd0 None s))
       else Ok (Value 0, s))))))))"

end
