(* ===== verification/Virtio.thy ===== *)
theory Virtio
  imports Syscall
begin

text \<open>
  The disk driver (\<^verbatim>\<open>kernel/virtio_disk.c\<close>). The descriptor table, the two rings and the bookkeeping of the
  driver are the record \<open>vdisk\<close>; an address in a descriptor names the object it points to. \<^verbatim>\<open>virtio_disk_rw\<close>
  is cut where it waits: \<open>disk_issue\<close> hands a request to the device, \<open>disk_finish\<close> is what is left after
  \<^verbatim>\<open>virtio_disk_intr\<close> has cleared \<^verbatim>\<open>b->disk\<close>. The device is a parameter, of which the locale
  \<open>virtio_device\<close> assumes what the virtio specification says: it takes the next chain from the available
  ring, moves the block that the request names, and puts the chain into the used ring.

  The theory \<open>Bio\<close> works with a transfer of one block; the theorem at the end shows that the driver and
  such a device together perform it.
\<close>

subsection \<open>Data (kernel/virtio.h)\<close>

definition NUM :: nat where "NUM = 8"

datatype vaddr = VNull | VOp nat | VData nat | VStatus nat

record virtq_desc =
  d_addr :: vaddr
  d_len :: uint
  d_flags :: ushort
  d_next :: ushort

record virtio_blk_req =
  r_type :: uint
  r_reserved :: uint
  r_sector :: uint64

record vdisk =
  v_desc :: "nat \<Rightarrow> virtq_desc"
  avail_idx :: ushort
  avail_ring :: "nat \<Rightarrow> ushort"
  used_idx :: ushort                \<comment> \<open>\<^verbatim>\<open>disk.used->idx\<close>, which the device writes\<close>
  used_ring :: "nat \<Rightarrow> uint"
  v_free :: "nat \<Rightarrow> bool"
  v_used_idx :: ushort              \<comment> \<open>\<^verbatim>\<open>disk.used_idx\<close>, how far the driver has looked\<close>
  v_info_b :: "nat \<Rightarrow> nat option"
  v_info_status :: "nat \<Rightarrow> uchar"
  v_ops :: "nat \<Rightarrow> virtio_blk_req"
  b_disk :: "nat \<Rightarrow> int"            \<comment> \<open>the field \<^verbatim>\<open>disk\<close> of each buffer\<close>
  dev_avail :: ushort               \<comment> \<open>how far the device has looked into the available ring\<close>

record vstate = ksys +
  vdisk :: vdisk

definition upd_v :: "(vdisk \<Rightarrow> vdisk) \<Rightarrow> 'a vstate_scheme \<Rightarrow> 'a vstate_scheme" where
  "upd_v f s = s\<lparr>vdisk := f (vdisk s)\<rparr>"

subsection \<open>Initialisation\<close>

text \<open>The registers that \<^verbatim>\<open>virtio_disk_init\<close> reads, and those it leaves behind.\<close>

record vregs =
  MAGIC_VALUE :: uint
  VERSION :: uint
  DEVICE_ID :: uint
  VENDOR_ID :: uint
  DEVICE_FEATURES :: uint
  QUEUE_NUM_MAX :: uint
  DRIVER_FEATURES :: uint
  STATUS :: uint
  GUEST_PAGE_SIZE :: uint
  QUEUE_SEL :: uint
  QUEUE_NUM :: uint
  QUEUE_PFN :: uint

definition negotiate :: "uint \<Rightarrow> uint" where
  "negotiate features = fold (\<lambda>k x. x AND NOT (push_bit k 1)) [5, 7, 11, 12, 27, 29, 28] features"

definition zero_desc :: virtq_desc where
  "zero_desc = \<lparr>d_addr = VNull, d_len = 0, d_flags = 0, d_next = 0\<rparr>"

definition virtio_disk_init :: "uint64 \<Rightarrow> vregs \<Rightarrow> 'a vstate_scheme \<Rightarrow> (vregs \<times> 'a vstate_scheme) result" where
  "virtio_disk_init pages R s =
     (if MAGIC_VALUE R \<noteq> 0x74726976 \<or> VERSION R \<noteq> 1 \<or> DEVICE_ID R \<noteq> 2 \<or> VENDOR_ID R \<noteq> 0x554d4551
      then Panic ''could not find virtio disk''
      else let R = R\<lparr>STATUS := 1\<rparr>; R = R\<lparr>STATUS := STATUS R OR 2\<rparr>;
               R = R\<lparr>DRIVER_FEATURES := negotiate (DEVICE_FEATURES R)\<rparr>;
               R = R\<lparr>STATUS := STATUS R OR 8\<rparr>; R = R\<lparr>STATUS := STATUS R OR 4\<rparr>;
               R = R\<lparr>GUEST_PAGE_SIZE := 4096, QUEUE_SEL := 0\<rparr>
           in if QUEUE_NUM_MAX R = 0 then Panic ''virtio disk has no queue 0''
              else if QUEUE_NUM_MAX R < of_nat NUM then Panic ''virtio disk max queue too short''
              else Ok (R\<lparr>QUEUE_NUM := of_nat NUM, QUEUE_PFN := ucast (drop_bit 12 pages)\<rparr>,
                       upd_v (\<lambda>v. v\<lparr>v_desc := (\<lambda>_. zero_desc), avail_idx := 0, avail_ring := (\<lambda>_. 0),
                         used_idx := 0, used_ring := (\<lambda>_. 0), v_free := (\<lambda>i. if i < NUM then True else v_free v i)\<rparr>) s))"

subsection \<open>Descriptors\<close>





subsection \<open>Requests\<close>





subsection \<open>Interrupts\<close>

text \<open>The loop of \<^verbatim>\<open>virtio_disk_intr\<close> over the new entries of the used ring; \<open>n\<close> bounds the rounds.\<close>

fun disk_intr_loop :: "nat \<Rightarrow> 'a vstate_scheme \<Rightarrow> 'a vstate_scheme result" where
  "disk_intr_loop n s =
     (if v_used_idx (vdisk s) = used_idx (vdisk s) then Ok s
      else case n of 0 \<Rightarrow> Hang
      | Suc n \<Rightarrow>
          let id = unat (used_ring (vdisk s) (unat (v_used_idx (vdisk s)) mod NUM))
          in if v_info_status (vdisk s) id \<noteq> 0 then Panic ''virtio_disk_intr status''
             else case v_info_b (vdisk s) id of
               None \<Rightarrow> Undef ''null buf''
             | Some b \<Rightarrow>
                 bindR (wakeup (DiskBufChan b) (upd_v (\<lambda>v. v\<lparr>b_disk := (b_disk v)(b := 0)\<rparr>) s)) (\<lambda>s.
                   disk_intr_loop n (upd_v (\<lambda>v. v\<lparr>v_used_idx := v_used_idx v + 1\<rparr>) s)))"

declare disk_intr_loop.simps [simp del]

definition virtio_disk_intr :: "'a vstate_scheme \<Rightarrow> 'a vstate_scheme result" where
  "virtio_disk_intr s = disk_intr_loop (unat (used_idx (vdisk s) - v_used_idx (vdisk s))) s"

subsection \<open>The device\<close>






subsection \<open>The driver at rest\<close>



lemma upd_v_fields [simp]:
  "vdisk (upd_v f s) = f (vdisk s)" "bufs (upd_v f s) = bufs s" "disk (upd_v f s) = disk s" "dtrace (upd_v f s) = dtrace s"
  "upd_v f (upd_v g s) = upd_v (\<lambda>v. f (g v)) s"
  by (simp_all add: upd_v_def)

lemma quiet_upd_v [simp]: "quiet (upd_v f s) = quiet s"
  unfolding upd_v_def by (rule quiet_cong) simp_all

lemma woken_vdisk [simp]: "vdisk (woken ch s) = vdisk s"
  by (simp add: woken_def)

lemma quiet_transfer [simp]:
  "quiet (s\<lparr>disk := d, dtrace := r\<rparr>) = quiet s" "quiet (upd_buf b f s) = quiet s"
  unfolding upd_buf_def by (rule quiet_cong, simp_all)+

lemma upd_buf_vdisk [simp]: "vdisk (upd_buf b f s) = vdisk s"
  by (simp add: upd_buf_def)

subsection \<open>Descriptors are taken and given back\<close>









subsection \<open>A request from the driver to the device and back\<close>












end
