(* ===== verification/Trap.thy ===== *)
theory Trap
  imports Sysfile Virtio
begin

text \<open>
  The system call table (\<^verbatim>\<open>kernel/syscall.c\<close>), traps (\<^verbatim>\<open>kernel/trap.c\<close>) and the interrupt controller
  (\<^verbatim>\<open>kernel/plic.c\<close>). The control registers of a hart are the record \<open>csr\<close>; \<^verbatim>\<open>sstatus\<close> is with the CPU. The
  PLIC hands out the interrupts that wait for a hart in the order of the list \<open>plic_pending\<close>.

  \<^verbatim>\<open>usertrapret\<close> ends with a jump to \<^verbatim>\<open>userret\<close> in the trampoline; the model returns the arguments of that
  jump. The uninitialised bytes of the kernel stack that some system calls copy out are the argument
  \<open>junk\<close>.
\<close>

subsection \<open>State\<close>

record csr =
  stvec :: uint64
  sepc :: uint64
  scause :: uint64
  stval :: uint64
  sip :: uint64
  satp :: uint64

record trapstate = vstate +
  csrs :: "nat \<Rightarrow> csr"
  plic_prio :: "nat \<Rightarrow> uint"
  plic_enable :: "nat \<Rightarrow> uint"
  plic_threshold :: "nat \<Rightarrow> uint"
  plic_pending :: "nat \<Rightarrow> nat list"
  plic_serving :: "nat \<Rightarrow> nat list"
  forkret_first :: int
  k_uservec :: uint64
  k_userret :: uint64
  k_usertrap :: uint64
  k_kernelvec :: uint64

definition SSTATUS_SPP :: uint64 where "SSTATUS_SPP = push_bit 8 1"
definition SSTATUS_SPIE :: uint64 where "SSTATUS_SPIE = push_bit 5 1"
definition SATP_SV39 :: uint64 where "SATP_SV39 = push_bit 60 8"

definition MAKE_SATP :: "uint64 \<Rightarrow> uint64" where
  "MAKE_SATP pagetable = SATP_SV39 OR drop_bit 12 pagetable"

definition mycsr :: "'a trapstate_scheme \<Rightarrow> csr" where
  "mycsr s = csrs s (tp s)"

definition upd_csr :: "(csr \<Rightarrow> csr) \<Rightarrow> 'a trapstate_scheme \<Rightarrow> 'a trapstate_scheme" where
  "upd_csr f s = s\<lparr>csrs := (csrs s)(tp s := f (csrs s (tp s)))\<rparr>"

subsection \<open>The interrupt controller\<close>

definition UART0_IRQ :: nat where "UART0_IRQ = 10"
definition VIRTIO0_IRQ :: nat where "VIRTIO0_IRQ = 1"

definition plicinit :: "'a trapstate_scheme \<Rightarrow> 'a trapstate_scheme" where
  "plicinit s = s\<lparr>plic_prio := (plic_prio s)(UART0_IRQ := 1, VIRTIO0_IRQ := 1)\<rparr>"

definition plicinithart :: "'a trapstate_scheme \<Rightarrow> 'a trapstate_scheme" where
  "plicinithart s =
     (let hart = tp s
      in s\<lparr>plic_enable := (plic_enable s)(hart := push_bit UART0_IRQ 1 OR push_bit VIRTIO0_IRQ 1),
           plic_threshold := (plic_threshold s)(hart := 0)\<rparr>)"

text \<open>Reading the claim register gives 0 when nothing waits.\<close>

definition plic_claim :: "'a trapstate_scheme \<Rightarrow> nat \<times> 'a trapstate_scheme" where
  "plic_claim s =
     (let hart = tp s
      in case plic_pending s hart of
           [] \<Rightarrow> (0, s)
         | irq # irqs \<Rightarrow> (irq, s\<lparr>plic_pending := (plic_pending s)(hart := irqs),
                                plic_serving := (plic_serving s)(hart := irq # plic_serving s hart)\<rparr>))"

definition plic_complete :: "nat \<Rightarrow> 'a trapstate_scheme \<Rightarrow> 'a trapstate_scheme" where
  "plic_complete irq s =
     (let hart = tp s in s\<lparr>plic_serving := (plic_serving s)(hart := remove1 irq (plic_serving s hart))\<rparr>)"

subsection \<open>System calls\<close>

definition sys_dispatch :: "uchar list \<Rightarrow> int \<Rightarrow> 'a ksys_scheme \<Rightarrow> (sysres \<times> 'a ksys_scheme) result option" where
  "sys_dispatch junk num s =
     (if num = 1 then Some (sys_fork s)
      else if num = 2 then Some (sys_exit s)
      else if num = 3 then Some (sys_wait s)
      else if num = 4 then Some (sys_pipe s)
      else if num = 5 then Some (sys_read s)
      else if num = 6 then Some (sys_kill s)
      else if num = 7 then Some (sys_exec s)
      else if num = 8 then Some (sys_fstat junk s)
      else if num = 9 then Some (sys_chdir s)
      else if num = 10 then Some (sys_dup s)
      else if num = 11 then Some (sys_getpid s)
      else if num = 12 then Some (sys_sbrk s)
      else if num = 13 then Some (sys_sleep s)
      else if num = 14 then Some (sys_uptime s)
      else if num = 15 then Some (sys_open s)
      else if num = 16 then Some (sys_write s)
      else if num = 17 then Some (sys_mknod s)
      else if num = 18 then Some (sys_unlink s)
      else if num = 19 then Some (sys_link s)
      else if num = 20 then Some (sys_mkdir s)
      else if num = 21 then Some (sys_close s)
      else if num = 22 then Some (sys_sigprocmask s)
      else if num = 23 then Some (sys_sigaction junk s)
      else if num = 24 then Some (sys_sigret s)
      else if num = 25 then Some (sys_kthread_create s)
      else if num = 26 then Some (sys_kthread_id s)
      else if num = 27 then Some (sys_kthread_exit s)
      else if num = 28 then Some (sys_kthread_join s)
      else if num = 29 then Some (sys_bsem_alloc s)
      else if num = 30 then Some (sys_bsem_free s)
      else if num = 31 then Some (sys_bsem_down s)
      else if num = 32 then Some (sys_bsem_up s)
      else None)"

definition syscall :: "uchar list \<Rightarrow> 'a ksys_scheme \<Rightarrow> (sysres \<times> 'a ksys_scheme) result" where
  "syscall junk = with_thread (\<lambda>q i s.
     bindR (tf_get (t_trapframe (thr q i s)) (TF_a 7) s) (\<lambda>a7.
     let num = sint (ucast a7 :: uint)
     in case sys_dispatch junk num s of
          Some res \<Rightarrow> bindR res (\<lambda>(r, s). case r of
              Value v \<Rightarrow> bindR (tf_set (t_trapframe (thr q i s)) (TF_a 0) v s) (\<lambda>s. Ok (r, s))
            | _ \<Rightarrow> Ok (r, s))
        | None \<Rightarrow>
            bindR (printf (''%d %s: unknown sys call %d'' @ [CHR 0x0A])
                     [AInt (word_of_int (t_id (thr q i s))), AStr (Some (bytes ''thread'')), AInt (word_of_int num)] s) (\<lambda>s.
            bindR (tf_set (t_trapframe (thr q i s)) (TF_a 0) (-1) s) (\<lambda>s. Ok (FAIL, s)))))"

subsection \<open>Device interrupts\<close>

definition clockintr :: "'a ksys_scheme \<Rightarrow> 'a ksys_scheme result" where
  "clockintr s = wakeup TicksChan (s\<lparr>ticks := ticks s + 1\<rparr>)"

definition devintr :: "'a trapstate_scheme \<Rightarrow> (int \<times> 'a trapstate_scheme) result" where
  "devintr s =
     (let cause = scause (mycsr s)
      in if cause AND 0x8000000000000000 \<noteq> 0 \<and> cause AND 0xff = 9
         then let (irq, s) = plic_claim s
              in bindR (if irq = UART0_IRQ then uartintr s
                        else if irq = VIRTIO0_IRQ then virtio_disk_intr s
                        else if irq \<noteq> 0 then printf (''unexpected interrupt irq=%d'' @ [CHR 0x0A]) [AInt (of_nat irq)] s
                        else Ok s) (\<lambda>s.
                   Ok (1, if irq \<noteq> 0 then plic_complete irq s else s))
         else if cause = 0x8000000000000001
         then bindR (if tp s = 0 then clockintr s else Ok s) (\<lambda>s.
                Ok (2, upd_csr (\<lambda>c. c\<lparr>sip := sip c AND NOT 2\<rparr>) s))
         else Ok (0, s))"

subsection \<open>Traps from the kernel\<close>

text \<open>The values that \<^verbatim>\<open>kerneltrap\<close> keeps on its stack while another thread runs, and the end of it.\<close>

definition kerneltrap_end :: "uint64 \<Rightarrow> uint64 \<Rightarrow> 'a trapstate_scheme \<Rightarrow> 'a trapstate_scheme" where
  "kerneltrap_end pc status s = upd_cpu (\<lambda>c. c\<lparr>sstatus := status\<rparr>) (upd_csr (\<lambda>c. c\<lparr>sepc := pc\<rparr>) s)"

definition kerneltrap :: "'a trapstate_scheme \<Rightarrow> (unit outcome \<times> 'a trapstate_scheme) result" where
  "kerneltrap s =
     (let pc = sepc (mycsr s); status = sstatus (mycpu s); cause = scause (mycsr s)
      in if status AND SSTATUS_SPP = 0 then Panic ''kerneltrap: not from supervisor mode''
         else if intr_get s then Panic ''kerneltrap: interrupts enabled''
         else bindR (devintr s) (\<lambda>(which_dev, s).
           if which_dev = 0
           then bindR (printf (''scause %p'' @ [CHR 0x0A]) [APtr cause] s) (\<lambda>s.
                bindR (printf (''sepc=%p stval=%p'' @ [CHR 0x0A]) [APtr (sepc (mycsr s)), APtr (stval (mycsr s))] s) (\<lambda>s.
                  Panic ''kerneltrap''))
           else if which_dev = 2
           then bindR (mythread s) (\<lambda>(t, s). case t of
                  None \<Rightarrow> Ok (Done (), kerneltrap_end pc status s)
                | Some (q, i) \<Rightarrow>
                    if t_state (thr q i s) = RUNNING
                    then bindR (yield_out s) (\<lambda>(ena, s). Ok (Switched ena, s))
                    else Ok (Done (), kerneltrap_end pc status s))
           else Ok (Done (), kerneltrap_end pc status s)))"

definition kerneltrap_back :: "bool \<Rightarrow> nat \<Rightarrow> uint64 \<Rightarrow> uint64 \<Rightarrow> 'a trapstate_scheme \<Rightarrow> 'a trapstate_scheme result" where
  "kerneltrap_back ena p pc status s = bindR (yield_back ena p s) (\<lambda>s. Ok (kerneltrap_end pc status s))"

subsection \<open>Traps from user space\<close>

datatype trapres =
    ToUser uint64 uint64     \<comment> \<open>jump to \<^verbatim>\<open>userret\<close> with the address of the trapframe and \<^verbatim>\<open>satp\<close>\<close>
  | InSyscall sysres         \<comment> \<open>asleep in a system call\<close>
  | Exited bool              \<comment> \<open>gone for good\<close>
  | Yielded bool             \<comment> \<open>the time slice is over\<close>
  | Frozen bool              \<comment> \<open>stopped by a signal\<close>

definition ret_to_user :: "nat \<Rightarrow> nat \<Rightarrow> nat \<Rightarrow> 'a trapstate_scheme \<Rightarrow> (trapres \<times> 'a trapstate_scheme) result" where
  "ret_to_user p q i s =
     (let s = intr_off s;
          s = upd_csr (\<lambda>c. c\<lparr>stvec := TRAMPOLINE + (k_uservec s - k_trampoline s)\<rparr>) s;
          tf = t_trapframe (thr q i s)
      in bindR (tf_set tf TF_kernel_satp (satp (mycsr s)) s) (\<lambda>s.
         bindR (tf_set tf TF_kernel_sp (t_kstack (thr q i s) + PGSIZE) s) (\<lambda>s.
         bindR (tf_set tf TF_kernel_trap (k_usertrap s) s) (\<lambda>s.
         bindR (tf_set tf TF_kernel_hartid (of_nat (tp s)) s) (\<lambda>s.
         let s = upd_cpu (\<lambda>c. c\<lparr>sstatus := (sstatus c AND NOT SSTATUS_SPP) OR SSTATUS_SPIE\<rparr>) s
         in bindR (tf_get tf TF_epc s) (\<lambda>epc.
              Ok (ToUser (TRAPFRAME + of_nat (TF_SIZE * i)) (MAKE_SATP (p_pagetable (procs s p))),
                  upd_csr (\<lambda>c. c\<lparr>sepc := epc\<rparr>) s)))))))"

definition usertrapret :: "'a trapstate_scheme \<Rightarrow> (trapres \<times> 'a trapstate_scheme) result" where
  "usertrapret = with_proc (\<lambda>p. with_thread (\<lambda>q i s.
     if signal_handling_flag (procs s p) = 0
     then bindR (handle_pendding_sinals s) (\<lambda>(r, s). case r of
            Switched ena \<Rightarrow> Ok (Frozen ena, s)
          | Done sig \<Rightarrow>
              if sig \<noteq> -1 then bindR (userhandler (nat sig) s) (ret_to_user p q i) else ret_to_user p q i s)
     else ret_to_user p q i s))"

definition usertrapret_back :: "bool \<Rightarrow> nat \<Rightarrow> nat \<Rightarrow> 'a trapstate_scheme \<Rightarrow> (trapres \<times> 'a trapstate_scheme) result" where
  "usertrapret_back ena p i s =
     bindR (handle_pendding_sinals_back ena p s) (\<lambda>(r, s). case r of
       Switched ena \<Rightarrow> Ok (Frozen ena, s)
     | Done sig \<Rightarrow> if sig \<noteq> -1 then bindR (userhandler (nat sig) s) (ret_to_user p p i) else ret_to_user p p i s)"

text \<open>The end of \<^verbatim>\<open>usertrap\<close>, after the trap has been served.\<close>

definition usertrap_end :: "nat \<Rightarrow> nat \<Rightarrow> nat \<Rightarrow> int \<Rightarrow> 'a trapstate_scheme \<Rightarrow> (trapres \<times> 'a trapstate_scheme) result" where
  "usertrap_end p q i which_dev s =
     (if p_killed (procs s p) \<noteq> 0 then bindR (exit (-1) s) (\<lambda>(ena, s). Ok (Exited ena, s))
      else if t_killed (thr q i s) \<noteq> 0 then bindR (kthread_exit (-1) s) (\<lambda>(ena, s). Ok (Exited ena, s))
      else if which_dev = 2 then bindR (yield_out s) (\<lambda>(ena, s). Ok (Yielded ena, s))
      else usertrapret s)"

definition usertrap_back :: "bool \<Rightarrow> nat \<Rightarrow> 'a trapstate_scheme \<Rightarrow> (trapres \<times> 'a trapstate_scheme) result" where
  "usertrap_back ena p s = bindR (yield_back ena p s) usertrapret"

definition usertrap :: "uchar list \<Rightarrow> 'a trapstate_scheme \<Rightarrow> (trapres \<times> 'a trapstate_scheme) result" where
  "usertrap junk s0 =
     (if sstatus (mycpu s0) AND SSTATUS_SPP \<noteq> 0 then Panic ''usertrap: not from user mode''
      else with_proc (\<lambda>p. with_thread (\<lambda>q i s.
        bindR (tf_set (t_trapframe (thr q i s)) TF_epc (sepc (mycsr s)) s) (\<lambda>s.
        if scause (mycsr s) = 8
        then if p_killed (procs s p) \<noteq> 0 then bindR (exit (-1) s) (\<lambda>(ena, s). Ok (Exited ena, s))
             else if t_killed (thr q i s) \<noteq> 0 then bindR (kthread_exit (-1) s) (\<lambda>(ena, s). Ok (Exited ena, s))
             else bindR (tf_get (t_trapframe (thr q i s)) TF_epc s) (\<lambda>epc.
                  bindR (tf_set (t_trapframe (thr q i s)) TF_epc (epc + 4) s) (\<lambda>s.
                  bindR (syscall junk (intr_on s)) (\<lambda>(r, s). case r of
                    Value _ \<Rightarrow> usertrap_end p q i 0 s
                  | _ \<Rightarrow> Ok (InSyscall r, s))))
        else bindR (devintr s) (\<lambda>(which_dev, s).
          if which_dev \<noteq> 0 then usertrap_end p q i which_dev s
          else bindR (printf (''usertrap(): unexpected scause %p pid=%d tid=%d'' @ [CHR 0x0A])
                   [APtr (scause (mycsr s)), AInt (word_of_int (p_pid (procs s p))), AInt (word_of_int (t_id (thr q i s)))] s) (\<lambda>s.
               bindR (printf (''            sepc=%p stval=%p'' @ [CHR 0x0A]) [APtr (sepc (mycsr s)), APtr (stval (mycsr s))] s) (\<lambda>s.
               usertrap_end p q i 0 (upd_thread q i (\<lambda>t. t\<lparr>t_killed := 1\<rparr>) (upd_proc p (\<lambda>pr. pr\<lparr>p_killed := 1\<rparr>) s)))))))) 
        (upd_csr (\<lambda>c. c\<lparr>stvec := k_kernelvec s0\<rparr>) s0))"

definition trapinithart :: "'a trapstate_scheme \<Rightarrow> 'a trapstate_scheme" where
  "trapinithart s = upd_csr (\<lambda>c. c\<lparr>stvec := k_kernelvec s\<rparr>) s"

subsection \<open>The first return of a new process\<close>

definition forkret :: "'a trapstate_scheme \<Rightarrow> (trapres \<times> 'a trapstate_scheme) result" where
  "forkret = with_proc (\<lambda>p s.
     bindR (release_p p s) (\<lambda>s.
     bindR (if forkret_first s \<noteq> 0 then fsinit (of_nat ROOTDEV) (s\<lparr>forkret_first := 0\<rparr>) else Ok s) usertrapret))"

end
