(* ===== verification/Boot.thy ===== *)
theory Boot
  imports Trap
begin

text \<open>
  Booting: \<^verbatim>\<open>kernel/start.c\<close> in machine mode, the timer handler \<^verbatim>\<open>timervec\<close> of \<^verbatim>\<open>kernel/kernelvec.S\<close>, and
  \<^verbatim>\<open>kernel/main.c\<close> up to the scheduler. The machine-mode registers of a hart and its timer are the record
  \<open>mhart\<close>.
\<close>

subsection \<open>Machine mode\<close>

record mhart =
  mstatus :: uint64
  mepc :: uint64
  medeleg :: uint64
  mideleg :: uint64
  mie :: uint64
  sie :: uint64
  mscratch :: uint64
  mtvec :: uint64
  mtimecmp :: uint64
  mscratch3 :: uint64    \<comment> \<open>\<^verbatim>\<open>timer_scratch[id][3]\<close>\<close>
  mscratch4 :: uint64    \<comment> \<open>\<^verbatim>\<open>timer_scratch[id][4]\<close>\<close>

record machine_boot = trapstate +
  mharts :: "nat \<Rightarrow> mhart"
  mtime :: uint64
  kernel_pagetable :: uint64
  started :: int
  k_main :: uint64
  k_timervec :: uint64
  k_scratch :: uint64      \<comment> \<open>the address of \<^verbatim>\<open>timer_scratch\<close>\<close>
  k_etext :: uint64
  k_diskpages :: uint64    \<comment> \<open>the address of \<^verbatim>\<open>disk.pages\<close>\<close>
  vmmio :: vregs

definition MSTATUS_MPP_MASK :: uint64 where "MSTATUS_MPP_MASK = push_bit 11 3"
definition MSTATUS_MPP_S :: uint64 where "MSTATUS_MPP_S = push_bit 11 1"
definition MSTATUS_MIE :: uint64 where "MSTATUS_MIE = push_bit 3 1"
definition SIE_SEIE :: uint64 where "SIE_SEIE = push_bit 9 1"
definition SIE_STIE :: uint64 where "SIE_STIE = push_bit 5 1"
definition SIE_SSIE :: uint64 where "SIE_SSIE = push_bit 1 1"
definition MIE_MTIE :: uint64 where "MIE_MTIE = push_bit 7 1"
definition CLINT :: uint64 where "CLINT = 0x2000000"

definition CLINT_MTIMECMP :: "nat \<Rightarrow> uint64" where
  "CLINT_MTIMECMP hartid = CLINT + 0x4000 + 8 * of_nat hartid"

definition TIMER_INTERVAL :: uint64 where "TIMER_INTERVAL = 1000000"

definition upd_mhart :: "nat \<Rightarrow> (mhart \<Rightarrow> mhart) \<Rightarrow> 'a machine_boot_scheme \<Rightarrow> 'a machine_boot_scheme" where
  "upd_mhart k f s = s\<lparr>mharts := (mharts s)(k := f (mharts s k))\<rparr>"

definition timerinit :: "nat \<Rightarrow> 'a machine_boot_scheme \<Rightarrow> 'a machine_boot_scheme" where
  "timerinit hart s = upd_mhart hart (\<lambda>m. m
     \<lparr>mtimecmp := mtime s + TIMER_INTERVAL,
      mscratch3 := CLINT_MTIMECMP hart,
      mscratch4 := TIMER_INTERVAL,
      mscratch := k_scratch s + of_nat (40 * hart),
      mtvec := k_timervec s,
      mstatus := mstatus m OR MSTATUS_MIE,
      mie := mie m OR MIE_MTIE\<rparr>) s"

definition start :: "nat \<Rightarrow> 'a machine_boot_scheme \<Rightarrow> 'a machine_boot_scheme" where
  "start hart s =
     (let s = upd_mhart hart (\<lambda>m. m\<lparr>mstatus := (mstatus m AND NOT MSTATUS_MPP_MASK) OR MSTATUS_MPP_S, mepc := k_main s\<rparr>) s;
          s = s\<lparr>csrs := (csrs s)(hart := (csrs s hart)\<lparr>satp := 0\<rparr>)\<rparr>;
          s = upd_mhart hart (\<lambda>m. m\<lparr>medeleg := 0xffff, mideleg := 0xffff,
                sie := sie m OR SIE_SEIE OR SIE_STIE OR SIE_SSIE\<rparr>) s;
          s = timerinit hart s
      in s\<lparr>tp := hart\<rparr>)"

text \<open>
  The timer interrupt in machine mode: the comparand in the register that \<^verbatim>\<open>scratch[3]\<close> names moves on by
  \<^verbatim>\<open>scratch[4]\<close>, and a software interrupt is raised for supervisor mode.
\<close>

definition timervec :: "nat \<Rightarrow> 'a machine_boot_scheme \<Rightarrow> 'a machine_boot_scheme result" where
  "timervec hart s =
     (if mscratch3 (mharts s hart) \<noteq> CLINT_MTIMECMP hart then Undef ''not a timer register''
      else let s = upd_mhart hart (\<lambda>m. m\<lparr>mtimecmp := mtimecmp m + mscratch4 m\<rparr>) s
           in Ok (s\<lparr>csrs := (csrs s)(hart := (csrs s hart)\<lparr>sip := 2\<rparr>)\<rparr>))"

subsection \<open>Supervisor mode\<close>

definition kvminit :: "'a machine_boot_scheme \<Rightarrow> 'a machine_boot_scheme result" where
  "kvminit s = bindR (kvmmake (k_etext s) (k_trampoline s) s) (\<lambda>(pt, s). Ok (s\<lparr>kernel_pagetable := pt\<rparr>))"

definition kvminithart :: "'a machine_boot_scheme \<Rightarrow> 'a machine_boot_scheme" where
  "kvminithart s = upd_csr (\<lambda>c. c\<lparr>satp := MAKE_SATP (kernel_pagetable s)\<rparr>) s"

text \<open>\<^verbatim>\<open>main\<close> on each hart, up to the call of \<^verbatim>\<open>scheduler\<close>, of which \<open>scheduler_start\<close> is the beginning.\<close>

definition main :: "'a machine_boot_scheme \<Rightarrow> 'a machine_boot_scheme result" where
  "main s =
     (if tp s = 0
      then let s = printfinit (consoleinit s)
           in bindR (printf [CHR 0x0A] [] s) (\<lambda>s.
              bindR (printf (''xv6 kernel is booting'' @ [CHR 0x0A]) [] s) (\<lambda>s.
              bindR (printf [CHR 0x0A] [] s) (\<lambda>s.
              bindR (kinit s) (\<lambda>s.
              bindR (kvminit s) (\<lambda>s.
              let s = trapinithart (procinit (kvminithart s));
                  s = plicinithart (plicinit s);
                  s = iinit (binit s)
              in bindR (virtio_disk_init (k_diskpages s) (vmmio s) s) (\<lambda>(R, s).
                 bindR (userinit (s\<lparr>vmmio := R\<rparr>)) (\<lambda>s.
                   Ok (scheduler_start (s\<lparr>started := 1\<rparr>)))))))))
      else if started s = 0 then Hang
      else bindR (printf (''hart %d starting'' @ [CHR 0x0A]) [AInt (of_nat (tp s))] s) (\<lambda>s.
             Ok (scheduler_start (plicinithart (trapinithart (kvminithart s))))))"

end
