(* ===== verification/Spec2Isabelle.thy ===== *)
theory Spec2Isabelle
  imports Sigreturn CountingSem DirData Fairness Boot
begin

text \<open>
  A verification library for xv6-riscv with signals, kernel threads and semaphores.

  \<^bold>\<open>The program.\<close> The kernel of \<^verbatim>\<open>kernel/\<close> runs on several harts under Sv39 paging. From the bottom up: spinlocks
  that switch interrupts off; a page allocator; page tables and copies between kernel and user memory; a
  table of processes, each with up to eight threads, that a scheduler per hart runs; sleep and wakeup;
  signals, threads and binary semaphores, which this version adds; a disk driver, a buffer cache, a redo
  log, inodes, directories and paths; the UART, the console and formatted output; open files and pipes;
  fork, exit, wait and exec; the system calls, traps and the boot code. \<^verbatim>\<open>user/Csemaphore.c\<close> builds counting
  semaphores from the binary ones.

  \<^bold>\<open>How code becomes definitions.\<close> Every function is a HOL function with the name it has in C, from a state to a
  \<open>result\<close> (theory Prelude): \<open>Ok\<close> with the new state, \<open>Panic\<close> with the kernel's message, \<open>Undef\<close> where C gives no
  meaning (a null pointer, an index out of range, a signed overflow), \<open>Hang\<close> where the code spins and nobody
  will end it, \<open>Sleep\<close> where it waits for a sleep lock. The state is a chain of records, one extension per
  component: \<open>machine\<close> (harts), \<open>kmem\<close> (physical memory and the free list), \<open>kernel\<close> (processes, semaphores),
  \<open>bcache\<close>, \<open>fslog\<close>, \<open>fsys\<close>, \<open>devs\<close>, \<open>files\<close>, \<open>ksys\<close>, \<open>vstate\<close>, \<open>trapstate\<close>, \<open>machine_boot\<close>; the operations of a component are
  polymorphic in what comes after. Memory is a function from 64-bit addresses to bytes, so page tables, the
  free list and trapframes are where the machine has them. Pointers into the kernel's tables are indices.
  Integers have their width in C as words, except where the code only counts and a bound is stated.

  A function that gives up the processor is cut there: \<open>_out\<close> is the part before \<^verbatim>\<open>swtch\<close> and \<open>_back\<close> the part after
  it, and an \<open>outcome\<close> or \<open>progress\<close> value says whether it returned or how far it got. Loops are recursion on
  lists or numbers, functions with a measure, or rounds that a number bounds: \<open>free_chain\<close> by one more than the
  descriptors there are, since a descriptor met twice makes \<^verbatim>\<open>free_desc\<close> panic; \<open>uartstart_loop\<close>, \<open>disk_intr_loop\<close>,
  \<open>kill_line\<close> and \<open>uartintr_loop\<close> by the number of entries or bytes to take; \<open>bwalk\<close> by the number of buffers;
  \<open>freewalk\<close> by the three levels of a page table. That the bounds suffice is part of the theorems that use
  them: they show the result \<open>Ok\<close>, which a loop that runs out of rounds does not have.

  \<^bold>\<open>The theories.\<close>
  \<^item> Prelude: word types, \<open>result\<close>, folds and searches over tables, little-endian bytes.
  \<^item> Riscv: page table macros of \<^verbatim>\<open>riscv.h\<close> and the address map of \<^verbatim>\<open>memlayout.h\<close>; packing and indices are exact.
  \<^item> Spinlock: \<^verbatim>\<open>spinlock.c\<close>. \<^verbatim>\<open>push_off\<close> and \<^verbatim>\<open>pop_off\<close> match; a step relation of contending harts gives mutual
    exclusion.
  \<^item> KString: \<^verbatim>\<open>string.c\<close> on bytes in memory; \<^verbatim>\<open>memmove\<close> with overlap, the bound of \<^verbatim>\<open>safestrcpy\<close>.
  \<^item> Kalloc: \<^verbatim>\<open>kalloc.c\<close>. The locale \<open>page_allocator\<close> is the contract of an allocator, interpreted for \<open>kalloc\<close>
    and \<open>kfree\<close>.
  \<^item> Vm, UserCopy: \<^verbatim>\<open>vm.c\<close>. What \<^verbatim>\<open>copyin\<close> and \<^verbatim>\<open>copyout\<close> read and write across pages; an address is mapped for the
    user when \<^verbatim>\<open>walkaddr\<close> finds it.
  \<^item> Proc, Sched, Thread, Lifecycle: \<^verbatim>\<open>proc.c\<close>: the tables, scheduling, sleep and wakeup, wait, threads, fork and exit.
    \<open>settled\<close>, \<open>locks_free\<close> and \<open>running\<close> describe a hart that executes a thread; \<open>wakeup_spec\<close> is \<^verbatim>\<open>wakeup\<close> in closed form.
  \<^item> Fairness: one round of the scheduler of a hart, over the locale \<open>scheduled\<close>, what a thread owes the scheduler.
  \<^item> Signal, Sigreturn: the signal functions of \<^verbatim>\<open>proc.c\<close>: sending, delivery, installing and entering handlers. The way
    back, which goes through \<^verbatim>\<open>syscall\<close>, is in this theory.
  \<^item> Semaphore, CountingSem: binary semaphores in \<^verbatim>\<open>proc.c\<close> implement an abstract semaphore, and give mutual exclusion
    to threads that call them; the statements of \<^verbatim>\<open>Csemaphore.c\<close> as an interleaving.
  \<^item> Sleeplock, Bio, Log: \<^verbatim>\<open>sleeplock.c\<close>, \<^verbatim>\<open>bio.c\<close>, \<^verbatim>\<open>log.c\<close>. The invariant \<open>cache_ok\<close> of the cache with its list of recently
    used buffers; the locale \<open>block_copier\<close> for the copies of the log, interpreted for the three that commit and
    recovery make; atomicity of a commit under a crash after any of its disk writes.
  \<^item> Inode, Dir: \<^verbatim>\<open>fs.c\<close>. Txn, FileBlocks, FileData and DirData show what its operations do within a transaction: the
    free map, the inodes on disk, a file as an array of bytes, a directory as a table of names.
  \<^item> Ring: the locales \<open>ring\<close> and \<open>bounded_queue\<close>, for the pipe, the console input and the transmit queue.
  \<^item> Uart, Console, File: \<^verbatim>\<open>uart.c\<close>, \<^verbatim>\<open>printf.c\<close>, \<^verbatim>\<open>console.c\<close>, \<^verbatim>\<open>file.c\<close>, \<^verbatim>\<open>pipe.c\<close>.
  \<^item> Exec, Syscall, Sysfile, Virtio, Trap, Boot: \<^verbatim>\<open>exec.c\<close>, \<^verbatim>\<open>syscall.c\<close>, \<^verbatim>\<open>sysproc.c\<close>, \<^verbatim>\<open>sysfile.c\<close>, \<^verbatim>\<open>virtio_disk.c\<close>, \<^verbatim>\<open>plic.c\<close>,
    \<^verbatim>\<open>trap.c\<close>, \<^verbatim>\<open>start.c\<close>, \<^verbatim>\<open>main.c\<close>. The driver, its interrupt and a device with the contract \<open>virtio_device\<close> perform the
    transfer of a block that Bio assumes.

  \<^bold>\<open>What the model leaves out of the code it covers.\<close> Critical sections under \<^verbatim>\<open>kmem.lock\<close>, \<^verbatim>\<open>bcache.lock\<close>, \<^verbatim>\<open>log.lock\<close>, \<^verbatim>\<open>itable.lock\<close>,
  \<^verbatim>\<open>ftable.lock\<close>, \<^verbatim>\<open>pi->lock\<close>, \<^verbatim>\<open>cons.lock\<close> and the locks of the devices are single steps; \<^verbatim>\<open>p->lock\<close>, \<^verbatim>\<open>wait_lock\<close> and \<^verbatim>\<open>bsem_lock\<close> are taken
  and released as in the source. Interleavings of harts are modelled where a property is about them, in
  Spinlock, Semaphore and CountingSem; elsewhere one hart runs and its assumptions say what it finds free.
  The nesting depth \<^verbatim>\<open>noff\<close> is a number without a bound, and the theorem about it keeps it within an int. The
  loop variable of \<^verbatim>\<open>balloc\<close> is a natural number, an int in C, which differ for disks of more than \<open>2 ^ 31\<close> blocks;
  mkfs makes 1000. \<^verbatim>\<open>printint\<close> negates as a word, as
  compilers do for \<^verbatim>\<open>-INT_MIN\<close>. The contents of the kernel stack that \<^verbatim>\<open>sigaction\<close> may read is a parameter.

  \<^bold>\<open>Not modelled.\<close> \<^verbatim>\<open>entry.S\<close>, \<^verbatim>\<open>swtch.S\<close>, \<^verbatim>\<open>trampoline.S\<close> and \<^verbatim>\<open>initcode.S\<close>, which move registers: their effect is part of the
  definitions that call them. The accessors of control registers in \<^verbatim>\<open>riscv.h\<close>, one instruction each. \<^verbatim>\<open>ramdisk.c\<close>,
  which is not built, and \<^verbatim>\<open>semaphore.c\<close>, which is a comment. User programs other than \<^verbatim>\<open>Csemaphore.c\<close>, their library and
  the tests, on which the kernel does not depend. \<^verbatim>\<open>mkfs.c\<close>, a program of the build host.
\<close>

subsection \<open>Signals through the system call interface\<close>

lemma sigret_syscall:
  fixes s :: "'a ksys_scheme"
  assumes "running p i s" and "t_trapframe (thr p i s) = tf" and "tf \<noteq> 0" and "user_trap_frame_backup (thr p i s) = bk"
    and "bk \<noteq> 0" and "load64 (mem s) (tf + TF_a 7) = 24"
  shows "\<exists>t. syscall junk s = Ok (Value 0, t) \<and>
    (\<forall>m. load_bytes bk TF_SIZE (mem s) = load_bytes tf TF_SIZE m \<longrightarrow>
      (\<forall>r<36. load64 (mem t) (tf + 8 * of_nat r) = (if r = 14 then 0 else load64 m (tf + 8 * of_nat r)))) \<and>
    signal_mask (procs t p) = signal_mask_backup (procs s p) \<and> signal_handling_flag (procs t p) = 0"
proof -
  let ?m = "store_bytes tf (load_bytes bk TF_SIZE (mem s)) (mem s)"
  let ?u = "(upd_proc p (\<lambda>pr. pr\<lparr>signal_mask := signal_mask_backup pr, signal_handling_flag := 0\<rparr>) s)\<lparr>mem := ?m\<rparr>"
  let ?t = "?u\<lparr>mem := store64 (tf + 8 * of_nat 14) 0 ?m\<rparr>"
  have a0: "TF_a 0 = 8 * of_nat 14" by (simp add: TF_a_def)
  have "sigret s = Ok ?u" using sigret_eq [OF assms(1)] assms(2-5) by simp
  moreover have "t_trapframe (thr p i ?u) = tf" using assms(2) by (simp add: thr_def upd_proc_def)
  ultimately have c: "syscall junk s = Ok (Value 0, ?t)"
    using runningD [OF assms(1)] assms(2,3,6)
    by (simp add: syscall_def with_thread_settled tf_get_def tf_set_def sys_dispatch_def sys_sigret_def a0)
  have "load64 (mem ?t) (tf + 8 * of_nat r) = (if r = 14 then 0 else load64 m (tf + 8 * of_nat r))"
    if m: "load_bytes bk TF_SIZE (mem s) = load_bytes tf TF_SIZE m" and r: "r < 36" for m r
  proof (cases "r = 14")
    case False
    then have "load64 (mem ?t) (tf + 8 * of_nat r) = load64 ?m (tf + 8 * of_nat r)"
      using load64_other_reg [of 14 r tf 0 ?m] r by simp
    also have "\<dots> = load64 m (tf + 8 * of_nat r)"
      unfolding m by (rule load64_copied) (use r in \<open>simp add: unat_reg TF_SIZE_def\<close>)
    finally show ?thesis using False by simp
  qed simp
  with c show ?thesis by (intro exI [of _ ?t]) (simp add: upd_proc_def)
qed

text \<open>
  C24. A caught signal and the return from its handler, as the user program sees them. When the first
  deliverable signal \<open>k\<close> is caught, \<^verbatim>\<open>handle_pendding_sinals\<close> returns \<open>k\<close> and \<^verbatim>\<open>userhandler\<close> enters the handler:
  program counter at the handler, \<open>k\<close> in a0, the return address at the sigret code on the user stack,
  the handler's mask in force, the signal no longer pending. Whatever the thread does in the handler,
  provided the kernel keeps the saved trapframe and mask, its system call sigret (number 24 in a7) brings
  back every register of the interrupted code, the program counter among them, except one, the mask,
  and the readiness for the next signal. The exception is a0: \<^verbatim>\<open>sys_sigret\<close> returns 0, and \<^verbatim>\<open>syscall\<close> stores that in
  the trapframe that \<^verbatim>\<open>sigret\<close> has just restored. The trapframe has 36 words; a0 is word 14.
\<close>

theorem signal_round_trip:
  fixes s :: "'a ksys_scheme"
  assumes "sig_ready p i s V" and "frozen (procs s p) \<noteq> 1" and "signal_handling_flag (procs s p) = 0"
    and "scan 32 (deliverable (procs s p)) = Some k" and "disposition_of (procs s p) k = CatchIt"
    and "tf = t_trapframe (thr p i s)" and "bk = user_trap_frame_backup (thr p i s)"
  shows "\<exists>s1 s2. handle_pendding_sinals s = Ok (Done (int k), s1) \<and> userhandler k s1 = Ok s2
     \<and> procs s2 = (procs s)(p := enter_handler k (procs s p)) \<and> cpus s2 = cpus s \<and> tp s2 = tp s
     \<and> load64 (mem s2) (tf + TF_epc) = signal_handlers (procs s p) k
     \<and> load64 (mem s2) (tf + TF_a 0) = of_nat k
     \<and> load64 (mem s2) (tf + TF_ra) = load64 (mem s2) (tf + TF_sp)
     \<and> (\<forall>s3 :: 'a ksys_scheme. running p i s3 \<and> t_trapframe (thr p i s3) = tf \<and> user_trap_frame_backup (thr p i s3) = bk
          \<and> signal_mask_backup (procs s3 p) = signal_mask_backup (procs s2 p)
          \<and> load_bytes bk TF_SIZE (mem s3) = load_bytes bk TF_SIZE (mem s2) \<and> load64 (mem s3) (tf + TF_a 7) = 24 \<longrightarrow>
        (\<exists>s4. syscall junk s3 = Ok (Value 0, s4)
           \<and> (\<forall>r<36. load64 (mem s4) (tf + 8 * of_nat r) = (if r = 14 then 0 else load64 (mem s) (tf + 8 * of_nat r)))
           \<and> signal_mask (procs s4 p) = signal_mask (procs s p) \<and> signal_handling_flag (procs s4 p) = 0))"
proof -
  have nz: "tf \<noteq> 0" "bk \<noteq> 0" using assms(1,6,7) by (simp_all add: sig_ready_def Let_def)
  from handler_entered [OF assms] obtain s1 s2 where e: "handle_pendding_sinals s = Ok (Done (int k), s1)" "userhandler k s1 = Ok s2"
    "procs s2 = (procs s)(p := enter_handler k (procs s p))" "load64 (mem s2) (tf + TF_epc) = signal_handlers (procs s p) k"
    "load64 (mem s2) (tf + TF_a 0) = of_nat k" "load64 (mem s2) (tf + TF_ra) = load64 (mem s2) (tf + TF_sp)"
    "load_bytes bk TF_SIZE (mem s2) = load_bytes tf TF_SIZE (mem s)" "cpus s2 = cpus s" "tp s2 = tp s" by blast
  have "\<exists>s4. syscall junk s3 = Ok (Value 0, s4)
      \<and> (\<forall>r<36. load64 (mem s4) (tf + 8 * of_nat r) = (if r = 14 then 0 else load64 (mem s) (tf + 8 * of_nat r)))
      \<and> signal_mask (procs s4 p) = signal_mask (procs s p) \<and> signal_handling_flag (procs s4 p) = 0"
    if s3: "running p i s3" "t_trapframe (thr p i s3) = tf" "user_trap_frame_backup (thr p i s3) = bk"
      "signal_mask_backup (procs s3 p) = signal_mask_backup (procs s2 p)"
      "load_bytes bk TF_SIZE (mem s3) = load_bytes bk TF_SIZE (mem s2)" "load64 (mem s3) (tf + TF_a 7) = 24" for s3 :: "'a ksys_scheme"
  proof -
    have "load_bytes bk TF_SIZE (mem s3) = load_bytes tf TF_SIZE (mem s)" using s3(5) e(7) by simp
    from sigret_syscall [OF s3(1,2) nz(1) s3(3) nz(2) s3(6), of junk] this obtain t where
      "syscall junk s3 = Ok (Value 0, t)" "\<forall>r<36. load64 (mem t) (tf + 8 * of_nat r) = (if r = 14 then 0 else load64 (mem s) (tf + 8 * of_nat r))"
      "signal_mask (procs t p) = signal_mask_backup (procs s3 p)" "signal_handling_flag (procs t p) = 0" by blast
    moreover have "signal_mask_backup (procs s2 p) = signal_mask (procs s p)" by (simp add: e(3) enter_handler_def)
    ultimately show ?thesis using s3(4) by auto
  qed
  with e show ?thesis by (intro exI [of _ s1] exI [of _ s2] conjI) blast+
qed

text \<open>The example process of \<open>caught_example\<close>, whose handler executes the system call at once.\<close>

definition sig_example :: ksys where
  "sig_example = (files.extend files_example \<lparr>ticks = 0\<rparr>)\<lparr>tp := tp caught_example, cpus := cpus caught_example,
     mem := mem caught_example, procs := procs caught_example\<rparr>"

lemma sig_example_fields [simp]:
  "tp sig_example = tp caught_example" "cpus sig_example = cpus caught_example" "mem sig_example = mem caught_example"
  "procs sig_example = procs caught_example" "thr q j sig_example = thr q j caught_example"
  by (simp_all add: sig_example_def thr_def)

lemma sig_example_ready: "sig_ready 2 0 sig_example example_area"
  using caught_example_ready running_cong [of sig_example caught_example 2 0]
    user_mem_cong [of sig_example caught_example] user_bytes_cong [of sig_example caught_example]
  by (simp add: sig_ready_def)

theorem signal_round_trip_witness:
  "\<exists>s1 s2 s4. handle_pendding_sinals sig_example = Ok (Done 3, s1) \<and> userhandler 3 s1 = Ok s2 \<and>
     syscall [] (s2\<lparr>mem := store64 (0x87FFB000 + TF_a 7) 24 (mem s2)\<rparr>) = Ok (Value 0, s4) \<and>
     load64 (mem s4) (0x87FFB000 + TF_epc) = load64 (mem sig_example) (0x87FFB000 + TF_epc) \<and>
     load64 (mem s4) (0x87FFB000 + TF_a 0) = 0"
proof -
  let ?tf = "0x87FFB000 :: uint64" and ?bk = "0x87FFA000 :: uint64"
  have f: "frozen (procs sig_example 2) \<noteq> 1" "signal_handling_flag (procs sig_example 2) = 0"
    "scan 32 (deliverable (procs sig_example 2)) = Some 3" "disposition_of (procs sig_example 2) 3 = CatchIt"
    "?tf = t_trapframe (thr 2 0 sig_example)" "?bk = user_trap_frame_backup (thr 2 0 sig_example)"
    by (simp_all add: caught_example_signal)
  note trip = signal_round_trip [OF sig_example_ready f, where junk = "[]"]
  from trip obtain s1 s2 where s2: "handle_pendding_sinals sig_example = Ok (Done 3, s1)" "userhandler 3 s1 = Ok s2"
    "procs s2 = (procs sig_example)(2 := enter_handler 3 (procs sig_example 2))" "cpus s2 = cpus sig_example" "tp s2 = tp sig_example"
    by auto
  let ?s3 = "s2\<lparr>mem := store64 (?tf + TF_a 7) 24 (mem s2)\<rparr>"
  have k: "keeps_lock (enter_handler 3)" by (simp add: keeps_lock_def enter_handler_def)
  have "running 2 0 sig_example" using sig_example_ready by (simp add: sig_ready_def Let_def)
  from running_upd [OF this k, of 2] have r: "running 2 0 ?s3"
    using running_cong [of ?s3 "upd_proc 2 (enter_handler 3) sig_example" 2 0] s2(3-5) by (simp add: upd_proc_def)
  have th: "t_trapframe (thr 2 0 ?s3) = ?tf" "user_trap_frame_backup (thr 2 0 ?s3) = ?bk"
    using f(5,6) by (simp_all add: thr_def s2(3) enter_handler_def)
  have dis: "tf_range ?tf \<inter> tf_range ?bk = {}" using sig_example_ready f(5,6) by (simp add: sig_ready_def Let_def)
  have "load_bytes ?bk TF_SIZE (mem ?s3) = load_bytes ?bk TF_SIZE (mem s2)"
  proof (rule load_bytes_cong)
    fix a
    assume "a \<in> tf_range ?bk"
    with dis have "a \<notin> tf_range ?tf" by blast
    then have "store64 (?tf + TF_a 7) 24 (mem s2) a = mem s2 a"
      by (intro store64_tf) (simp_all add: TF_a_def TF_SIZE_def)
    then show "mem ?s3 a = mem s2 a" by simp
  qed
  with trip s2(1,2) r th obtain s4 where s4: "syscall [] ?s3 = Ok (Value 0, s4)"
    "\<And>q. q < 36 \<Longrightarrow> load64 (mem s4) (?tf + 8 * of_nat q) = (if q = 14 then 0 else load64 (mem sig_example) (?tf + 8 * of_nat q))"
    by fastforce
  from s4(2) [of 3] s4(2) [of 14] s4(1) s2(1,2) show ?thesis by (auto simp: TF_epc_def TF_a_def)
qed

end
